(* ===== verification/Kaviz_Prelude.thy ===== *)
theory Kaviz_Prelude
  imports Main "HOL-Library.Word"
begin

text \<open>
  Shared vocabulary of the development: the kernel's integer types, page-alignment
  arithmetic on 64-bit words, counted C loops as folds, and the collections of
  rewrite rules that the component theories fill.
\<close>

unbundle bit_operations_syntax

type_synonym u8 = "8 word"
type_synonym u16 = "16 word"
type_synonym u32 = "32 word"
type_synonym u64 = "64 word"

abbreviation NULL :: u64 where "NULL \<equiv> 0"

named_theorems page_simps \<open>facts about page-aligned addresses\<close>
named_theorems loop_simps \<open>closed forms of counted loops\<close>
named_theorems frame_simps \<open>which parts of the state an operation leaves alone\<close>

section \<open>Page-aligned addresses\<close>

text \<open>
  \<open>page_base a\<close> is the C expression \<open>a & ~0xFFF\<close> and also \<open>a & ~(PAGE_SIZE - 1)\<close>:
  both complements are taken at type \<open>int\<close> and sign-extended to 64 bits.
\<close>

definition page_base :: "u64 \<Rightarrow> u64" where
  "page_base a = a AND NOT 0xFFF"

definition aligned :: "u64 \<Rightarrow> bool" where
  "aligned a \<longleftrightarrow> a AND 0xFFF = 0"

lemma mask12: "(0xFFF :: u64) = mask 12"
  by (simp add: mask_eq_exp_minus_1)

lemma bit_and_FFF: "bit (a AND (0xFFF :: u64)) n \<longleftrightarrow> n < 12 \<and> bit a n"
  unfolding mask12 by (auto simp: bit_simps)

lemma bit_page_base: "bit (page_base a) n \<longleftrightarrow> 12 \<le> n \<and> bit a n"
  unfolding page_base_def mask12 by (auto simp: bit_simps dest: bit_imp_le_length)

lemma aligned_iff_bits: "aligned a \<longleftrightarrow> (\<forall>n<12. \<not> bit a n)"
  unfolding aligned_def bit_eq_iff bit_and_FFF by auto

lemma lt_4096_bits:
  assumes "(x :: u64) < 4096" and "bit x n"
  shows "n < 12"
proof -
  have "x AND mask 12 = x" using less_mask_eq [of x 12] assms(1) by simp
  with assms(2) show ?thesis by (metis bit_and_FFF mask12)
qed

lemma aligned_page_base [simp, page_simps]: "aligned (page_base a)"
  by (simp only: aligned_iff_bits bit_page_base) simp

lemma aligned_0 [simp]: "aligned 0"
  by (simp add: aligned_def)

lemma page_base_aligned [page_simps]: "aligned a \<Longrightarrow> page_base a = a"
  by (rule bit_eqI) (use bit_page_base aligned_iff_bits in \<open>metis not_le\<close>)

lemma page_add_or:
  assumes "aligned t" and "x < 4096"
  shows "t + x = t OR x"
  by (rule disjunctive_add) (use assms lt_4096_bits aligned_iff_bits in blast)

lemma page_base_add [page_simps]:
  assumes t: "aligned t" and x: "x < 4096"
  shows "page_base (t + x) = t"
proof (rule bit_eqI)
  fix n
  show "bit (page_base (t + x)) n = bit t n"
    unfolding bit_page_base page_add_or [OF t x] bit_or_iff
    using t x lt_4096_bits [OF x] by (meson aligned_iff_bits not_le)
qed

lemma page_base_or [page_simps]: "aligned t \<Longrightarrow> x < 4096 \<Longrightarrow> page_base (t OR x) = t"
  by (metis page_add_or page_base_add)

lemma aligned_add [page_simps]:
  assumes "aligned a" and "aligned b"
  shows "aligned (a + b)"
proof -
  have "(a + b) AND mask 12 = ((a AND mask 12) + (b AND mask 12)) AND mask 12"
    by (simp only: mask_eqs)
  with assms show ?thesis by (simp add: aligned_def mask12)
qed

lemma aligned_unat: "aligned a \<longleftrightarrow> 4096 dvd unat a"
  using and_mask_dvd_nat [of 12 a] by (simp add: aligned_def mask12)

text \<open>The lowest bit of a page-table entry is \<open>PAGE_PRESENT\<close>.\<close>

lemma and_1_iff_bit: "a AND 1 \<noteq> (0 :: u64) \<longleftrightarrow> bit a 0"
  by (simp add: and_one_eq odd_iff_mod_2_eq_one bit_0)

section \<open>Counted loops\<close>

text \<open>
  \<open>for (int i = a; i < b; i++) body\<close> is \<open>fold body [a..<b]\<close>. Two nested loops over a
  row-major table run over the flat index. Loop ranges are not unrolled by the simplifier.
\<close>

declare upt_rec_numeral [simp del]

lemma fold_rows:
  assumes "\<And>y x s. x < w \<Longrightarrow> g (y * w + x) s = f y x s"
  shows "fold (\<lambda>y. fold (f y) [0..<w]) [0..<h] s = fold g [0..<h * w] s"
proof (induction h)
  case 0
  then show ?case by simp
next
  case (Suc h)
  have "fold (f h) [0..<w] t = fold g [h * w..<h * w + w] t" for t
  proof -
    have "[h * w..<h * w + w] = map (\<lambda>x. h * w + x) [0..<w]"
      by (simp add: map_add_upt add.commute)
    then have "fold g [h * w..<h * w + w] t = fold (g \<circ> (\<lambda>x. h * w + x)) [0..<w] t"
      by (simp add: fold_map)
    also have "\<dots> = fold (f h) [0..<w] t"
      using assms by (intro fold_cong) (auto simp: add.commute)
    finally show ?thesis by simp
  qed
  moreover have "[0..<Suc h * w] = [0..<h * w] @ [h * w..<h * w + w]"
    by (metis add.commute le_add2 le0 mult_Suc upt_add_eq_append)
  ultimately show ?case using Suc by simp
qed

lemma fold_fun_upd [loop_simps]:
  "fold (\<lambda>i m. m(f i := v)) xs m = (\<lambda>a. if a \<in> f ` set xs then v else m a)"
  by (induction xs arbitrary: m) auto

text \<open>Running a loop on one field of a record touches only that field.\<close>

lemma fold_commute_on:
  assumes "\<And>x s. x \<in> set xs \<Longrightarrow> h (f x s) = g x (h s)"
  shows "h (fold f xs s) = fold g xs (h s)"
  using assms by (induction xs arbitrary: s) auto

lemma fold_invariant_on:
  assumes "P s" and "\<And>x s. x \<in> set xs \<Longrightarrow> P s \<Longrightarrow> P (f x s)"
  shows "P (fold f xs s)"
  using assms by (induction xs arbitrary: s) auto

section \<open>Words and natural numbers\<close>

lemma unat_of_nat_small:
  "n < 2 ^ LENGTH('a) \<Longrightarrow> unat (of_nat n :: 'a::len word) = n"
  by (simp add: unat_of_nat take_bit_nat_eq_self)

lemma of_nat_u64_inj: "a < 2 ^ 64 \<Longrightarrow> b < 2 ^ 64 \<Longrightarrow> of_nat a = (of_nat b :: u64) \<longleftrightarrow> a = b"
  by (simp add: word_of_nat_eq_iff take_bit_nat_eq_self)

lemma unat_add_small:
  "unat a + unat b < 2 ^ LENGTH('a) \<Longrightarrow> unat (a + b :: 'a::len word) = unat a + unat b"
  by (simp add: unat_word_ariths)

lemma unat_mult_small:
  "unat a * unat b < 2 ^ LENGTH('a) \<Longrightarrow> unat (a * b :: 'a::len word) = unat a * unat b"
  by (simp add: unat_word_ariths)

text \<open>The two bytes of a 16-bit value, as drivers send them to 8-bit ports.\<close>

lemma FF_mask: "(0xFF :: 'a::len word) = mask 8"
  by (simp add: mask_eq_exp_minus_1)

lemma u16_low_byte: "unat (ucast (p AND 0xFF) :: u8) = unat (p :: u16) mod 256"
proof -
  have "unat (ucast (p AND 0xFF) :: u8) = take_bit 8 (take_bit 8 (unat p))"
    unfolding FF_mask take_bit_eq_mask [symmetric]
    by (simp add: unsigned_ucast_eq unsigned_take_bit_eq)
  then show ?thesis by (simp add: take_bit_eq_mod)
qed

lemma u16_high_byte: "unat (ucast (drop_bit 8 p AND 0xFF) :: u8) = unat (p :: u16) div 256"
proof -
  have "unat p < 2 ^ 16" using unsigned_less [of p, where 'a=nat] by simp
  moreover have "unat (ucast (drop_bit 8 p AND 0xFF) :: u8) = take_bit 8 (take_bit 8 (drop_bit 8 (unat p)))"
    unfolding FF_mask take_bit_eq_mask [symmetric]
    by (simp add: unsigned_ucast_eq unsigned_take_bit_eq unat_drop_bit_eq)
  ultimately show ?thesis by (simp add: take_bit_eq_mod drop_bit_eq_div)
qed

lemma ucast_u16_of_nat: "n < 2 ^ 64 \<Longrightarrow> ucast (of_nat n :: u64) = (of_nat n :: u16)"
  by (simp add: word_of_nat_eq_iff take_bit_nat_eq_self unsigned_of_nat)

section \<open>Rounding to a power of two\<close>

lemma unat_drop_bit: "unat (drop_bit n a) = unat a div 2 ^ n" for a :: "'a::len word"
  using unsigned_drop_bit_eq [of n a, where 'a = nat] by (simp add: take_bit_nat_eq_self drop_bit_eq_div)

lemma unat_eqD: "unat w = k \<Longrightarrow> w = of_nat k"
  by auto

lemma unat_and_not_mask: "unat (a AND NOT (mask n)) = unat a div 2 ^ n * 2 ^ n" for a :: "'a::len word"
proof -
  have "a AND NOT (mask n) = push_bit n (drop_bit n a)"
    by (rule bit_eqI) (auto simp: bit_simps)
  moreover have "unat a div 2 ^ n * 2 ^ n < 2 ^ LENGTH('a)"
    using div_mult_mod_eq [of "unat a" "2 ^ n"] unsigned_less [of a, where 'a = nat] by linarith
  moreover have "unat (push_bit n (drop_bit n a)) = take_bit LENGTH('a) (unat a div 2 ^ n * 2 ^ n)"
    using unsigned_push_bit_eq [of n "drop_bit n a", where 'a = nat] by (simp only: push_bit_eq_mult unat_drop_bit)
  ultimately show ?thesis by (simp only: take_bit_nat_eq_self)
qed

lemma unat_page_base: "unat (page_base a) = unat a div 4096 * 4096"
  using unat_and_not_mask [of a 12] by (simp only: page_base_def mask12) simp

lemma unat_round4:
  fixes a :: "'a::len word"
  assumes "unat a + 3 < 2 ^ LENGTH('a)" "2 < LENGTH('a)"
  shows "unat ((a + 3) AND NOT 3) = (unat a + 3) div 4 * 4"
proof -
  have m: "(3 :: 'a word) = mask 2" by (simp add: mask_eq_exp_minus_1)
  have "(4 :: nat) \<le> 2 ^ LENGTH('a)" using assms(2) power_increasing [of 2 "LENGTH('a)" "2 :: nat"] by simp
  then have "unat (3 :: 'a word) = 3"
    using unat_of_nat [of 3, where 'a = 'a] by simp
  then have "unat (a + 3) = unat a + 3" using assms(1) by (simp add: unat_add_small)
  then show ?thesis using unat_and_not_mask [of "a + 3" 2] unfolding m by simp
qed

section \<open>Operations that keep an invariant and implement abstract ones\<close>

text \<open>
  A component with an invariant, whose operations are labelled by events: every event
  keeps the invariant, so every sequence of events does.
\<close>

locale invariant_steps =
  fixes inv :: "'s \<Rightarrow> bool" and step :: "'e \<Rightarrow> 's \<Rightarrow> 's"
  assumes step_inv: "inv s \<Longrightarrow> inv (step e s)"
begin

lemma run_inv: "inv s \<Longrightarrow> inv (fold step es s)"
  by (induction es arbitrary: s) (auto intro: step_inv)

end

text \<open>
  A functional refinement: on states that satisfy the invariant, each concrete step is
  the abstract step seen through the abstraction function. It lifts to sequences.
\<close>

locale simulation = invariant_steps inv step
  for inv :: "'s \<Rightarrow> bool" and step :: "'e \<Rightarrow> 's \<Rightarrow> 's" +
  fixes abs :: "'s \<Rightarrow> 'a" and astep :: "'e \<Rightarrow> 'a \<Rightarrow> 'a"
  assumes step_abs: "inv s \<Longrightarrow> abs (step e s) = astep e (abs s)"
begin

lemma run_abs: "inv s \<Longrightarrow> abs (fold step es s) = fold astep es (abs s)"
  by (induction es arbitrary: s) (auto simp: step_abs step_inv)

end

text \<open>
  Progress: as long as the goal is not reached, every step is defined, keeps the invariant and
  brings the state closer, so some prefix of any sufficiently long sequence of events reaches it.
\<close>

fun run_steps :: "('e \<Rightarrow> 's \<Rightarrow> 's option) \<Rightarrow> 'e list \<Rightarrow> 's \<Rightarrow> 's option" where
  "run_steps step [] s = Some s"
| "run_steps step (e # es) s = (case step e s of None \<Rightarrow> None | Some s' \<Rightarrow> run_steps step es s')"

locale progress =
  fixes step :: "'e \<Rightarrow> 's \<Rightarrow> 's option" and inv :: "'s \<Rightarrow> bool" and goal :: "'s \<Rightarrow> bool" and rank :: "'s \<Rightarrow> nat"
  assumes step_progress: "inv s \<Longrightarrow> \<not> goal s \<Longrightarrow> \<exists>s'. step e s = Some s' \<and> inv s' \<and> rank s' < rank s"
begin

lemma reaches:
  assumes "inv s" "rank s \<le> length es"
  shows "\<exists>k s'. k \<le> length es \<and> run_steps step (take k es) s = Some s' \<and> inv s' \<and> goal s'"
  using assms
proof (induction es arbitrary: s)
  case Nil
  then show ?case using step_progress [of s undefined] by fastforce
next
  case (Cons e es)
  show ?case
  proof (cases "goal s")
    case True
    then show ?thesis using Cons.prems(1) by (intro exI [of _ 0]) simp
  next
    case False
    then obtain s1 where s1: "step e s = Some s1" "inv s1" "rank s1 < rank s"
      using step_progress [OF Cons.prems(1)] by blast
    then obtain k s' where "k \<le> length es" "run_steps step (take k es) s1 = Some s'" "inv s'" "goal s'"
      using Cons.IH [OF s1(2)] Cons.prems(2) by auto
    then show ?thesis using s1(1) by (intro exI [of _ "Suc k"] exI [of _ s']) simp
  qed
qed

end

end
