(* ===== verification/Port_IO.thy ===== *)
theory Port_IO
  imports Kaviz_Prelude
begin

text \<open>
  Port and memory-mapped I/O (\<open>kernel/drivers/port_io.h\<close>, and the volatile accesses of
  \<open>kernel/apic.c\<close>). The devices are not part of the kernel, so they are a parameter
  carried in the state: what a device answers is an arbitrary function of the whole
  history of I/O operations and of the address that is read. Every operation, reads
  included, extends the history.
\<close>

datatype io_op =
    OutB u16 u8
  | OutW u16 u16
  | InB u16
  | InW u16
  | MmioWrite u64 u32
  | MmioRead u64

record machine =
  io_log :: "io_op list"
  port_env :: "io_op list \<Rightarrow> u16 \<Rightarrow> u16"
  mmio_env :: "io_op list \<Rightarrow> u64 \<Rightarrow> u32"

definition outb :: "u16 \<Rightarrow> u8 \<Rightarrow> 'a machine_scheme \<Rightarrow> 'a machine_scheme" where
  "outb port value m = m\<lparr>io_log := OutB port value # io_log m\<rparr>"

definition inb :: "u16 \<Rightarrow> 'a machine_scheme \<Rightarrow> u8 \<times> 'a machine_scheme" where
  "inb port m =
     (ucast (port_env m (io_log m) port), m\<lparr>io_log := InB port # io_log m\<rparr>)"

definition outw :: "u16 \<Rightarrow> u16 \<Rightarrow> 'a machine_scheme \<Rightarrow> 'a machine_scheme" where
  "outw port value m = m\<lparr>io_log := OutW port value # io_log m\<rparr>"

definition inw :: "u16 \<Rightarrow> 'a machine_scheme \<Rightarrow> u16 \<times> 'a machine_scheme" where
  "inw port m = (port_env m (io_log m) port, m\<lparr>io_log := InW port # io_log m\<rparr>)"

text \<open>A volatile 32-bit store to and load from a device register in memory.\<close>

definition mmio_write :: "u64 \<Rightarrow> u32 \<Rightarrow> 'a machine_scheme \<Rightarrow> 'a machine_scheme" where
  "mmio_write a v m = m\<lparr>io_log := MmioWrite a v # io_log m\<rparr>"

definition mmio_read :: "u64 \<Rightarrow> 'a machine_scheme \<Rightarrow> u32 \<times> 'a machine_scheme" where
  "mmio_read a m = (mmio_env m (io_log m) a, m\<lparr>io_log := MmioRead a # io_log m\<rparr>)"

lemmas io_defs = outb_def inb_def outw_def inw_def mmio_write_def mmio_read_def

end
