(* ===== verification/Console.thy ===== *)
theory Console
  imports Port_IO
begin

text \<open>
  The VGA text console (\<open>kernel/drivers/vga.h\<close>, \<open>kernel/drivers/console.h\<close>,
  \<open>kernel/drivers/console.c\<close>): its state, every operation of the driver, and an
  abstract terminal of 25 rows of 80 cells that the driver implements.

  Text is a list of characters. A C string is the characters before its terminating
  zero byte; the end of a list stands for that byte.
\<close>

section \<open>The driver\<close>

abbreviation VGA_WIDTH :: nat where "VGA_WIDTH \<equiv> 80"
abbreviation VGA_HEIGHT :: nat where "VGA_HEIGHT \<equiv> 25"

definition VGA_MEMORY :: u64 where
  "VGA_MEMORY = 0xB8000"

datatype vga_color =
    VGA_COLOR_BLACK | VGA_COLOR_BLUE | VGA_COLOR_GREEN | VGA_COLOR_CYAN
  | VGA_COLOR_RED | VGA_COLOR_MAGENTA | VGA_COLOR_BROWN | VGA_COLOR_LIGHT_GREY
  | VGA_COLOR_DARK_GREY | VGA_COLOR_LIGHT_BLUE | VGA_COLOR_LIGHT_GREEN | VGA_COLOR_LIGHT_CYAN
  | VGA_COLOR_LIGHT_RED | VGA_COLOR_LIGHT_MAGENTA | VGA_COLOR_LIGHT_BROWN | VGA_COLOR_WHITE

fun vga_color_value :: "vga_color \<Rightarrow> u8" where
  "vga_color_value VGA_COLOR_BLACK = 0"
| "vga_color_value VGA_COLOR_BLUE = 1"
| "vga_color_value VGA_COLOR_GREEN = 2"
| "vga_color_value VGA_COLOR_CYAN = 3"
| "vga_color_value VGA_COLOR_RED = 4"
| "vga_color_value VGA_COLOR_MAGENTA = 5"
| "vga_color_value VGA_COLOR_BROWN = 6"
| "vga_color_value VGA_COLOR_LIGHT_GREY = 7"
| "vga_color_value VGA_COLOR_DARK_GREY = 8"
| "vga_color_value VGA_COLOR_LIGHT_BLUE = 9"
| "vga_color_value VGA_COLOR_LIGHT_GREEN = 10"
| "vga_color_value VGA_COLOR_LIGHT_CYAN = 11"
| "vga_color_value VGA_COLOR_LIGHT_RED = 12"
| "vga_color_value VGA_COLOR_LIGHT_MAGENTA = 13"
| "vga_color_value VGA_COLOR_LIGHT_BROWN = 14"
| "vga_color_value VGA_COLOR_WHITE = 15"

definition vga_entry_color :: "vga_color \<Rightarrow> vga_color \<Rightarrow> u8" where
  "vga_entry_color fg bg = vga_color_value fg OR push_bit 4 (vga_color_value bg)"

definition vga_entry :: "char \<Rightarrow> u8 \<Rightarrow> u16" where
  "vga_entry uc color = of_char uc OR push_bit 8 (ucast color)"

text \<open>
  \<open>struct console\<close>, together with the memory the pointer \<open>buffer\<close> points into:
  \<open>vga_mem\<close> holds the 16-bit cell at a byte address.
\<close>

record console = machine +
  con_row :: u64
  con_column :: u64
  con_color :: u8
  con_buffer :: u64
  vga_mem :: "u64 \<Rightarrow> u16"

text \<open>\<open>con.buffer[index] = v\<close> and \<open>con.buffer[index]\<close>.\<close>

definition con_store :: "u64 \<Rightarrow> u16 \<Rightarrow> 'a console_scheme \<Rightarrow> 'a console_scheme" where
  "con_store index v s = s\<lparr>vga_mem := (vga_mem s)(con_buffer s + 2 * index := v)\<rparr>"

definition con_load :: "u64 \<Rightarrow> 'a console_scheme \<Rightarrow> u16" where
  "con_load index s = vga_mem s (con_buffer s + 2 * index)"

definition console_update_cursor :: "'a console_scheme \<Rightarrow> 'a console_scheme" where
  "console_update_cursor s =
     (let pos = ucast (con_row s * of_nat VGA_WIDTH + con_column s) :: u16
      in outb 0x3D5 (ucast (drop_bit 8 pos AND 0xFF))
          (outb 0x3D4 0x0E
            (outb 0x3D5 (ucast (pos AND 0xFF))
              (outb 0x3D4 0x0F s))))"

definition console_clear :: "'a console_scheme \<Rightarrow> 'a console_scheme" where
  "console_clear s =
     (let s1 = fold (\<lambda>y. fold (\<lambda>x s.
                 con_store (of_nat (y * VGA_WIDTH + x)) (vga_entry (CHR '' '') (con_color s)) s)
                 [0..<VGA_WIDTH]) [0..<VGA_HEIGHT] s
      in console_update_cursor (s1\<lparr>con_row := 0, con_column := 0\<rparr>))"

definition console_initialize :: "'a console_scheme \<Rightarrow> 'a console_scheme" where
  "console_initialize s =
     console_clear (s\<lparr>con_row := 0, con_column := 0,
       con_color := vga_entry_color VGA_COLOR_LIGHT_GREY VGA_COLOR_BLACK,
       con_buffer := VGA_MEMORY\<rparr>)"

definition console_scroll :: "'a console_scheme \<Rightarrow> 'a console_scheme" where
  "console_scroll s =
     (let s1 = fold (\<lambda>y. fold (\<lambda>x s.
                 con_store (of_nat ((y - 1) * VGA_WIDTH + x))
                   (con_load (of_nat (y * VGA_WIDTH + x)) s) s)
                 [0..<VGA_WIDTH]) [1..<VGA_HEIGHT] s;
          s2 = fold (\<lambda>x s.
                 con_store (of_nat ((VGA_HEIGHT - 1) * VGA_WIDTH + x))
                   (vga_entry (CHR '' '') (con_color s)) s) [0..<VGA_WIDTH] s1
      in s2\<lparr>con_row := of_nat (VGA_HEIGHT - 1)\<rparr>)"

text \<open>
  The driver calls itself once, to overwrite the character that a backspace erases with a
  space. The steps after the case distinction (line wrap, scrolling, hardware cursor) run
  for the inner call and for the outer one.
\<close>

definition console_wrap :: "'a console_scheme \<Rightarrow> 'a console_scheme" where
  "console_wrap s =
     (let s1 = (if con_column s \<ge> of_nat VGA_WIDTH
                then s\<lparr>con_column := 0, con_row := con_row s + 1\<rparr> else s);
          s2 = (if con_row s1 \<ge> of_nat VGA_HEIGHT then console_scroll s1 else s1)
      in console_update_cursor s2)"

function console_putchar :: "char \<Rightarrow> 'a console_scheme \<Rightarrow> 'a console_scheme" where
  "console_putchar c s =
     console_wrap
       (if c = CHR 0x0A then s\<lparr>con_column := 0, con_row := con_row s + 1\<rparr>
        else if c = CHR 0x0D then s\<lparr>con_column := 0\<rparr>
        else if c = CHR 0x08 then
          (if con_column s > 0 then
             (let s1 = console_putchar (CHR '' '') (s\<lparr>con_column := con_column s - 1\<rparr>)
              in s1\<lparr>con_column := con_column s1 - 1\<rparr>)
           else s)
        else
          (let s1 = con_store (con_row s * of_nat VGA_WIDTH + con_column s)
                      (vga_entry c (con_color s)) s
           in s1\<lparr>con_column := con_column s1 + 1\<rparr>))"
  by pat_completeness auto
termination
  by (relation "measure (\<lambda>(c, s). if c = CHR 0x08 then 1 else 0)") auto

declare console_putchar.simps [simp del]

fun console_write :: "string \<Rightarrow> 'a console_scheme \<Rightarrow> 'a console_scheme" where
  "console_write [] s = s"
| "console_write (c # cs) s =
     (if c = CHR 0x00 then s else console_write cs (console_putchar c s))"

text \<open>Sliding a block of cells down by a fixed distance, in increasing order.\<close>

lemma fold_copy_frame:
  assumes "a \<notin> addr ` {..<n}"
  shows "fold (\<lambda>k m. m(addr k := m (addr (k + d)))) [0..<n] m a = m a"
  using assms by (induction n) (auto simp: lessThan_Suc)

lemma fold_copy_Suc:
  "fold (\<lambda>k m. m(addr k := m (addr (k + d)))) [0..<Suc n] m =
   (let m' = fold (\<lambda>k m. m(addr k := m (addr (k + d)))) [0..<n] m in m'(addr n := m' (addr (n + d))))"
  by (simp add: Let_def del: fun_upd_apply)

lemma fold_copy_cell:
  assumes inj: "inj_on addr {..<N}" and "n + d \<le> N" and "j < N" and "0 < d"
  shows "fold (\<lambda>k m. m(addr k := m (addr (k + d)))) [0..<n] m (addr j) =
     m (addr (if j < n then j + d else j))"
  using assms(2,3)
proof (induction n arbitrary: j)
  case 0
  then show ?case by simp
next
  case (Suc n)
  define m' where "m' = fold (\<lambda>k m. m(addr k := m (addr (k + d)))) [0..<n] m"
  have IH: "m' (addr j) = m (addr (if j < n then j + d else j))" if "j < N" for j
    unfolding m'_def by (rule Suc.IH) (use Suc.prems that in auto)
  have "addr j = addr n \<longleftrightarrow> j = n"
    using inj_onD [OF inj, of j n] Suc.prems assms(4) by auto
  then show ?case
    unfolding fold_copy_Suc m'_def [symmetric] Let_def
    using IH [of j] IH [of "n + d"] Suc.prems assms(4) by (cases "j = n") auto
qed

section \<open>Cells of the text page\<close>

definition cell_addr :: "'a console_scheme \<Rightarrow> nat \<Rightarrow> u64" where
  "cell_addr s k = con_buffer s + 2 * of_nat k"

definition cell :: "'a console_scheme \<Rightarrow> nat \<Rightarrow> u16" where
  "cell s k = vga_mem s (cell_addr s k)"

lemma cell_addr_eq:
  assumes "i < 2 ^ 63" "j < 2 ^ 63"
  shows "cell_addr s i = cell_addr s j \<longleftrightarrow> i = j"
proof -
  have "cell_addr s i = cell_addr s j \<longleftrightarrow> (of_nat (2 * i) :: u64) = of_nat (2 * j)"
    by (simp add: cell_addr_def)
  also have "\<dots> \<longleftrightarrow> i = j" using assms by (subst of_nat_u64_inj) auto
  finally show ?thesis .
qed

lemma cell_addr_inj_on: "inj_on (cell_addr s) {..<2000}"
  by (auto simp: inj_on_def cell_addr_eq)

lemma cell_addr_image: "i < 2000 \<Longrightarrow> n \<le> 2000 \<Longrightarrow> cell_addr s i \<in> cell_addr s ` {a..<n} \<longleftrightarrow> i \<in> {a..<n}"
  by (auto simp: cell_addr_eq)

lemma cell_addr_upd [simp]:
  "cell_addr (s\<lparr>vga_mem := m\<rparr>) k = cell_addr s k" "cell_addr (s\<lparr>con_row := r\<rparr>) k = cell_addr s k"
  "cell_addr (s\<lparr>con_column := c\<rparr>) k = cell_addr s k" "cell_addr (s\<lparr>io_log := l\<rparr>) k = cell_addr s k"
  by (simp_all add: cell_addr_def)

lemma cell_upd [simp]:
  "cell (s\<lparr>vga_mem := m\<rparr>) k = m (cell_addr s k)" "cell (s\<lparr>con_row := r\<rparr>) k = cell s k"
  "cell (s\<lparr>con_column := c\<rparr>) k = cell s k" "cell (s\<lparr>io_log := l\<rparr>) k = cell s k"
  by (simp_all add: cell_def)

lemma fold_con_store:
  "fold (\<lambda>k s. con_store (of_nat (f k)) (g (con_color s)) s) xs s =
   s\<lparr>vga_mem := fold (\<lambda>k m. m(cell_addr s (f k) := g (con_color s))) xs (vga_mem s)\<rparr>"
  by (induction xs arbitrary: s) (auto simp: con_store_def cell_addr_def)

lemma fold_con_copy:
  "fold (\<lambda>k s. con_store (of_nat (f k)) (con_load (of_nat (h k)) s) s) xs s =
   s\<lparr>vga_mem := fold (\<lambda>k m. m(cell_addr s (f k) := m (cell_addr s (h k)))) xs (vga_mem s)\<rparr>"
  by (induction xs arbitrary: s) (auto simp: con_store_def con_load_def cell_addr_def)

abbreviation blank :: "'a console_scheme \<Rightarrow> u16" where
  "blank s \<equiv> vga_entry (CHR '' '') (con_color s)"

text \<open>Closed forms of the two screen loops.\<close>

definition cleared :: "'a console_scheme \<Rightarrow> u64 \<Rightarrow> u16" where
  "cleared s = (\<lambda>a. if a \<in> cell_addr s ` {..<2000} then blank s else vga_mem s a)"

lemma console_clear_loop:
  "fold (\<lambda>y. fold (\<lambda>x s. con_store (of_nat (y * VGA_WIDTH + x)) (vga_entry (CHR '' '') (con_color s)) s)
       [0..<VGA_WIDTH]) [0..<VGA_HEIGHT] s = s\<lparr>vga_mem := cleared s\<rparr>"
proof -
  have "fold (\<lambda>y. fold (\<lambda>x s. con_store (of_nat (y * VGA_WIDTH + x)) (vga_entry (CHR '' '') (con_color s)) s)
       [0..<VGA_WIDTH]) [0..<VGA_HEIGHT] s =
     fold (\<lambda>k s. con_store (of_nat (id k)) (vga_entry (CHR '' '') (con_color s)) s)
       [0..<VGA_HEIGHT * VGA_WIDTH] s"
    by (rule fold_rows) simp
  also have "\<dots> = s\<lparr>vga_mem := cleared s\<rparr>"
    unfolding fold_con_store by (simp add: loop_simps cleared_def atLeast0LessThan)
  finally show ?thesis .
qed

definition scrolled :: "'a console_scheme \<Rightarrow> u64 \<Rightarrow> u16" where
  "scrolled s = (\<lambda>a. if a \<in> cell_addr s ` {1920..<2000} then blank s
     else fold (\<lambda>k m. m(cell_addr s k := m (cell_addr s (k + 80)))) [0..<1920] (vga_mem s) a)"

lemma console_scroll_eq:
  "console_scroll s = s\<lparr>vga_mem := scrolled s, con_row := 24\<rparr>"
proof -
  let ?body = "\<lambda>y x s. con_store (of_nat ((y - 1) * VGA_WIDTH + x)) (con_load (of_nat (y * VGA_WIDTH + x)) s) s"
  have "fold (\<lambda>y. fold (?body y) [0..<VGA_WIDTH]) [1..<VGA_HEIGHT] s =
        fold (\<lambda>y. fold (?body (Suc y)) [0..<VGA_WIDTH]) [0..<24] s"
  proof -
    have "[1..<VGA_HEIGHT] = map Suc [0..<24]" by (simp add: map_Suc_upt)
    then show ?thesis by (simp only: fold_map) (simp add: comp_def)
  qed
  also have "\<dots> = fold (\<lambda>k s. con_store (of_nat (id k)) (con_load (of_nat (k + 80)) s) s) [0..<24 * VGA_WIDTH] s"
    by (rule fold_rows) (simp add: ac_simps)
  also have "\<dots> = s\<lparr>vga_mem := fold (\<lambda>k m. m(cell_addr s k := m (cell_addr s (k + 80)))) [0..<1920] (vga_mem s)\<rparr>"
    unfolding fold_con_copy by simp
  finally have 1: "fold (\<lambda>y. fold (?body y) [0..<VGA_WIDTH]) [1..<VGA_HEIGHT] s = \<dots>" .
  have img: "(\<lambda>x. cell_addr s ((VGA_HEIGHT - 1) * VGA_WIDTH + x)) ` set [0..<VGA_WIDTH] = cell_addr s ` {1920..<2000}"
  proof -
    have eq: "{1920..<2000} = (\<lambda>x. 1920 + x) ` {0..<80::nat}"
      using image_add_atLeastLessThan [of 1920 0 "80::nat"] by simp
    show ?thesis unfolding eq image_image by simp
  qed
  show ?thesis
    unfolding console_scroll_def Let_def 1 fold_con_store loop_simps
    using img by (simp add: scrolled_def cong: if_cong)
qed

lemma cell_scrolled:
  assumes "k < 2000"
  shows "scrolled s (cell_addr s k) = (if k < 1920 then cell s (k + 80) else blank s)"
proof -
  note copy = fold_copy_cell [OF cell_addr_inj_on, of 1920 80 k s "vga_mem s"]
  show ?thesis
  proof (cases "k < 1920")
    case True
    then have "cell_addr s k \<notin> cell_addr s ` {1920..<2000}" using cell_addr_image [of k 2000 s 1920] by simp
    then show ?thesis using True copy assms by (simp only: scrolled_def cell_def) simp
  next
    case False
    then have "cell_addr s k \<in> cell_addr s ` {1920..<2000}" using assms by simp
    then show ?thesis using False by (simp only: scrolled_def) simp
  qed
qed

lemma scrolled_frame: "a \<notin> cell_addr s ` {..<2000} \<Longrightarrow> scrolled s a = vga_mem s a"
  by (auto simp: scrolled_def intro!: fold_copy_frame)

section \<open>The console invariant\<close>

definition con_ok :: "'a console_scheme \<Rightarrow> bool" where
  "con_ok s \<longleftrightarrow> con_row s < 25 \<and> con_column s < 80 \<and> con_buffer s = VGA_MEMORY"

definition cursor :: "'a console_scheme \<Rightarrow> nat" where
  "cursor s = unat (con_row s) * 80 + unat (con_column s)"

lemma con_ok_unat: "con_ok s \<Longrightarrow> unat (con_row s) < 25 \<and> unat (con_column s) < 80"
  by (simp add: con_ok_def word_less_nat_alt)

lemma cursor_index:
  assumes "unat (con_row s) < 25" "unat (con_column s) \<le> 80"
  shows "con_row s * 80 + con_column s = of_nat (cursor s)"
  by (simp add: cursor_def)

lemma con_ok_left:
  assumes "con_ok s" "con_column s \<noteq> 0"
  shows "con_ok (s\<lparr>con_column := con_column s - 1\<rparr>)"
    and "unat (con_column s - 1) = unat (con_column s) - 1"
proof -
  show d: "unat (con_column s - 1) = unat (con_column s) - 1"
    using assms(2) by (simp add: unat_minus_one)
  show "con_ok (s\<lparr>con_column := con_column s - 1\<rparr>)"
    using assms(1) d by (auto simp: con_ok_def word_less_nat_alt)
qed

lemma update_cursor_simps [simp]:
  "con_row (console_update_cursor s) = con_row s"
  "con_column (console_update_cursor s) = con_column s"
  "con_color (console_update_cursor s) = con_color s"
  "con_buffer (console_update_cursor s) = con_buffer s"
  "vga_mem (console_update_cursor s) = vga_mem s"
  "cell (console_update_cursor s) k = cell s k"
  by (simp_all add: console_update_cursor_def outb_def Let_def)

lemma cell_store:
  assumes "i < 2000" "k < 2000"
  shows "cell (con_store (of_nat i) v s) k = (if k = i then v else cell s k)"
  using assms cell_addr_eq [of k i s] by (auto simp: con_store_def cell_def cell_addr_def)

lemma con_store_simps [simp]:
  "con_row (con_store i v s) = con_row s" "con_column (con_store i v s) = con_column s"
  "con_color (con_store i v s) = con_color s" "con_buffer (con_store i v s) = con_buffer s"
  by (simp_all add: con_store_def)

lemma scroll_simps [simp]:
  "con_row (console_scroll s) = 24" "con_column (console_scroll s) = con_column s"
  "con_color (console_scroll s) = con_color s" "con_buffer (console_scroll s) = con_buffer s"
  by (simp_all add: console_scroll_eq)

lemma cell_scroll:
  "k < 2000 \<Longrightarrow> cell (console_scroll s) k = (if k < 1920 then cell s (k + 80) else blank s)"
  by (simp add: console_scroll_eq cell_scrolled)

section \<open>The abstract terminal\<close>

record terminal =
  rows :: "u16 list list"
  t_row :: nat
  t_col :: nat
  t_color :: u8

definition blank_line :: "u8 \<Rightarrow> u16 list" where
  "blank_line color = replicate 80 (vga_entry (CHR '' '') color)"

definition term_feed :: "terminal \<Rightarrow> terminal" where
  "term_feed t = (if t_row t < 24 then t\<lparr>t_row := Suc (t_row t)\<rparr>
     else t\<lparr>rows := tl (rows t) @ [blank_line (t_color t)], t_row := 24\<rparr>)"

definition term_set :: "nat \<Rightarrow> nat \<Rightarrow> char \<Rightarrow> terminal \<Rightarrow> terminal" where
  "term_set y x c t = t\<lparr>rows := (rows t)[y := (rows t ! y)[x := vga_entry c (t_color t)]]\<rparr>"

definition term_put :: "char \<Rightarrow> terminal \<Rightarrow> terminal" where
  "term_put c t =
     (if c = CHR 0x0A then term_feed (t\<lparr>t_col := 0\<rparr>)
      else if c = CHR 0x0D then t\<lparr>t_col := 0\<rparr>
      else if c = CHR 0x08 then
        (if t_col t = 0 then t
         else (term_set (t_row t) (t_col t - 1) (CHR '' '') t)\<lparr>t_col := t_col t - 1\<rparr>)
      else
        (let t' = term_set (t_row t) (t_col t) c t
         in if t_col t < 79 then t'\<lparr>t_col := Suc (t_col t)\<rparr>
            else term_feed (t'\<lparr>t_col := 0\<rparr>)))"

definition screen :: "'a console_scheme \<Rightarrow> u16 list list" where
  "screen s = map (\<lambda>y. map (\<lambda>x. cell s (y * 80 + x)) [0..<80]) [0..<25]"

definition term_abs :: "'a console_scheme \<Rightarrow> terminal" where
  "term_abs s = \<lparr>rows = screen s, t_row = unat (con_row s), t_col = unat (con_column s),
     t_color = con_color s\<rparr>"

lemma screen_nth: "y < 25 \<Longrightarrow> x < 80 \<Longrightarrow> screen s ! y ! x = cell s (y * 80 + x)"
  by (simp add: screen_def)

lemma screen_eqI:
  assumes "length ls = 25" and "\<And>y. y < 25 \<Longrightarrow> length (ls ! y) = 80"
    and "\<And>y x. y < 25 \<Longrightarrow> x < 80 \<Longrightarrow> cell s (y * 80 + x) = ls ! y ! x"
  shows "screen s = ls"
  using assms by (intro nth_equalityI) (auto simp: screen_def intro!: nth_equalityI)

lemma screen_size [simp]: "length (screen s) = 25" "y < 25 \<Longrightarrow> length (screen s ! y) = 80"
  by (simp_all add: screen_def)

lemma screen_cong: "(\<And>k. k < 2000 \<Longrightarrow> cell s k = cell s' k) \<Longrightarrow> screen s = screen s'"
  by (auto simp: screen_def)

lemma flat_eq: "(x::nat) < 80 \<Longrightarrow> x' < 80 \<Longrightarrow> y * 80 + x = y' * 80 + x' \<longleftrightarrow> y = y' \<and> x = x'"
  by (metis div_mult_self3 div_less add.right_neutral add_left_cancel zero_neq_numeral mult.commute)

lemma screen_store:
  assumes "y < 25" "x < 80"
  shows "screen (con_store (of_nat (y * 80 + x)) v s) = (screen s)[y := (screen s ! y)[x := v]]"
  using assms
  by (intro screen_eqI) (auto simp: cell_store flat_eq nth_list_update screen_nth
      simp del: of_nat_add of_nat_mult of_nat_simps)

lemma screen_scroll: "screen (console_scroll s) = tl (screen s) @ [blank_line (con_color s)]"
proof (rule screen_eqI)
  fix y x :: nat
  assume yx: "y < 25" "x < 80"
  have "cell (console_scroll s) (y * 80 + x) = (if y < 24 then cell s (Suc y * 80 + x) else blank s)"
    using yx by (subst cell_scroll) (auto simp: ac_simps)
  also have "\<dots> = (tl (screen s) @ [blank_line (con_color s)]) ! y ! x"
    using yx by (auto simp: nth_append nth_tl screen_nth blank_line_def)
  finally show "cell (console_scroll s) (y * 80 + x) = \<dots>" .
qed (auto simp: nth_append nth_tl blank_line_def)

lemma term_abs_store:
  assumes "unat (con_row s) = y" "y < 25" "unat (con_column s) = x" "x < 80"
  shows "term_abs (con_store (con_row s * 80 + con_column s) (vga_entry c (con_color s)) s) =
     term_set y x c (term_abs s)"
proof -
  have "con_row s * 80 + con_column s = of_nat (y * 80 + x)"
    using assms by auto
  then show ?thesis using screen_store [of y x "vga_entry c (con_color s)" s] assms
    by (simp add: term_abs_def term_set_def del: of_nat_add of_nat_mult of_nat_simps)
qed

lemma term_abs_upd [simp]:
  "term_abs (s\<lparr>con_column := c\<rparr>) = (term_abs s)\<lparr>t_col := unat c\<rparr>"
  "term_abs (s\<lparr>con_row := r\<rparr>) = (term_abs s)\<lparr>t_row := unat r\<rparr>"
  "term_abs (console_update_cursor s) = term_abs s"
  by (simp_all add: term_abs_def screen_def)

lemma screen_upd [simp]:
  "screen (s\<lparr>con_column := c\<rparr>) = screen s" "screen (s\<lparr>con_row := r\<rparr>) = screen s"
  "screen (console_update_cursor s) = screen s"
  by (simp_all add: screen_def)

lemma term_abs_sel [simp]:
  "rows (term_abs s) = screen s" "t_row (term_abs s) = unat (con_row s)"
  "t_col (term_abs s) = unat (con_column s)" "t_color (term_abs s) = con_color s"
  by (simp_all add: term_abs_def)

text \<open>Wrapping and scrolling after the cursor has moved.\<close>

lemma console_wrap_inside:
  assumes "unat (con_row s) < 25" "unat (con_column s) < 80"
  shows "console_wrap s = console_update_cursor s"
  using assms by (simp add: console_wrap_def word_le_nat_alt Let_def)

lemma term_abs_wrap_row:
  assumes "unat (con_row s) = Suc y" "y < 25" "unat (con_column s) < 80"
  shows "term_abs (console_wrap s) = term_feed ((term_abs s)\<lparr>t_row := y\<rparr>)"
proof (cases "y < 24")
  case True
  then show ?thesis using assms console_wrap_inside [of s]
    by (simp add: term_feed_def)
next
  case False
  then have "console_wrap s = console_update_cursor (console_scroll s)"
    using assms by (simp add: console_wrap_def Let_def word_le_nat_alt)
  then show ?thesis using False assms
    by (simp add: term_feed_def) (simp add: term_abs_def screen_scroll)
qed

lemma term_abs_wrap_column:
  assumes "unat (con_row s) < 25" "unat (con_column s) = 80"
  shows "term_abs (console_wrap s) = term_feed ((term_abs s)\<lparr>t_col := 0\<rparr>)"
proof -
  let ?s = "s\<lparr>con_column := 0, con_row := con_row s + 1\<rparr>"
  have "unat (con_row s + 1) = Suc (unat (con_row s))"
    using assms by (subst unat_add_small) auto
  then have "term_abs (console_wrap ?s) = term_feed ((term_abs ?s)\<lparr>t_row := unat (con_row s)\<rparr>)"
    using assms(1) by (intro term_abs_wrap_row) auto
  moreover have "console_wrap s = console_wrap ?s"
    using assms by (simp add: console_wrap_def Let_def word_le_nat_alt)
  ultimately show ?thesis by (simp add: term_abs_def)
qed

lemma unat_Suc_small: "unat (w :: u64) < 100 \<Longrightarrow> unat (w + 1) = Suc (unat w)"
  by (subst unat_add_small) auto

lemma putchar_printable:
  assumes ok: "con_ok s" and c: "c \<noteq> CHR 0x0A" "c \<noteq> CHR 0x0D" "c \<noteq> CHR 0x08"
  shows "term_abs (console_putchar c s) = term_put c (term_abs s)"
proof -
  let ?st = "con_store (con_row s * 80 + con_column s) (vga_entry c (con_color s)) s"
  let ?s1 = "?st\<lparr>con_column := con_column s + 1\<rparr>"
  have eq: "console_putchar c s = console_wrap ?s1"
    using c by (subst console_putchar.simps) (simp add: Let_def)
  note small = con_ok_unat [OF ok]
  have abs: "term_abs ?st = term_set (unat (con_row s)) (unat (con_column s)) c (term_abs s)"
    using small by (simp add: term_abs_store)
  have col: "unat (con_column ?s1) = Suc (unat (con_column s))"
    using small by (simp add: unat_Suc_small)
  show ?thesis
  proof (cases "unat (con_column s) < 79")
    case True
    then have "console_wrap ?s1 = console_update_cursor ?s1"
      using small col by (intro console_wrap_inside) auto
    then show ?thesis using True c abs col by (simp add: eq term_put_def Let_def)
  next
    case False
    then have "term_abs (console_wrap ?s1) = term_feed ((term_abs ?s1)\<lparr>t_col := 0\<rparr>)"
      using small col by (intro term_abs_wrap_column) auto
    then show ?thesis using False c abs by (simp add: eq term_put_def Let_def)
  qed
qed

lemma putchar_newline:
  assumes "con_ok s"
  shows "term_abs (console_putchar (CHR 0x0A) s) = term_put (CHR 0x0A) (term_abs s)"
proof -
  let ?s1 = "s\<lparr>con_column := 0, con_row := con_row s + 1\<rparr>"
  note small = con_ok_unat [OF assms]
  have "term_abs (console_wrap ?s1) = term_feed ((term_abs ?s1)\<lparr>t_row := unat (con_row s)\<rparr>)"
    using small by (intro term_abs_wrap_row) (auto simp: unat_Suc_small)
  moreover have "(term_abs ?s1)\<lparr>t_row := unat (con_row s)\<rparr> = (term_abs s)\<lparr>t_col := 0\<rparr>"
    by (simp add: term_abs_def)
  ultimately have "term_abs (console_wrap ?s1) = term_feed ((term_abs s)\<lparr>t_col := 0\<rparr>)"
    by (simp only:)
  then show ?thesis
    by (subst console_putchar.simps) (simp add: term_put_def)
qed

lemma putchar_return:
  assumes "con_ok s"
  shows "term_abs (console_putchar (CHR 0x0D) s) = term_put (CHR 0x0D) (term_abs s)"
  using con_ok_unat [OF assms]
  by (subst console_putchar.simps) (simp add: term_put_def console_wrap_inside)

lemma putchar_backspace:
  assumes ok: "con_ok s"
  shows "term_abs (console_putchar (CHR 0x08) s) = term_put (CHR 0x08) (term_abs s)"
proof (cases "con_column s = 0")
  case True
  then show ?thesis using con_ok_unat [OF ok]
    by (subst console_putchar.simps) (simp add: term_put_def console_wrap_inside)
next
  case False
  note small = con_ok_unat [OF ok]
  let ?s0 = "s\<lparr>con_column := con_column s - 1\<rparr>"
  let ?s1 = "console_putchar (CHR '' '') ?s0"
  let ?s2 = "?s1\<lparr>con_column := con_column ?s1 - 1\<rparr>"
  have pos: "0 < unat (con_column s)" using False by (simp add: unat_gt_0)
  note dec = con_ok_left(2) [OF ok False]
  from putchar_printable [OF con_ok_left(1) [OF ok False], of "CHR '' ''"]
  have abs: "term_abs ?s1 = (term_set (unat (con_row s)) (unat (con_column s) - 1) (CHR '' '') (term_abs ?s0))
      \<lparr>t_col := unat (con_column s)\<rparr>"
    using pos small dec less_diff_conv2 [of 1 "unat (con_column s)" 79]
    by (simp add: term_put_def Let_def)
  then have c1: "unat (con_column ?s1) = unat (con_column s)" "unat (con_row ?s1) = unat (con_row s)"
    by (auto simp: term_set_def dest: arg_cong [where f = t_col] arg_cong [where f = t_row])
  then have c2: "unat (con_column ?s2) = unat (con_column s) - 1"
    using dec by (simp add: word_unat_eq_iff [symmetric])
  have "console_putchar (CHR 0x08) s = console_wrap ?s2"
    using False by (subst console_putchar.simps) (simp add: Let_def word_gt_0)
  also have "\<dots> = console_update_cursor ?s2"
    using c1 c2 small by (intro console_wrap_inside) auto
  finally show ?thesis using abs c2 pos by (simp add: term_put_def term_set_def)
qed

lemma console_putchar_refines:
  assumes "con_ok s"
  shows "term_abs (console_putchar c s) = term_put c (term_abs s)"
  using putchar_newline [OF assms] putchar_return [OF assms] putchar_backspace [OF assms]
    putchar_printable [OF assms, of c]
  by (cases "c = CHR 0x0A"; cases "c = CHR 0x0D"; cases "c = CHR 0x08") simp_all

section \<open>Invariant, memory safety and the hardware cursor\<close>

definition term_ok :: "terminal \<Rightarrow> bool" where
  "term_ok t \<longleftrightarrow> t_row t < 25 \<and> t_col t < 80"

lemma term_put_ok: "term_ok t \<Longrightarrow> term_ok (term_put c t)"
  by (auto simp: term_ok_def term_put_def term_feed_def term_set_def Let_def)

lemma con_ok_term_ok: "con_ok s \<longleftrightarrow> term_ok (term_abs s) \<and> con_buffer s = VGA_MEMORY"
  by (simp add: con_ok_def term_ok_def word_less_nat_alt)

lemma console_wrap_frame [simp]:
  "con_buffer (console_wrap s) = con_buffer s" "con_color (console_wrap s) = con_color s"
  by (simp_all add: console_wrap_def Let_def)

lemma con_buffer_putchar [simp]: "con_buffer (console_putchar c s) = con_buffer s"
proof (induction c s rule: console_putchar.induct)
  case (1 c s)
  then show ?case by (subst console_putchar.simps) (simp add: Let_def)
qed

lemma con_ok_putchar: "con_ok s \<Longrightarrow> con_ok (console_putchar c s)"
  using console_putchar_refines [of s c] by (simp add: con_ok_term_ok term_put_ok)

text \<open>The bytes of the text page: 4000 bytes from \<open>0xB8000\<close>.\<close>

definition text_page :: "u64 set" where
  "text_page = {0xB8000 ..< 0xB8FA0}"

lemma cell_addr_text_page: "con_buffer s = VGA_MEMORY \<Longrightarrow> k < 2000 \<Longrightarrow> cell_addr s k \<in> text_page"
proof -
  assume b: "con_buffer s = VGA_MEMORY" and k: "k < 2000"
  have "unat (2 * of_nat k :: u64) = 2 * k" 
    using k unat_of_nat_small [where 'a = 64, of "2 * k"] by simp
  then have "unat (cell_addr s k) = 0xB8000 + 2 * k"
    using k b by (simp add: cell_addr_def VGA_MEMORY_def unat_add_small)
  then show ?thesis using k by (simp add: text_page_def word_le_nat_alt word_less_nat_alt)
qed

lemma wrap_mem:
  assumes "con_buffer s = VGA_MEMORY" "a \<notin> text_page"
  shows "vga_mem (console_wrap s) a = vga_mem s a"
proof -
  have "scrolled t a = vga_mem t a" if "con_buffer t = VGA_MEMORY" for t :: "'a console_scheme"
    using that assms(2) cell_addr_text_page [of t] by (intro scrolled_frame) auto
  then show ?thesis using assms(1) by (simp add: console_wrap_def Let_def console_scroll_eq)
qed

lemma con_store_mem:
  assumes "con_ok s" "a \<notin> text_page"
  shows "vga_mem (con_store (con_row s * 80 + con_column s) v s) a = vga_mem s a"
proof -
  have "con_buffer s + 2 * (con_row s * 80 + con_column s) = cell_addr s (cursor s)"
    by (simp add: cell_addr_def cursor_def)
  moreover have "cursor s < 2000"
    using con_ok_unat [OF assms(1)] by (simp add: cursor_def)
  ultimately show ?thesis
    using assms cell_addr_text_page [of s "cursor s"] by (auto simp: con_store_def con_ok_def)
qed

lemma putchar_mem:
  assumes "con_ok s" "a \<notin> text_page"
  shows "vga_mem (console_putchar c s) a = vga_mem s a"
  using assms
proof (induction c s rule: console_putchar.induct)
  case (1 c s)
  have b: "con_buffer s = VGA_MEMORY" using "1.prems"(1) by (simp add: con_ok_def)
  show ?case
  proof (cases "c = CHR 0x08 \<and> con_column s > 0")
    case True
    have "con_ok (s\<lparr>con_column := con_column s - 1\<rparr>)"
      using "1.prems"(1) True by (intro con_ok_left) auto
    then show ?thesis using True "1.IH" "1.prems"(2) b
      by (subst console_putchar.simps) (auto simp: Let_def wrap_mem)
  next
    case False
    then show ?thesis using "1.prems" b
      by (subst console_putchar.simps) (auto simp: Let_def wrap_mem con_store_mem)
  qed
qed

interpretation console_sim: simulation
  "con_ok :: 'a console_scheme \<Rightarrow> bool" console_putchar term_abs term_put
  by unfold_locales (simp_all add: con_ok_putchar console_putchar_refines)

lemma console_write_fold:
  "console_write cs s = fold console_putchar (takeWhile (\<lambda>c. c \<noteq> CHR 0x00) cs) s"
  by (induction cs arbitrary: s) auto

lemma console_write_ok: "con_ok s \<Longrightarrow> con_ok (console_write cs s)"
  by (simp add: console_write_fold console_sim.run_inv)

lemma console_write_mem:
  "con_ok s \<Longrightarrow> a \<notin> text_page \<Longrightarrow> vga_mem (console_write cs s) a = vga_mem s a"
  by (induction cs arbitrary: s) (auto simp: con_ok_putchar putchar_mem)

text \<open>The position the VGA controller was last told, read off the port history.\<close>

fun cursor_register :: "io_op list \<Rightarrow> nat option" where
  "cursor_register (OutB p3 hi # OutB p2 i2 # OutB p1 lo # OutB p0 i0 # _) =
     (if p0 = 0x3D4 \<and> i0 = 0x0F \<and> p1 = 0x3D5 \<and> p2 = 0x3D4 \<and> i2 = 0x0E \<and> p3 = 0x3D5
      then Some (unat hi * 256 + unat lo) else None)"
| "cursor_register _ = None"

lemma update_cursor_register:
  assumes "con_ok s"
  shows "cursor_register (io_log (console_update_cursor s)) = Some (cursor s)"
proof -
  have lt: "cursor s < 2000" using con_ok_unat [OF assms] by (simp add: cursor_def)
  have pos: "ucast (con_row s * 80 + con_column s) = (of_nat (cursor s) :: u16)"
    using lt ucast_u16_of_nat [of "cursor s"] by (simp add: cursor_def)
  have "unat (of_nat (cursor s) :: u16) = cursor s"
    using lt by (intro unat_of_nat_small) simp
  then show ?thesis
    using u16_low_byte [of "of_nat (cursor s)"] u16_high_byte [of "of_nat (cursor s)"]
    by (simp add: console_update_cursor_def outb_def Let_def pos)
qed

lemma console_wrap_register:
  assumes "con_ok (console_wrap s)"
  shows "cursor_register (io_log (console_wrap s)) = Some (cursor (console_wrap s))"
proof -
  obtain t where t: "console_wrap s = console_update_cursor t"
    by (simp add: console_wrap_def Let_def)
  with assms have "con_ok t" by (simp add: con_ok_def)
  from update_cursor_register [OF this] show ?thesis by (simp add: t cursor_def)
qed

lemma putchar_register:
  assumes "con_ok s"
  shows "cursor_register (io_log (console_putchar c s)) = Some (cursor (console_putchar c s))"
proof -
  obtain t where t: "console_putchar c s = console_wrap t"
    using console_putchar.simps [of c s] by blast
  with con_ok_putchar [OF assms, of c] show ?thesis by (simp add: console_wrap_register)
qed

lemma console_write_register:
  assumes "con_ok s" "cursor_register (io_log s) = Some (cursor s)"
  shows "cursor_register (io_log (console_write cs s)) = Some (cursor (console_write cs s))"
  using assms by (induction cs arbitrary: s) (auto simp: con_ok_putchar putchar_register)

section \<open>Start-up\<close>

lemma console_clear_eq:
  "console_clear s = console_update_cursor (s\<lparr>vga_mem := cleared s, con_row := 0, con_column := 0\<rparr>)"
  unfolding console_clear_def console_clear_loop by simp

lemma screen_cleared: "screen (console_clear s) = replicate 25 (blank_line (con_color s))"
  by (rule screen_eqI) (auto simp: console_clear_eq cleared_def blank_line_def)

lemma initialize_ok: "con_ok (console_initialize s)"
  by (simp add: console_initialize_def console_clear_eq con_ok_def)

section \<open>Properties\<close>

definition sample_console :: console where
  "sample_console = \<lparr>io_log = [], port_env = (\<lambda>_ _. 0), mmio_env = (\<lambda>_ _. 0),
     con_row = 24, con_column = 79, con_color = 7, con_buffer = VGA_MEMORY, vga_mem = (\<lambda>_. 0)\<rparr>"

lemma sample_console_ok: "con_ok sample_console"
  by (simp add: sample_console_def con_ok_def)

text \<open>
  C1. Writing a string implements the abstract terminal: the visible screen and the cursor
  after \<open>console_write\<close> are those of the terminal that processes the characters before the
  first zero byte one by one (printing, line wrap, newline, carriage return, backspace,
  scrolling with a fresh blank line), and the console invariant is kept.
\<close>

theorem console_write_refines_terminal:
  assumes "con_ok s"
  shows "con_ok (console_write cs s) \<and>
    term_abs (console_write cs s) =
      fold term_put (takeWhile (\<lambda>c. c \<noteq> CHR 0x00) cs) (term_abs s)"
  using assms by (simp add: console_write_fold console_sim.run_abs console_sim.run_inv)

theorem console_write_refines_terminal_witness:
  "con_ok (console_write ''A'' sample_console) \<and>
   term_abs (console_write ''A'' sample_console) = term_put (CHR ''A'') (term_abs sample_console)"
  using console_write_refines_terminal [OF sample_console_ok, of "''A''"] by simp

text \<open>
  C2. Memory safety of console output: whatever is printed, no cell outside the 4000 bytes of
  the VGA text page at \<open>0xB8000\<close> is written, and the cursor stays inside 25 rows and 80 columns.
\<close>

theorem console_write_stays_in_text_page:
  assumes "con_ok s" and "a < 0xB8000 \<or> 0xB8FA0 \<le> a"
  shows "vga_mem (console_write cs s) a = vga_mem s a \<and>
    con_row (console_write cs s) < 25 \<and> con_column (console_write cs s) < 80"
proof -
  have "a \<notin> text_page" using assms(2) by (auto simp: text_page_def not_le not_less)
  then show ?thesis
    using assms(1) console_write_ok [OF assms(1), of cs] by (simp add: console_write_mem con_ok_def)
qed

theorem console_write_stays_in_text_page_witness:
  "vga_mem (console_write ''wrap'' sample_console) 0xB8FA0 = vga_mem sample_console 0xB8FA0 \<and>
   con_row (console_write ''wrap'' sample_console) < 25 \<and>
   con_column (console_write ''wrap'' sample_console) < 80"
  by (rule console_write_stays_in_text_page [OF sample_console_ok]) simp

text \<open>
  After initialisation, from any prior state, the whole text page is blank in light grey on
  black, the cursor is at the top left, and the hardware cursor registers agree; they keep
  agreeing with the software cursor after any output.
\<close>

theorem console_initialize_then_write:
  "screen (console_initialize s) = replicate 25 (blank_line 7) \<and>
   cursor (console_initialize s) = 0 \<and>
   cursor_register (io_log (console_write cs (console_initialize s))) =
     Some (cursor (console_write cs (console_initialize s)))"
proof -
  let ?i = "console_initialize s"
  have "cursor_register (io_log ?i) = Some (cursor ?i)"
  proof -
    obtain t where t: "?i = console_update_cursor t"
      by (simp add: console_initialize_def console_clear_eq)
    have "con_ok t" using initialize_ok [of s] by (simp add: t con_ok_def)
    from update_cursor_register [OF this] show ?thesis by (simp add: t cursor_def)
  qed
  then have "cursor_register (io_log (console_write cs ?i)) = Some (cursor (console_write cs ?i))"
    using initialize_ok by (rule console_write_register [rotated])
  moreover have "con_color (s\<lparr>con_row := 0, con_column := 0,
       con_color := vga_entry_color VGA_COLOR_LIGHT_GREY VGA_COLOR_BLACK,
       con_buffer := VGA_MEMORY\<rparr>) = 7"
    by (simp add: vga_entry_color_def)
  ultimately show ?thesis
    by (simp add: console_initialize_def screen_cleared) (simp add: console_clear_eq cursor_def)
qed

end
