(* ===== verification/Kernel_State.thy ===== *)
theory Kernel_State
  imports Console
begin

text \<open>
  The part of the kernel state that every component shares: the console with the ports and
  memory-mapped registers behind it. The components extend this record one after the other,
  so an operation of an earlier component leaves the fields of the later ones alone by
  construction. \<open>dev_log\<close> is the device traffic without the writes to the VGA cursor registers,
  which is what the drivers' own properties speak about.
\<close>

record kio =
  io :: console

text \<open>
  How a call that may not come back ends: it returns to its caller, it leaves for another
  context (its caller continues only if the saved context is resumed; whether the processor gets through the switch is part of the
  state of its registers), or it stops the machine
  in a \<open>hlt\<close> loop. \<open>and_then\<close> is the sequence of two such calls.
\<close>

datatype 's outcome = Returned 's | Switched 's | Halted 's

fun final_state :: "'s outcome \<Rightarrow> 's" where
  "final_state (Returned s) = s"
| "final_state (Switched s) = s"
| "final_state (Halted s) = s"

fun and_then :: "'s outcome \<Rightarrow> ('s \<Rightarrow> 's) \<Rightarrow> 's outcome" where
  "and_then (Returned s) f = Returned (f s)"
| "and_then (Switched s) f = Switched s"
| "and_then (Halted s) f = Halted s"

definition kprint :: "string \<Rightarrow> 'a kio_scheme \<Rightarrow> 'a kio_scheme" where
  "kprint msg s = s\<lparr>io := console_write msg (io s)\<rparr>"

definition kputchar :: "char \<Rightarrow> 'a kio_scheme \<Rightarrow> 'a kio_scheme" where
  "kputchar c s = s\<lparr>io := console_putchar c (io s)\<rparr>"

definition koutb :: "u16 \<Rightarrow> u8 \<Rightarrow> 'a kio_scheme \<Rightarrow> 'a kio_scheme" where
  "koutb port v s = s\<lparr>io := outb port v (io s)\<rparr>"

definition kinb :: "u16 \<Rightarrow> 'a kio_scheme \<Rightarrow> u8 \<times> 'a kio_scheme" where
  "kinb port s = (let (v, c) = inb port (io s) in (v, s\<lparr>io := c\<rparr>))"

definition kmmio_write :: "u64 \<Rightarrow> u32 \<Rightarrow> 'a kio_scheme \<Rightarrow> 'a kio_scheme" where
  "kmmio_write a v s = s\<lparr>io := mmio_write a v (io s)\<rparr>"

definition kmmio_read :: "u64 \<Rightarrow> 'a kio_scheme \<Rightarrow> u32 \<times> 'a kio_scheme" where
  "kmmio_read a s = (let (v, c) = mmio_read a (io s) in (v, s\<lparr>io := c\<rparr>))"

fun is_cursor_op :: "io_op \<Rightarrow> bool" where
  "is_cursor_op (OutB p v) \<longleftrightarrow> p = 0x3D4 \<or> p = 0x3D5"
| "is_cursor_op _ \<longleftrightarrow> False"

definition dev_ops :: "io_op list \<Rightarrow> io_op list" where
  "dev_ops l = filter (\<lambda>x. \<not> is_cursor_op x) l"

abbreviation dev_log :: "'a kio_scheme \<Rightarrow> io_op list" where
  "dev_log s \<equiv> dev_ops (io_log (io s))"

abbreviation kio_ok :: "'a kio_scheme \<Rightarrow> bool" where
  "kio_ok s \<equiv> con_ok (io s)"

lemma dev_ops_simps [simp]:
  "dev_ops [] = []"
  "dev_ops (OutB p v # l) = (if p = 0x3D4 \<or> p = 0x3D5 then dev_ops l else OutB p v # dev_ops l)"
  "dev_ops (InB p # l) = InB p # dev_ops l"
  "dev_ops (OutW p w # l) = OutW p w # dev_ops l" "dev_ops (InW p # l) = InW p # dev_ops l"
  "dev_ops (MmioWrite a x # l) = MmioWrite a x # dev_ops l" "dev_ops (MmioRead a # l) = MmioRead a # dev_ops l"
  by (simp_all add: dev_ops_def)

lemma update_cursor_dev:
  "dev_ops (io_log (console_update_cursor s)) = dev_ops (io_log s)"
  "port_env (console_update_cursor s) = port_env s" "mmio_env (console_update_cursor s) = mmio_env s"
  by (simp_all add: console_update_cursor_def outb_def Let_def)

lemma console_wrap_dev:
  "dev_ops (io_log (console_wrap s)) = dev_ops (io_log s)"
  "port_env (console_wrap s) = port_env s" "mmio_env (console_wrap s) = mmio_env s"
  by (simp_all add: console_wrap_def Let_def update_cursor_dev console_scroll_eq)

lemma putchar_dev:
  "dev_ops (io_log (console_putchar c s)) = dev_ops (io_log s) \<and>
   port_env (console_putchar c s) = port_env s \<and> mmio_env (console_putchar c s) = mmio_env s"
proof (induction c s rule: console_putchar.induct)
  case (1 c s)
  then show ?case
    by (subst (1 2 3) console_putchar.simps) (simp add: Let_def console_wrap_dev con_store_def)
qed

lemma console_write_dev [simp]:
  "dev_ops (io_log (console_write cs s)) = dev_ops (io_log s)"
  "port_env (console_write cs s) = port_env s" "mmio_env (console_write cs s) = mmio_env s"
  by (induction cs arbitrary: s) (auto simp: putchar_dev)

declare console_write.simps [simp del]

lemma kprint_io [simp]: "io (kprint msg s) = console_write msg (io s)"
  by (simp add: kprint_def)

lemma kprint_ok: "kio_ok s \<Longrightarrow> kio_ok (kprint msg s)"
  by (simp add: console_write_ok)

lemmas kio_defs = kprint_def kputchar_def koutb_def kinb_def kmmio_write_def kmmio_read_def

end
