(* ===== verification/Apic.thy ===== *)
theory Apic
  imports Kernel_State
begin

text \<open>
  The local APIC and the I/O APIC driver of \<open>kernel/apic.c\<close> and \<open>kernel/apic.h\<close>. The driver
  only sees addresses and 32-bit values; the register file behind the I/O APIC's index and
  data window is described by \<open>ioapic_dev\<close>, and the properties relate the driver's accesses to
  that register file.
\<close>

section \<open>State and operations\<close>

text \<open>\<open>rdmsr_env\<close> is what the processor answers to \<open>rdmsr\<close>: the low and the high half.\<close>

record kapic = kio +
  lapic_base :: u64
  ioapic_base :: u64
  rdmsr_env :: "u32 \<Rightarrow> u32 \<times> u32"

abbreviation IA32_APIC_BASE_MSR :: u32 where "IA32_APIC_BASE_MSR \<equiv> 0x1B"
abbreviation APIC_TASK_PRIORITY :: u32 where "APIC_TASK_PRIORITY \<equiv> 0x80"
abbreviation APIC_EOI :: u32 where "APIC_EOI \<equiv> 0xB0"
abbreviation APIC_SPURIOUS_INT :: u32 where "APIC_SPURIOUS_INT \<equiv> 0xF0"
abbreviation APIC_LVT_TIMER :: u32 where "APIC_LVT_TIMER \<equiv> 0x320"
abbreviation APIC_TIMER_INITIAL :: u32 where "APIC_TIMER_INITIAL \<equiv> 0x380"
abbreviation APIC_TIMER_DIVIDE :: u32 where "APIC_TIMER_DIVIDE \<equiv> 0x3E0"
abbreviation APIC_SPURIOUS_ENABLE :: u32 where "APIC_SPURIOUS_ENABLE \<equiv> 0x100"
abbreviation IOAPIC_REDTBL_BASE :: u32 where "IOAPIC_REDTBL_BASE \<equiv> 0x10"

definition apic_read :: "u32 \<Rightarrow> 'a kapic_scheme \<Rightarrow> u32 \<times> 'a kapic_scheme" where
  "apic_read reg s = kmmio_read (lapic_base s + ucast reg) s"

definition apic_write :: "u32 \<Rightarrow> u32 \<Rightarrow> 'a kapic_scheme \<Rightarrow> 'a kapic_scheme" where
  "apic_write reg v s = kmmio_write (lapic_base s + ucast reg) v s"

definition ioapic_read :: "u32 \<Rightarrow> 'a kapic_scheme \<Rightarrow> u32 \<times> 'a kapic_scheme" where
  "ioapic_read reg s = kmmio_read (ioapic_base s + 0x10) (kmmio_write (ioapic_base s) reg s)"

definition ioapic_write :: "u32 \<Rightarrow> u32 \<Rightarrow> 'a kapic_scheme \<Rightarrow> 'a kapic_scheme" where
  "ioapic_write reg v s = kmmio_write (ioapic_base s + 0x10) v (kmmio_write (ioapic_base s) reg s)"

definition apic_eoi :: "'a kapic_scheme \<Rightarrow> 'a kapic_scheme" where
  "apic_eoi s = apic_write APIC_EOI 0 s"

definition lapic_init :: "'a kapic_scheme \<Rightarrow> 'a kapic_scheme" where
  "lapic_init s =
     (let s1 = kprint ''Initializing LAPIC...\<newline>'' s;
          (msr_low, msr_high) = rdmsr_env s1 IA32_APIC_BASE_MSR;
          s2 = s1\<lparr>lapic_base := push_bit 32 (ucast (msr_high AND 0xF)) OR ucast (msr_low AND 0xFFFFF000)\<rparr>;
          s3 = kprint ''\<newline>'' (kprint ''LAPIC base address: 0x'' s2);
          (v, s4) = apic_read APIC_SPURIOUS_INT s3;
          s5 = apic_write APIC_SPURIOUS_INT (v OR APIC_SPURIOUS_ENABLE OR 0xFF) s4;
          s6 = apic_write APIC_TASK_PRIORITY 0 s5
      in kprint ''LAPIC initialized.\<newline>'' s6)"

definition ioapic_init :: "'a kapic_scheme \<Rightarrow> 'a kapic_scheme" where
  "ioapic_init s =
     (let s1 = (kprint ''Initializing IOAPIC...\<newline>'' s)\<lparr>ioapic_base := 0xFEC00000\<rparr>
      in fold kprint [''IOAPIC base address: 0x'', ''\<newline>'', ''IOAPIC ID: 0x'', ''\<newline>'',
           ''IOAPIC Version: 0x'', ''\<newline>'', ''IOAPIC initialized.\<newline>''] s1)"

definition ioapic_set_irq_redirect :: "u8 \<Rightarrow> u8 \<Rightarrow> u32 \<Rightarrow> 'a kapic_scheme \<Rightarrow> 'a kapic_scheme" where
  "ioapic_set_irq_redirect irq vector flags s =
     (let reg = IOAPIC_REDTBL_BASE + ucast irq * 2;
          (low0, s1) = ioapic_read reg s;
          (high0, s2) = ioapic_read (reg + 1) s1;
          low1 = low0 AND NOT 0xFF;
          low2 = low1 OR ucast vector;
          low3 = low2 AND NOT 0x8F00;
          low4 = low3 OR flags;
          high1 = high0 AND NOT 0xFF000000;
          high2 = high1 OR 0;
          s3 = ioapic_write reg low4 s2
      in ioapic_write (reg + 1) high2 s3)"

definition apic_init :: "'a kapic_scheme \<Rightarrow> 'a kapic_scheme" where
  "apic_init s =
     (let s1 = kprint ''Initializing APIC...\<newline>'' s;
          s2 = lapic_init s1;
          s3 = ioapic_init s2;
          s4 = ioapic_set_irq_redirect 0 32 0 s3;
          s5 = ioapic_set_irq_redirect 1 33 0 s4
      in kprint ''APIC initialization complete.\<newline>'' s5)"

section \<open>The I/O APIC's registers\<close>

text \<open>
  The device as its data sheet describes it: a write to the window's base selects a
  register, a write 16 bytes further stores into the selected one. The history is
  read newest first; \<open>r0\<close> holds the registers at reset.
\<close>

fun ioapic_dev :: "u64 \<Rightarrow> (u32 \<Rightarrow> u32) \<Rightarrow> io_op list \<Rightarrow> u32 \<times> (u32 \<Rightarrow> u32)" where
  "ioapic_dev b r0 [] = (0, r0)"
| "ioapic_dev b r0 (x # l) =
     (case x of
        MmioWrite a v \<Rightarrow>
          (let (i, r) = ioapic_dev b r0 l
           in if a = b then (v, r) else if a = b + 0x10 then (i, r(i := v)) else (i, r))
      | _ \<Rightarrow> ioapic_dev b r0 l)"

definition ioapic_present :: "(u32 \<Rightarrow> u32) \<Rightarrow> 'a kapic_scheme \<Rightarrow> bool" where
  "ioapic_present r0 s \<longleftrightarrow>
     (\<forall>l. mmio_env (io s) l (0xFEC00000 + 0x10) = (let (i, r) = ioapic_dev 0xFEC00000 r0 l in r i))"

abbreviation ioapic_regs :: "(u32 \<Rightarrow> u32) \<Rightarrow> 'a kapic_scheme \<Rightarrow> u32 \<Rightarrow> u32" where
  "ioapic_regs r0 s \<equiv> snd (ioapic_dev 0xFEC00000 r0 (io_log (io s)))"

lemma ioapic_dev_dev_ops: "ioapic_dev b r0 (dev_ops l) = ioapic_dev b r0 l"
proof (induction l)
  case (Cons x l)
  then show ?case by (cases x) auto
qed simp

lemma ioapic_regs_print [simp]: "ioapic_regs r0 (kprint msg s) = ioapic_regs r0 s"
  using ioapic_dev_dev_ops console_write_dev(1) by (metis kprint_io)

lemma present_print [simp]: "ioapic_present r0 (kprint msg s) = ioapic_present r0 s"
  by (simp add: ioapic_present_def)

lemma kprint_apic_frame [simp]:
  "lapic_base (kprint msg s) = lapic_base s" "ioapic_base (kprint msg s) = ioapic_base s"
  "rdmsr_env (kprint msg s) = rdmsr_env s"
  by (simp_all add: kprint_def)

definition redirected :: "u8 \<Rightarrow> u8 \<Rightarrow> u32 \<Rightarrow> (u32 \<Rightarrow> u32) \<Rightarrow> u32 \<Rightarrow> u32" where
  "redirected irq vector flags r =
     (let reg = IOAPIC_REDTBL_BASE + ucast irq * 2
      in r(reg := (r reg AND NOT 0x8FFF) OR ucast vector OR flags,
           reg + 1 := r (reg + 1) AND 0xFFFFFF))"

text \<open>
  The two masks the driver applies to the low word, one after the other, act as one. (The
  simplifier writes the complement of a numeral as a negative numeral, hence the second form.)
\<close>

lemma vector_bits: "ucast (v :: u8) AND NOT (push_bit 8 m) = (ucast v :: u32)"
  by (rule bit_eqI) (auto simp: bit_simps dest: bit_imp_le_length)

lemma redirect_low:
  "((low AND NOT 0xFF OR ucast (v :: u8)) AND NOT 0x8F00) OR flags =
   (low AND NOT 0x8FFF) OR ucast v OR (flags :: u32)"
  using vector_bits [of v "0x8F"]
  by (simp add: bit.conj_disj_distrib2 and.assoc or.assoc)

lemmas redirect_low' = redirect_low [simplified]

lemma redirect_high: "(- 4278190081 :: u32) = 0xFFFFFF"
  by simp

lemma set_irq_redirect_regs:
  assumes "ioapic_present r0 s" "ioapic_base s = 0xFEC00000"
  shows "ioapic_regs r0 (ioapic_set_irq_redirect irq vector flags s) =
      redirected irq vector flags (ioapic_regs r0 s)"
    and "ioapic_present r0 (ioapic_set_irq_redirect irq vector flags s)"
    and "ioapic_base (ioapic_set_irq_redirect irq vector flags s) = 0xFEC00000"
proof -
  obtain i r where dev: "ioapic_dev 0xFEC00000 r0 (io_log (io s)) = (i, r)" by fastforce
  have env: "mmio_env (io s) l 0xFEC00010 = (let (i, r) = ioapic_dev 0xFEC00000 r0 l in r i)" for l
    using assms(1) by (simp add: ioapic_present_def)
  show "ioapic_regs r0 (ioapic_set_irq_redirect irq vector flags s) =
      redirected irq vector flags (ioapic_regs r0 s)"
    by (simp add: ioapic_set_irq_redirect_def ioapic_read_def ioapic_write_def kmmio_read_def
        kmmio_write_def mmio_read_def mmio_write_def Let_def assms(2) env dev redirected_def
        redirect_low' redirect_high)
  show "ioapic_present r0 (ioapic_set_irq_redirect irq vector flags s)"
    "ioapic_base (ioapic_set_irq_redirect irq vector flags s) = 0xFEC00000"
    using assms
    by (simp_all add: ioapic_set_irq_redirect_def ioapic_read_def ioapic_write_def kmmio_read_def
        kmmio_write_def mmio_read_def mmio_write_def Let_def ioapic_present_def)
qed

section \<open>Initialisation\<close>

definition lapic_address :: "u32 \<times> u32 \<Rightarrow> u64" where
  "lapic_address msr = push_bit 32 (ucast (snd msr AND 0xF)) OR ucast (fst msr AND 0xFFFFF000)"

lemma lapic_address_aligned: "aligned (lapic_address msr)"
proof -
  have "aligned (push_bit 32 (ucast h) OR ucast (l AND push_bit 12 k))" for h l k :: u32
    by (auto simp: aligned_iff_bits bit_simps)
  from this [of "snd msr AND 0xF" "fst msr" "0xFFFFF"] show ?thesis by (simp add: lapic_address_def)
qed

lemma page_offset_neq:
  assumes "aligned t" "aligned t'" "x < 4096" "y < 4096" "x \<noteq> y"
  shows "t + x \<noteq> t' + (y :: u64)"
proof
  assume eq: "t + x = t' + y"
  then have "page_base (t + x) = page_base (t' + y)" by simp
  then have "t = t'" using assms by (simp add: page_base_add)
  with eq assms(5) show False by simp
qed

lemma lapic_not_ioapic:
  assumes "aligned b" "x < 4096" "x \<noteq> 0" "x \<noteq> 0x10"
  shows "b + x \<noteq> 0xFEC00000" "b + x \<noteq> 0xFEC00010"
  using page_offset_neq [OF assms(1) _ assms(2), of "0xFEC00000" 0]
    page_offset_neq [OF assms(1) _ assms(2), of "0xFEC00000" "0x10"] assms(3,4)
  by (simp_all add: aligned_def)

lemma lapic_init_dev:
  fixes s :: "'a kapic_scheme"
  defines "b \<equiv> lapic_address (rdmsr_env s IA32_APIC_BASE_MSR)"
  shows "lapic_base (lapic_init s) = b" "ioapic_base (lapic_init s) = ioapic_base s"
    "mmio_env (io (lapic_init s)) = mmio_env (io s)"
    "\<exists>v. dev_log (lapic_init s) =
      MmioWrite (b + 0x80) 0 # MmioWrite (b + 0xF0) (v OR 0x1FF) # MmioRead (b + 0xF0) # dev_log s"
  by (simp_all add: lapic_init_def b_def lapic_address_def apic_read_def apic_write_def
      kmmio_read_def kmmio_write_def mmio_read_def mmio_write_def Let_def split_beta or.assoc) blast

lemma ioapic_init_dev:
  "lapic_base (ioapic_init s) = lapic_base s" "ioapic_base (ioapic_init s) = 0xFEC00000"
  "mmio_env (io (ioapic_init s)) = mmio_env (io s)" "dev_log (ioapic_init s) = dev_log s"
  by (simp_all add: ioapic_init_def Let_def)

lemma ioapic_regs_cong: "dev_log s = dev_log s' \<Longrightarrow> ioapic_regs r0 s = ioapic_regs r0 s'"
  using ioapic_dev_dev_ops by metis

lemma lapic_init_regs: "ioapic_regs r0 (lapic_init s) = ioapic_regs r0 s"
proof -
  let ?b = "lapic_address (rdmsr_env s IA32_APIC_BASE_MSR)"
  obtain v where log: "dev_log (lapic_init s) =
      MmioWrite (?b + 0x80) 0 # MmioWrite (?b + 0xF0) (v OR 0x1FF) # MmioRead (?b + 0xF0) # dev_log s"
    using lapic_init_dev(4) by blast
  have "snd (ioapic_dev 0xFEC00000 r0 (dev_log (lapic_init s))) = snd (ioapic_dev 0xFEC00000 r0 (dev_log s))"
    unfolding log
    using lapic_not_ioapic [OF lapic_address_aligned, of "0x80"] lapic_not_ioapic [OF lapic_address_aligned, of "0xF0"]
    by (simp add: split_beta)
  then show ?thesis by (simp only: ioapic_dev_dev_ops)
qed

lemma apic_init_regs:
  assumes "ioapic_present r0 s"
  shows "ioapic_regs r0 (apic_init s) =
    (ioapic_regs r0 s)(0x10 := (ioapic_regs r0 s 0x10 AND NOT 0x8FFF) OR 32,
       0x11 := ioapic_regs r0 s 0x11 AND 0xFFFFFF,
       0x12 := (ioapic_regs r0 s 0x12 AND NOT 0x8FFF) OR 33,
       0x13 := ioapic_regs r0 s 0x13 AND 0xFFFFFF)"
proof -
  let ?s3 = "ioapic_init (lapic_init (kprint ''Initializing APIC...\<newline>'' s))"
  let ?s4 = "ioapic_set_irq_redirect 0 32 0 ?s3"
  have present: "ioapic_present r0 ?s3"
    using assms by (simp add: ioapic_present_def ioapic_init_dev lapic_init_dev)
  have base: "ioapic_base ?s3 = 0xFEC00000" by (rule ioapic_init_dev)
  note set0 = set_irq_redirect_regs [OF present base, of 0 32 0]
  note set1 = set_irq_redirect_regs [OF set0(2,3), of 1 33 0]
  have "ioapic_regs r0 ?s3 = ioapic_regs r0 (lapic_init (kprint ''Initializing APIC...\<newline>'' s))"
    by (rule ioapic_regs_cong) (rule ioapic_init_dev)
  also have "\<dots> = ioapic_regs r0 s" by (simp only: lapic_init_regs ioapic_regs_print)
  finally have start: "ioapic_regs r0 ?s3 = ioapic_regs r0 s" .
  have "ioapic_regs r0 (apic_init s) = ioapic_regs r0 (ioapic_set_irq_redirect 1 33 0 ?s4)"
    by (simp only: apic_init_def Let_def ioapic_regs_print)
  also have "\<dots> = redirected 1 33 0 (redirected 0 32 0 (ioapic_regs r0 s))"
    by (simp only: set1(1) set0(1) start)
  finally show ?thesis by (simp add: redirected_def Let_def)
qed

section \<open>Properties\<close>

definition sample_apic :: kapic where
  "sample_apic = \<lparr>io = sample_console\<lparr>mmio_env := (\<lambda>l a. let (i, r) = ioapic_dev 0xFEC00000 (\<lambda>_. 0x10000) l in r i)\<rparr>,
     lapic_base = 0, ioapic_base = 0, rdmsr_env = (\<lambda>_. (0xFEE00900, 0))\<rparr>"

lemma sample_apic_present: "ioapic_present (\<lambda>_. 0x10000) sample_apic"
  by (simp add: ioapic_present_def sample_apic_def)

text \<open>
  C29. Interrupt routing. On a machine whose I/O APIC behaves as documented, \<open>apic_init\<close>
  programs the redirection entries of IRQ 0 and IRQ 1 with vectors 32 and 33 (delivery
  mode, destination mode and trigger mode cleared, destination the boot processor), and
  changes no other register of the device.
\<close>

theorem apic_init_routes_irqs:
  assumes "ioapic_present r0 s"
  shows "ioapic_regs r0 (apic_init s) =
    (ioapic_regs r0 s)(0x10 := (ioapic_regs r0 s 0x10 AND NOT 0x8FFF) OR 32,
       0x11 := ioapic_regs r0 s 0x11 AND 0xFFFFFF,
       0x12 := (ioapic_regs r0 s 0x12 AND NOT 0x8FFF) OR 33,
       0x13 := ioapic_regs r0 s 0x13 AND 0xFFFFFF)"
  using assms by (rule apic_init_regs)

theorem apic_init_routes_irqs_witness:
  "ioapic_regs (\<lambda>_. 0x10000) (apic_init sample_apic) 0x12 = 0x10021"
  unfolding apic_init_routes_irqs [OF sample_apic_present] by (simp add: sample_apic_def sample_console_def)

text \<open>
  Initialising never unmasks an interrupt: the mask bit (bit 16) of each redirection
  entry is what it was at reset, so on a device that resets to masked entries no
  external interrupt is delivered.
\<close>

theorem apic_init_keeps_mask_bits:
  assumes "ioapic_present r0 s"
  shows "bit (ioapic_regs r0 (apic_init s) reg) 16 = bit (ioapic_regs r0 s reg) 16"
  unfolding apic_init_regs [OF assms] by (simp add: bit_simps)

theorem apic_init_keeps_mask_bits_witness:
  "bit (ioapic_regs (\<lambda>_. 0x10000) (apic_init sample_apic) 0x12) 16"
proof -
  have "bit (ioapic_regs (\<lambda>_. 0x10000) sample_apic 0x12) 16"
    by (simp add: sample_apic_def sample_console_def)
  then show ?thesis by (simp only: apic_init_keeps_mask_bits [OF sample_apic_present])
qed

text \<open>
  Enabling the local APIC: whatever the base-address register holds, \<open>lapic_init\<close> takes the
  page-aligned address from it and performs, on that page, exactly one read and one write of
  the spurious-interrupt register, which sets the enable bit and vector 255, and one write
  that clears the task priority.
\<close>

theorem lapic_init_enables:
  "\<exists>v b. b = lapic_base (lapic_init s) \<and> aligned b \<and>
     dev_log (lapic_init s) =
       MmioWrite (b + 0x80) 0 # MmioWrite (b + 0xF0) (v OR 0x1FF) # MmioRead (b + 0xF0) # dev_log s"
  using lapic_init_dev(1,4) [of s] lapic_address_aligned by metis

end
