(* ===== verification/Keyboard.thy ===== *)
theory Keyboard
  imports Apic
begin

text \<open>
  The keyboard driver (\<open>kernel/drivers/keyboard.c\<close>, \<open>kernel/drivers/keyboard.h\<close>): an interrupt
  handler that fills a ring buffer of 256 bytes and the two functions that read from it.
  The ring is shown to implement a bounded first-in first-out queue of capacity 255.
\<close>

section \<open>State and operations\<close>

abbreviation KEYBOARD_BUFFER_SIZE :: u32 where "KEYBOARD_BUFFER_SIZE \<equiv> 256"
abbreviation PS2_DATA_PORT :: u16 where "PS2_DATA_PORT \<equiv> 0x60"

record kkbd = kapic +
  keyboard_buffer :: "char list"
  buffer_head :: u32
  buffer_tail :: u32

definition scancode_to_ascii :: "char list" where
  "scancode_to_ascii =
     [CHR 0x00, CHR 0x00] @ ''1234567890-='' @ [CHR 0x08, CHR 0x09] @ ''qwertyuiop[]'' @ [CHR 0x0A] @
     [CHR 0x00] @ ''asdfghjkl;'' @ [CHR 0x27, CHR 0x60, CHR 0x00, CHR 0x5C] @ ''zxcvbnm,./'' @
     [CHR 0x00, CHR ''*'', CHR 0x00, CHR '' '']"

definition keyboard_has_input :: "'a kkbd_scheme \<Rightarrow> bool" where
  "keyboard_has_input s \<longleftrightarrow> buffer_head s \<noteq> buffer_tail s"

definition keyboard_getchar :: "'a kkbd_scheme \<Rightarrow> char \<times> 'a kkbd_scheme" where
  "keyboard_getchar s =
     (if \<not> keyboard_has_input s then (CHR 0x00, s)
      else
        (let c = keyboard_buffer s ! unat (buffer_tail s)
         in (c, s\<lparr>buffer_tail := (buffer_tail s + 1) mod KEYBOARD_BUFFER_SIZE\<rparr>)))"

text \<open>The innermost block of the handler: add a character unless the buffer is full.\<close>

definition keyboard_enqueue :: "char \<Rightarrow> 'a kkbd_scheme \<Rightarrow> 'a kkbd_scheme" where
  "keyboard_enqueue c s =
     (let next_head = (buffer_head s + 1) mod KEYBOARD_BUFFER_SIZE
      in if next_head \<noteq> buffer_tail s
         then s\<lparr>keyboard_buffer := (keyboard_buffer s)[unat (buffer_head s) := c], buffer_head := next_head\<rparr>
         else s)"

definition keyboard_handler :: "'a kkbd_scheme \<Rightarrow> 'a kkbd_scheme" where
  "keyboard_handler s =
     (let (scancode, s1) = kinb PS2_DATA_PORT s;
          s2 = (if scancode AND 0x80 = 0 then
                  (if scancode < of_nat (length scancode_to_ascii) then
                     (let c = scancode_to_ascii ! unat scancode
                      in if c \<noteq> CHR 0x00 then keyboard_enqueue c s1 else s1)
                   else s1)
                else s1)
      in apic_eoi s2)"

definition keyboard_init :: "'a kkbd_scheme \<Rightarrow> 'a kkbd_scheme" where
  "keyboard_init s = kprint ''Keyboard initialized.\<newline>'' (kprint ''Initializing keyboard...\<newline>'' s)"

section \<open>A bounded queue\<close>

locale bounded_fifo =
  fixes ok :: "'s \<Rightarrow> bool" and contents :: "'s \<Rightarrow> 'e list"
    and put :: "'e \<Rightarrow> 's \<Rightarrow> 's" and get :: "'s \<Rightarrow> 'e \<times> 's" and cap :: nat
  assumes put_ok: "ok s \<Longrightarrow> ok (put e s)"
    and put_contents: "ok s \<Longrightarrow>
      contents (put e s) = (if length (contents s) < cap then contents s @ [e] else contents s)"
    and get_ok: "ok s \<Longrightarrow> ok (snd (get s))"
    and get_contents: "ok s \<Longrightarrow> contents s = x # xs \<Longrightarrow> fst (get s) = x \<and> contents (snd (get s)) = xs"
begin

lemma puts_ok: "ok s \<Longrightarrow> ok (fold put es s)"
  by (induction es arbitrary: s) (auto simp: put_ok)

lemma puts_contents:
  "ok s \<Longrightarrow> length (contents s) \<le> cap \<Longrightarrow> contents (fold put es s) = take cap (contents s @ es)"
proof (induction es arbitrary: s)
  case (Cons e es)
  then show ?case by (auto simp: put_ok put_contents take_Cons' Suc_diff_Suc)
qed simp

end

text \<open>Reading \<open>n\<close> times in a row.\<close>

fun drain :: "('s \<Rightarrow> 'e \<times> 's) \<Rightarrow> nat \<Rightarrow> 's \<Rightarrow> 'e list \<times> 's" where
  "drain get 0 s = ([], s)"
| "drain get (Suc n) s = (let (e, s1) = get s; (es, s2) = drain get n s1 in (e # es, s2))"

context bounded_fifo
begin

lemma drain_contents:
  assumes "ok s" "n = length (contents s)"
  shows "fst (drain get n s) = contents s \<and> contents (snd (drain get n s)) = [] \<and> ok (snd (drain get n s))"
  using assms
proof (induction n arbitrary: s)
  case (Suc n)
  then obtain x xs where xs: "contents s = x # xs" "n = length xs" by (cases "contents s") auto
  obtain e s1 where e: "get s = (e, s1)" by fastforce
  have "e = x" "contents s1 = xs" "ok s1"
    using get_contents [OF Suc.prems(1) xs(1)] get_ok [OF Suc.prems(1)] e by auto
  then show ?case using Suc.IH [of s1] xs e by (simp add: split_beta)
qed simp

end

section \<open>The ring buffer implements it\<close>

definition kbd_ok :: "'a kkbd_scheme \<Rightarrow> bool" where
  "kbd_ok s \<longleftrightarrow> length (keyboard_buffer s) = 256 \<and> buffer_head s < 256 \<and> buffer_tail s < 256"

definition kbd_count :: "'a kkbd_scheme \<Rightarrow> nat" where
  "kbd_count s = (unat (buffer_head s) + 256 - unat (buffer_tail s)) mod 256"

definition kbd_contents :: "'a kkbd_scheme \<Rightarrow> char list" where
  "kbd_contents s = map (\<lambda>i. keyboard_buffer s ! ((unat (buffer_tail s) + i) mod 256)) [0..<kbd_count s]"

lemma ring_next:
  assumes "(h :: u32) < 256"
  shows "unat ((h + 1) mod 256) = (unat h + 1) mod 256" "(h + 1) mod 256 < 256"
proof -
  have "unat (h + 1) = unat h + 1" using assms by (simp add: word_less_nat_alt unat_add_small)
  then show "unat ((h + 1) mod 256) = (unat h + 1) mod 256" by (simp add: unat_mod)
  then show "(h + 1) mod 256 < 256" by (simp add: word_less_nat_alt)
qed

lemma kbd_okD:
  assumes "kbd_ok s"
  shows "length (keyboard_buffer s) = 256" "unat (buffer_head s) < 256" "unat (buffer_tail s) < 256"
  using assms by (auto simp: kbd_ok_def word_less_nat_alt)

lemma ring_mod: "(n :: nat) < 512 \<Longrightarrow> n mod 256 = (if n < 256 then n else n - 256)"
  by (simp add: mod_if)

lemma kbd_count_eq:
  assumes "kbd_ok s"
  shows "kbd_count s = (if buffer_tail s \<le> buffer_head s then unat (buffer_head s) - unat (buffer_tail s)
    else unat (buffer_head s) + 256 - unat (buffer_tail s))"
  using kbd_okD(2,3) [OF assms] by (auto simp: kbd_count_def ring_mod word_le_nat_alt)

lemma kbd_count_lt: "kbd_count s < 256"
  by (simp add: kbd_count_def)

lemma kbd_has_input_iff: "kbd_ok s \<Longrightarrow> keyboard_has_input s \<longleftrightarrow> kbd_contents s \<noteq> []"
proof -
  assume "kbd_ok s"
  note ok = kbd_okD(2,3) [OF this]
  have "kbd_count s = 0 \<longleftrightarrow> unat (buffer_head s) = unat (buffer_tail s)"
    using ok by (auto simp: kbd_count_def ring_mod)
  then show ?thesis by (simp add: keyboard_has_input_def kbd_contents_def word_unat_eq_iff)
qed

lemma enqueue_full:
  assumes "kbd_ok s"
  shows "(buffer_head s + 1) mod 256 = buffer_tail s \<longleftrightarrow> kbd_count s = 255"
proof -
  note ok = kbd_okD(2,3) [OF assms]
  have "(buffer_head s + 1) mod 256 = buffer_tail s \<longleftrightarrow> (unat (buffer_head s) + 1) mod 256 = unat (buffer_tail s)"
    using assms ring_next(1) [of "buffer_head s"] by (simp add: kbd_ok_def word_unat_eq_iff)
  also have "\<dots> \<longleftrightarrow> kbd_count s = 255" using ok by (auto simp: kbd_count_def ring_mod)
  finally show ?thesis .
qed

lemma enqueue_ok: "kbd_ok s \<Longrightarrow> kbd_ok (keyboard_enqueue c s)"
  using ring_next(2) [of "buffer_head s"] by (simp add: kbd_ok_def keyboard_enqueue_def Let_def)

lemma enqueue_contents:
  assumes "kbd_ok s"
  shows "kbd_contents (keyboard_enqueue c s) =
    (if length (kbd_contents s) < 255 then kbd_contents s @ [c] else kbd_contents s)"
proof (cases "kbd_count s = 255")
  case True
  then show ?thesis using enqueue_full [OF assms] by (simp add: keyboard_enqueue_def kbd_contents_def)
next
  case False
  let ?s = "keyboard_enqueue c s" and ?h = "unat (buffer_head s)" and ?t = "unat (buffer_tail s)"
  note ok = kbd_okD [OF assms]
  have room: "kbd_count s < 255" using False kbd_count_lt [of s] by simp
  have eq: "?s = s\<lparr>keyboard_buffer := (keyboard_buffer s)[?h := c], buffer_head := (buffer_head s + 1) mod 256\<rparr>"
    using False enqueue_full [OF assms] by (simp add: keyboard_enqueue_def Let_def)
  have h': "unat ((buffer_head s + 1) mod 256) = (?h + 1) mod 256"
    using assms ring_next(1) by (simp add: kbd_ok_def)
  have count: "kbd_count ?s = Suc (kbd_count s)"
    using room ok h' unfolding eq kbd_count_def by (auto simp: ring_mod split: if_splits)
  have slot: "(?t + kbd_count s) mod 256 = ?h"
    using ok by (auto simp: kbd_count_def ring_mod)
  have other: "(?t + i) mod 256 \<noteq> ?h" if "i < kbd_count s" for i
    using that ok kbd_count_lt [of s] by (auto simp: kbd_count_def ring_mod split: if_splits)
  show ?thesis
    using room slot other [symmetric] ok unfolding kbd_contents_def count by (auto simp: eq)
qed

lemma getchar_ok: "kbd_ok s \<Longrightarrow> kbd_ok (snd (keyboard_getchar s))"
  using ring_next(2) [of "buffer_tail s"] by (simp add: kbd_ok_def keyboard_getchar_def Let_def)

lemma getchar_contents:
  assumes "kbd_ok s" "kbd_contents s = x # xs"
  shows "fst (keyboard_getchar s) = x \<and> kbd_contents (snd (keyboard_getchar s)) = xs"
proof -
  let ?t = "unat (buffer_tail s)"
  note ok = kbd_okD [OF assms(1)]
  have get: "keyboard_getchar s = (keyboard_buffer s ! ?t, s\<lparr>buffer_tail := (buffer_tail s + 1) mod 256\<rparr>)"
    using kbd_has_input_iff [OF assms(1)] assms(2) by (simp add: keyboard_getchar_def)
  have t': "unat ((buffer_tail s + 1) mod 256) = (?t + 1) mod 256"
    using assms(1) ring_next(1) by (simp add: kbd_ok_def)
  obtain n where n: "kbd_count s = Suc n"
    using assms(2) by (cases "kbd_count s") (simp_all add: kbd_contents_def)
  have count: "kbd_count (snd (keyboard_getchar s)) = n"
    using n ok unfolding get kbd_count_def by (auto simp: t' ring_mod split: if_splits)
  have "kbd_contents s = keyboard_buffer s ! ?t # map (\<lambda>i. keyboard_buffer s ! ((?t + Suc i) mod 256)) [0..<n]"
    using ok unfolding kbd_contents_def n by (simp add: map_upt_Suc del: upt_Suc)
  moreover have "kbd_contents (snd (keyboard_getchar s)) =
      map (\<lambda>i. keyboard_buffer s ! ((?t + Suc i) mod 256)) [0..<n]"
    unfolding kbd_contents_def count by (simp add: get t' mod_simps)
  ultimately show ?thesis using assms(2) get by simp
qed

interpretation kbd: bounded_fifo kbd_ok kbd_contents keyboard_enqueue keyboard_getchar 255
  by unfold_locales (simp_all add: enqueue_ok enqueue_contents getchar_ok getchar_contents)

section \<open>The interrupt handler\<close>

text \<open>What a scancode stands for: nothing for releases and keys without a character.\<close>

definition decode :: "u8 \<Rightarrow> char option" where
  "decode sc =
     (if sc < 58 \<and> scancode_to_ascii ! unat sc \<noteq> CHR 0x00 then Some (scancode_to_ascii ! unat sc) else None)"

lemma scancode_table_length [simp]: "length scancode_to_ascii = 58"
  by (simp add: scancode_to_ascii_def)

lemma press_bit: "(sc :: u8) < 58 \<Longrightarrow> sc AND 0x80 = 0"
proof -
  assume "sc < 58"
  then have "sc < 2 ^ 7" by (rule less_trans) simp
  then have "sc AND mask 7 = sc" by (rule less_mask_eq)
  then have "sc AND 0x80 = sc AND (mask 7 AND 0x80)" by (metis and.assoc)
  then show ?thesis by (simp add: mask_eq_exp_minus_1)
qed

lemma eoi_eq: "apic_eoi s = s\<lparr>io := (io s)\<lparr>io_log := MmioWrite (lapic_base s + 0xB0) 0 # io_log (io s)\<rparr>\<rparr>"
  by (simp add: apic_eoi_def apic_write_def kmmio_write_def mmio_write_def)

lemma handler_eq:
  "keyboard_handler s = apic_eoi
     (case decode (fst (kinb PS2_DATA_PORT s)) of
        None \<Rightarrow> snd (kinb PS2_DATA_PORT s) | Some c \<Rightarrow> keyboard_enqueue c (snd (kinb PS2_DATA_PORT s)))"
  using press_bit [of "fst (kinb PS2_DATA_PORT s)"]
  by (auto simp: keyboard_handler_def decode_def Let_def split_beta)

lemma kbd_io_frame [simp]:
  "kbd_ok (s\<lparr>io := c\<rparr>) = kbd_ok s" "kbd_contents (s\<lparr>io := c\<rparr>) = kbd_contents s"
  "kbd_count (s\<lparr>io := c\<rparr>) = kbd_count s"
  by (simp_all add: kbd_ok_def kbd_contents_def kbd_count_def)

lemma enqueue_io_frame [simp]:
  "io (keyboard_enqueue c s) = io s" "lapic_base (keyboard_enqueue c s) = lapic_base s"
  by (simp_all add: keyboard_enqueue_def Let_def)

lemma kinb_simps:
  "snd (kinb p s) = s\<lparr>io := (io s)\<lparr>io_log := InB p # io_log (io s)\<rparr>\<rparr>"
  by (simp add: kinb_def inb_def)

lemma handler_io:
  "io (keyboard_handler s) =
     (io s)\<lparr>io_log := MmioWrite (lapic_base s + 0xB0) 0 # InB PS2_DATA_PORT # io_log (io s)\<rparr>"
  by (simp add: handler_eq eoi_eq kinb_simps split: option.split)

text \<open>A run of \<open>n\<close> keyboard interrupts, with the scancodes that the controller delivered.\<close>

fun key_events :: "nat \<Rightarrow> 'a kkbd_scheme \<Rightarrow> u8 list \<times> 'a kkbd_scheme" where
  "key_events 0 s = ([], s)"
| "key_events (Suc n) s =
     (let sc = fst (kinb PS2_DATA_PORT s); (scs, s') = key_events n (keyboard_handler s) in (sc # scs, s'))"

lemma handler_queue:
  assumes "kbd_ok s"
  shows "kbd_ok (keyboard_handler s)"
    "kbd_contents (keyboard_handler s) =
      (case decode (fst (kinb PS2_DATA_PORT s)) of None \<Rightarrow> kbd_contents s
       | Some c \<Rightarrow> if length (kbd_contents s) < 255 then kbd_contents s @ [c] else kbd_contents s)"
  using assms
  by (simp_all add: handler_eq eoi_eq kinb_simps enqueue_ok enqueue_contents split: option.split)

lemma key_events_contents:
  assumes "kbd_ok s" "length (kbd_contents s) \<le> 255"
  shows "kbd_ok (snd (key_events n s)) \<and>
    kbd_contents (snd (key_events n s)) = take 255 (kbd_contents s @ List.map_filter decode (fst (key_events n s)))"
  using assms
proof (induction n arbitrary: s)
  case (Suc n)
  let ?sc = "fst (kinb PS2_DATA_PORT s)" and ?s = "keyboard_handler s"
  note h = handler_queue [OF Suc.prems(1)]
  have "length (kbd_contents ?s) \<le> 255" using Suc.prems(2) h(2) by (auto split: option.split)
  note IH = Suc.IH [OF h(1) this]
  show ?case using IH h(2) Suc.prems(2)
    by (auto simp: split_beta map_filter_simps take_Cons' split: option.splits)
qed (simp add: map_filter_simps)

section \<open>Properties\<close>

text \<open>A controller that delivers the scancodes of \<open>hi\<close> and of a key release.\<close>

definition sample_kbd :: kkbd where
  "sample_kbd = \<lparr>io = sample_console\<lparr>port_env := (\<lambda>l p. [0x23, 0xA3, 0x17] ! (length (filter (\<lambda>x. x = InB p) l) mod 3))\<rparr>,
     lapic_base = 0xFEE00000, ioapic_base = 0xFEC00000, rdmsr_env = (\<lambda>_. (0xFEE00900, 0)),
     keyboard_buffer = replicate 256 (CHR 0x00), buffer_head = 255, buffer_tail = 255\<rparr>"

lemma sample_kbd_ok: "kbd_ok sample_kbd" "kbd_contents sample_kbd = []"
  by (simp_all add: kbd_ok_def kbd_contents_def kbd_count_def sample_kbd_def)

text \<open>
  One keyboard interrupt: exactly one read of the data port and one end-of-interrupt
  message, in this order; a press of a key with a character appends it to the queue unless
  255 characters are waiting; any other scancode, releases included, leaves the queue alone;
  the ring indices stay in range.
\<close>

theorem keyboard_interrupt:
  assumes "kbd_ok s"
  shows "kbd_ok (keyboard_handler s) \<and>
    dev_log (keyboard_handler s) = MmioWrite (lapic_base s + 0xB0) 0 # InB 0x60 # dev_log s \<and>
    kbd_contents (keyboard_handler s) =
      (case decode (fst (kinb 0x60 s)) of None \<Rightarrow> kbd_contents s
       | Some c \<Rightarrow> if length (kbd_contents s) < 255 then kbd_contents s @ [c] else kbd_contents s)"
  using handler_queue [OF assms] by (simp add: handler_eq eoi_eq kinb_simps split: option.split)

theorem keyboard_interrupt_witness:
  "kbd_contents (keyboard_handler sample_kbd) = ''h''"
  using keyboard_interrupt [OF sample_kbd_ok(1)] sample_kbd_ok(2)
  by (simp add: decode_def kinb_def inb_def sample_kbd_def sample_console_def scancode_to_ascii_def)

text \<open>
  C27. Typing and reading back: after any number of keyboard interrupts on an empty buffer,
  reading as many characters as are waiting returns the decoded key presses in the order
  they were typed, the first 255 of them if more were typed, and leaves the buffer empty.
\<close>

theorem typed_then_read:
  assumes "kbd_ok s" and "\<not> keyboard_has_input s" and "key_events n s = (scs, s1)"
    and "typed = take 255 (List.map_filter decode scs)"
  shows "fst (drain keyboard_getchar (length typed) s1) = typed \<and>
    \<not> keyboard_has_input (snd (drain keyboard_getchar (length typed) s1)) \<and>
    fst (keyboard_getchar (snd (drain keyboard_getchar (length typed) s1))) = CHR 0x00"
proof -
  have "kbd_contents s = []" using kbd_has_input_iff [OF assms(1)] assms(2) by simp
  then have s1: "kbd_ok s1" "kbd_contents s1 = typed"
    using key_events_contents [OF assms(1), of n] assms(3,4) by simp_all
  have "length typed = length (kbd_contents s1)" by (simp add: s1)
  note d = kbd.drain_contents [OF s1(1) this]
  then have "\<not> keyboard_has_input (snd (drain keyboard_getchar (length typed) s1))"
    using kbd_has_input_iff by blast
  then show ?thesis using d s1(2) by (simp add: keyboard_getchar_def)
qed

theorem typed_then_read_witness:
  "fst (drain keyboard_getchar 2 (snd (key_events 3 sample_kbd))) = ''hi''"
proof -
  have "fst (key_events 3 sample_kbd) = [0x23, 0xA3, 0x17]"
    by (simp add: numeral_eq_Suc kinb_def inb_def handler_io split_beta)
      (simp add: sample_kbd_def sample_console_def)
  moreover have "\<not> keyboard_has_input sample_kbd" by (simp add: keyboard_has_input_def sample_kbd_def)
  moreover have "List.map_filter decode [0x23, 0xA3, 0x17] = ''hi''"
    by (simp add: map_filter_simps decode_def scancode_to_ascii_def)
  ultimately show ?thesis
    using typed_then_read [OF sample_kbd_ok(1) _ prod.collapse [symmetric] refl, of 3]
    by (simp add: numeral_2_eq_2)
qed

end
