(* ===== verification/Paging.thy ===== *)
theory Paging
  imports Kaviz_Prelude
begin

text \<open>
  Physical pages, the bootstrap pool and the four-level page tables of
  \<open>kernel/memory.h\<close> and \<open>kernel/memory.c\<close>: \<open>bootstrap_alloc\<close>, \<open>alloc_physical_page\<close>,
  \<open>free_physical_page\<close>, \<open>map_page\<close>, \<open>unmap_page\<close>, \<open>set_page_flags\<close>, \<open>init_vmm\<close> and
  \<open>load_page_directory\<close>, with the translation that the tables define, the invariant that
  keeps tables apart, and coherence of the translation look-aside buffer.
\<close>

section \<open>State and operations\<close>

abbreviation PAGE_SIZE :: u64 where "PAGE_SIZE \<equiv> 4096"
abbreviation PAGE_PRESENT :: u64 where "PAGE_PRESENT \<equiv> 0x01"
abbreviation PAGE_WRITABLE :: u64 where "PAGE_WRITABLE \<equiv> 0x02"
abbreviation PAGE_USER :: u64 where "PAGE_USER \<equiv> 0x04"

definition PML4_INDEX :: "u64 \<Rightarrow> u64" where
  "PML4_INDEX vaddr = drop_bit 39 vaddr AND 0x1FF"

definition PDPT_INDEX :: "u64 \<Rightarrow> u64" where
  "PDPT_INDEX vaddr = drop_bit 30 vaddr AND 0x1FF"

definition PD_INDEX :: "u64 \<Rightarrow> u64" where
  "PD_INDEX vaddr = drop_bit 21 vaddr AND 0x1FF"

definition PT_INDEX :: "u64 \<Rightarrow> u64" where
  "PT_INDEX vaddr = drop_bit 12 vaddr AND 0x1FF"

text \<open>
  The look-aside buffer caches entries per virtual page; a virtual page is identified by
  its four table indices (bits 47 to 12 of the address).
\<close>

type_synonym vpage = "u64 \<times> u64 \<times> u64 \<times> u64"

definition vpage_of :: "u64 \<Rightarrow> vpage" where
  "vpage_of vaddr = (PML4_INDEX vaddr, PDPT_INDEX vaddr, PD_INDEX vaddr, PT_INDEX vaddr)"

record vmm_info =
  pml4 :: u64
  heap_start :: u64
  heap_end :: u64
  heap_max :: u64

text \<open>
  The globals of \<open>memory.c\<close> that paging uses. \<open>phys\<close> is the 64-bit value at a physical
  (identity-mapped) byte address; \<open>pool_base\<close> is where the linker placed
  \<open>bootstrap_memory_pool\<close>; \<open>cr3\<close> and \<open>tlb\<close> belong to the processor.
\<close>

record mm = vmm_info +
  phys :: "u64 \<Rightarrow> u64"
  next_free_page :: u64
  pool_base :: u64
  bootstrap_memory_used :: u32
  cr3 :: u64
  tlb :: "vpage \<rightharpoonup> u64"

definition bootstrap_alloc :: "u32 \<Rightarrow> mm \<Rightarrow> u64 \<times> mm" where
  "bootstrap_alloc size0 m =
     (let sz = (size0 + 3) AND NOT 3
      in if bootstrap_memory_used m + sz > 65536 then (NULL, m)
         else (pool_base m + ucast (bootstrap_memory_used m),
               m\<lparr>bootstrap_memory_used := bootstrap_memory_used m + sz\<rparr>))"

definition alloc_physical_page :: "mm \<Rightarrow> u64 \<times> mm" where
  "alloc_physical_page m =
     (let page = page_base (next_free_page m + PAGE_SIZE - 1)
      in (page, m\<lparr>next_free_page := page + PAGE_SIZE\<rparr>))"

definition free_physical_page :: "u64 \<Rightarrow> mm \<Rightarrow> mm" where
  "free_physical_page physical_addr m = m"

definition init_vmm :: "mm \<Rightarrow> mm" where
  "init_vmm m = m\<lparr>pml4 := page_base (cr3 m), heap_start := 0xFFFF800000000000,
     heap_end := 0xFFFF800000000000, heap_max := 0xFFFF8000FFFFFFFF\<rparr>"

definition flush_tlb_single :: "u64 \<Rightarrow> mm \<Rightarrow> mm" where
  "flush_tlb_single addr m = m\<lparr>tlb := (tlb m)(vpage_of addr := None)\<rparr>"

definition flush_tlb :: "mm \<Rightarrow> mm" where
  "flush_tlb m = m\<lparr>tlb := Map.empty\<rparr>"

definition load_page_directory :: "mm \<Rightarrow> mm" where
  "load_page_directory m = m\<lparr>cr3 := pml4 m, tlb := Map.empty\<rparr>"

text \<open>\<open>t[i]\<close> and \<open>t[i] = e\<close> for a table \<open>page_entry_t* t\<close>.\<close>

definition rd_entry :: "mm \<Rightarrow> u64 \<Rightarrow> u64 \<Rightarrow> u64" where
  "rd_entry m t i = phys m (t + 8 * i)"

definition wr_entry :: "u64 \<Rightarrow> u64 \<Rightarrow> u64 \<Rightarrow> mm \<Rightarrow> mm" where
  "wr_entry t i e m = m\<lparr>phys := (phys m)(t + 8 * i := e)\<rparr>"

definition zero_table :: "u64 \<Rightarrow> mm \<Rightarrow> mm" where
  "zero_table t m = fold (\<lambda>i. wr_entry t (of_nat i) 0) [0..<512] m"

text \<open>
  The block that \<open>map_page\<close> repeats for each of the three upper levels: follow a present
  entry, or allocate, clear and install a new table. \<open>None\<close> is the early \<open>return -1\<close>.
\<close>

definition ensure_table :: "u64 \<Rightarrow> u64 \<Rightarrow> mm \<Rightarrow> u64 option \<times> mm" where
  "ensure_table t i m =
     (if rd_entry m t i AND PAGE_PRESENT = 0 then
        (let (n, m1) = bootstrap_alloc (8 * 512) m
         in if n = NULL then (None, m1)
            else (Some n,
              flush_tlb (wr_entry t i (n OR PAGE_PRESENT OR PAGE_WRITABLE) (zero_table n m1))))
      else (Some (page_base (rd_entry m t i)), m))"

definition map_page :: "u64 \<Rightarrow> u64 \<Rightarrow> u64 \<Rightarrow> mm \<Rightarrow> int \<times> mm" where
  "map_page vaddr0 paddr0 flags m =
     (let va = page_base vaddr0; pa = page_base paddr0
      in case ensure_table (pml4 m) (PML4_INDEX va) m of
           (None, m1) \<Rightarrow> (-1, m1)
         | (Some pdpt, m1) \<Rightarrow>
             (case ensure_table pdpt (PDPT_INDEX va) m1 of
                (None, m2) \<Rightarrow> (-1, m2)
              | (Some pd, m2) \<Rightarrow>
                  (case ensure_table pd (PD_INDEX va) m2 of
                     (None, m3) \<Rightarrow> (-1, m3)
                   | (Some pt, m3) \<Rightarrow>
                       (0, flush_tlb_single va
                             (wr_entry pt (PT_INDEX va) (pa OR flags OR PAGE_PRESENT) m3)))))"

text \<open>
  The checks that \<open>unmap_page\<close> and \<open>set_page_flags\<close> share: the page table that covers an
  address, or \<open>None\<close> at the first level that is not present.
\<close>

definition next_table :: "mm \<Rightarrow> u64 \<Rightarrow> u64 \<Rightarrow> u64 option" where
  "next_table m t i =
     (if rd_entry m t i AND PAGE_PRESENT = 0 then None else Some (page_base (rd_entry m t i)))"

definition find_pt :: "mm \<Rightarrow> u64 \<Rightarrow> u64 option" where
  "find_pt m va =
     (case next_table m (pml4 m) (PML4_INDEX va) of
        None \<Rightarrow> None
      | Some pdpt \<Rightarrow>
          (case next_table m pdpt (PDPT_INDEX va) of
             None \<Rightarrow> None
           | Some pd \<Rightarrow> next_table m pd (PD_INDEX va)))"

definition unmap_page :: "u64 \<Rightarrow> mm \<Rightarrow> int \<times> mm" where
  "unmap_page vaddr0 m =
     (let va = page_base vaddr0
      in case find_pt m va of
           None \<Rightarrow> (-1, m)
         | Some pt \<Rightarrow>
             if rd_entry m pt (PT_INDEX va) AND PAGE_PRESENT = 0 then (-1, m)
             else (0, flush_tlb_single va (wr_entry pt (PT_INDEX va) 0 m)))"

definition set_page_flags :: "u64 \<Rightarrow> u64 \<Rightarrow> mm \<Rightarrow> int \<times> mm" where
  "set_page_flags vaddr0 flags m =
     (let va = page_base vaddr0
      in case find_pt m va of
           None \<Rightarrow> (-1, m)
         | Some pt \<Rightarrow>
             if rd_entry m pt (PT_INDEX va) AND PAGE_PRESENT = 0 then (-1, m)
             else
               (let phys_addr = page_base (rd_entry m pt (PT_INDEX va))
                in (0, flush_tlb_single va
                         (wr_entry pt (PT_INDEX va) (phys_addr OR flags OR PAGE_PRESENT) m))))"

section \<open>The translation the tables define\<close>

text \<open>Following a path of table indices from a table.\<close>

fun descend :: "mm \<Rightarrow> u64 \<Rightarrow> u64 list \<Rightarrow> u64 option" where
  "descend m t [] = Some t"
| "descend m t (i # is) =
     (case next_table m t i of None \<Rightarrow> None | Some t' \<Rightarrow> descend m t' is)"

definition table_at :: "mm \<Rightarrow> u64 list \<Rightarrow> u64 option" where
  "table_at m p = descend m (pml4 m) p"

definition walk_path :: "u64 \<Rightarrow> u64 list" where
  "walk_path va = [PML4_INDEX va, PDPT_INDEX va, PD_INDEX va]"

text \<open>The leaf entry a walk for an address ends in, if every level is present.\<close>

definition lookup_pte :: "mm \<Rightarrow> u64 \<Rightarrow> u64 option" where
  "lookup_pte m va =
     (case find_pt m va of
        None \<Rightarrow> None
      | Some pt \<Rightarrow>
          (let e = rd_entry m pt (PT_INDEX va) in if e AND PAGE_PRESENT = 0 then None else Some e))"

definition path_ok :: "u64 list \<Rightarrow> bool" where
  "path_ok p \<longleftrightarrow> length p \<le> 3 \<and> (\<forall>i\<in>set p. i < 512)"

definition in_free_pool :: "mm \<Rightarrow> u64 \<Rightarrow> bool" where
  "in_free_pool m a \<longleftrightarrow>
     unat (pool_base m) + unat (bootstrap_memory_used m) \<le> unat a \<and>
     unat a < unat (pool_base m) + 65536"

text \<open>
  The invariant: the root and the pool are page aligned, no table is reached by two
  different paths, and the unused part of the pool holds no table.
\<close>

definition pool_ok :: "mm \<Rightarrow> bool" where
  "pool_ok m \<longleftrightarrow> aligned (pool_base m) \<and> pool_base m \<noteq> NULL \<and>
     unat (pool_base m) + 65536 \<le> 2 ^ 64 \<and>
     4096 dvd unat (bootstrap_memory_used m) \<and> unat (bootstrap_memory_used m) \<le> 65536"

definition pt_ok :: "mm \<Rightarrow> bool" where
  "pt_ok m \<longleftrightarrow> aligned (pml4 m) \<and> pool_ok m \<and>
     (\<forall>p q t. path_ok p \<and> path_ok q \<and> table_at m p = Some t \<and> table_at m q = Some t \<longrightarrow> p = q) \<and>
     (\<forall>p t. path_ok p \<and> table_at m p = Some t \<longrightarrow> \<not> in_free_pool m t)"

definition tlb_coherent :: "mm \<Rightarrow> bool" where
  "tlb_coherent m \<longleftrightarrow> (\<forall>va e. tlb m (vpage_of va) = Some e \<longrightarrow> lookup_pte m va = Some e)"

section \<open>Table entries\<close>

lemma index_lt [simp]:
  "PML4_INDEX va < 512" "PDPT_INDEX va < 512" "PD_INDEX va < 512" "PT_INDEX va < 512"
proof -
  have "a AND 0x1FF < 512" for a :: u64
    using word_and_le1 [of a "0x1FF"] by (rule le_less_trans) simp
  then show "PML4_INDEX va < 512" "PDPT_INDEX va < 512" "PD_INDEX va < 512" "PT_INDEX va < 512"
    by (simp_all add: PML4_INDEX_def PDPT_INDEX_def PD_INDEX_def PT_INDEX_def)
qed

lemma index_page_base [simp]:
  "PML4_INDEX (page_base va) = PML4_INDEX va" "PDPT_INDEX (page_base va) = PDPT_INDEX va"
  "PD_INDEX (page_base va) = PD_INDEX va" "PT_INDEX (page_base va) = PT_INDEX va"
proof -
  have "drop_bit n (page_base va) = drop_bit n va" if "12 \<le> n" for n
    by (rule bit_eqI) (use that bit_page_base in \<open>auto simp: bit_drop_bit_eq\<close>)
  then show "PML4_INDEX (page_base va) = PML4_INDEX va" "PDPT_INDEX (page_base va) = PDPT_INDEX va"
    "PD_INDEX (page_base va) = PD_INDEX va" "PT_INDEX (page_base va) = PT_INDEX va"
    by (simp_all add: PML4_INDEX_def PDPT_INDEX_def PD_INDEX_def PT_INDEX_def)
qed

lemma vpage_of_page_base [simp]: "vpage_of (page_base va) = vpage_of va"
  by (simp add: vpage_of_def)

lemma entry_offset: "(i :: u64) < 512 \<Longrightarrow> 8 * i < 4096"
  by (simp add: word_less_nat_alt unat_word_ariths)

lemma entry_addr_eq:
  assumes "aligned t" "aligned t'" "i < 512" "i' < (512 :: u64)"
  shows "t + 8 * i = t' + 8 * i' \<longleftrightarrow> t = t' \<and> i = i'"
proof
  assume eq: "t + 8 * i = t' + 8 * i'"
  then have "page_base (t + 8 * i) = page_base (t' + 8 * i')" by simp
  then have t: "t = t'" using assms by (simp add: page_base_add entry_offset)
  with eq have "8 * i = 8 * i'" by simp
  then have "i = i'"
    using assms(3,4) by (simp add: word_less_nat_alt word_unat_eq_iff unat_word_ariths)
  with t show "t = t' \<and> i = i'" by simp
qed simp

lemma rd_wr_entry:
  assumes "aligned t" "aligned t'" "i < 512" "i' < 512"
  shows "rd_entry (wr_entry t i e m) t' i' = (if t' = t \<and> i' = i then e else rd_entry m t' i')"
  using entry_addr_eq [OF assms(2,1,4,3)] by (simp add: rd_entry_def wr_entry_def)

lemma zero_table_eq:
  "zero_table t m = m\<lparr>phys := (\<lambda>a. if a \<in> (\<lambda>i. t + 8 * of_nat i) ` {..<512} then 0 else phys m a)\<rparr>"
proof -
  have "fold (\<lambda>i. wr_entry t (of_nat i) 0) xs m =
      m\<lparr>phys := fold (\<lambda>i f. f(t + 8 * of_nat i := 0)) xs (phys m)\<rparr>" for xs
    by (induction xs arbitrary: m) (simp_all add: wr_entry_def)
  then show ?thesis by (simp add: zero_table_def loop_simps atLeast0LessThan)
qed

lemma rd_zero_table:
  assumes "aligned n" "aligned t" "i < 512"
  shows "rd_entry (zero_table n m) t i = (if t = n then 0 else rd_entry m t i)"
proof -
  have "t + 8 * i \<in> (\<lambda>k. n + 8 * of_nat k) ` {..<512} \<longleftrightarrow> t = n"
  proof
    assume "t + 8 * i \<in> (\<lambda>k. n + 8 * of_nat k) ` {..<512}"
    then obtain k where "k < 512" and eq: "t + 8 * i = n + 8 * of_nat k" by auto
    then have "(of_nat k :: u64) < 512" by (simp add: word_less_nat_alt unat_of_nat_small)
    with eq assms show "t = n" by (simp add: entry_addr_eq)
  next
    assume "t = n"
    moreover have "unat i < 512" using assms(3) by (simp add: word_less_nat_alt)
    ultimately show "t + 8 * i \<in> (\<lambda>k. n + 8 * of_nat k) ` {..<512}"
      by (intro image_eqI [where x = "unat i"]) auto
  qed
  then show ?thesis by (simp add: zero_table_eq rd_entry_def)
qed

lemma entry_ops_frame [simp]:
  "pml4 (wr_entry t i e m) = pml4 m" "pml4 (zero_table t m) = pml4 m" "pml4 (flush_tlb m) = pml4 m"
  "pml4 (flush_tlb_single a m) = pml4 m"
  "pool_base (wr_entry t i e m) = pool_base m" "pool_base (zero_table t m) = pool_base m"
  "pool_base (flush_tlb m) = pool_base m" "pool_base (flush_tlb_single a m) = pool_base m"
  "bootstrap_memory_used (wr_entry t i e m) = bootstrap_memory_used m"
  "bootstrap_memory_used (zero_table t m) = bootstrap_memory_used m"
  "bootstrap_memory_used (flush_tlb m) = bootstrap_memory_used m"
  "bootstrap_memory_used (flush_tlb_single a m) = bootstrap_memory_used m"
  "tlb (wr_entry t i e m) = tlb m" "tlb (zero_table t m) = tlb m" "tlb (flush_tlb m) = Map.empty"
  "tlb (flush_tlb_single a m) = (tlb m)(vpage_of a := None)"
  "rd_entry (flush_tlb m) = rd_entry m" "rd_entry (flush_tlb_single a m) = rd_entry m"
  by (simp_all add: wr_entry_def zero_table_eq flush_tlb_def flush_tlb_single_def rd_entry_def fun_eq_iff)

lemma present_bit: "e AND PAGE_PRESENT = 0 \<longleftrightarrow> \<not> bit e 0"
  using and_1_iff_bit [of e] by blast

section \<open>Walking the tables\<close>

lemma next_table_cong: "rd_entry m t i = rd_entry m' t i \<Longrightarrow> next_table m t i = next_table m' t i"
  by (simp add: next_table_def)

lemma next_table_aligned: "next_table m t i = Some t' \<Longrightarrow> aligned t'"
  by (auto simp: next_table_def split: if_splits)

lemma descend_append:
  "descend m t (p @ q) = (case descend m t p of None \<Rightarrow> None | Some t' \<Rightarrow> descend m t' q)"
  by (induction p arbitrary: t) (auto split: option.splits)

lemma table_at_Nil [simp]: "table_at m [] = Some (pml4 m)"
  by (simp add: table_at_def)

lemma table_at_snoc:
  "table_at m (p @ [i]) = (case table_at m p of None \<Rightarrow> None | Some t \<Rightarrow> next_table m t i)"
  by (simp add: table_at_def descend_append split: option.splits)

lemma table_at_aligned: "aligned (pml4 m) \<Longrightarrow> table_at m p = Some t \<Longrightarrow> aligned t"
  by (cases p rule: rev_cases) (auto simp: table_at_snoc split: option.splits intro: next_table_aligned)

lemma find_pt_table_at: "find_pt m va = table_at m (walk_path va)"
  by (simp add: find_pt_def table_at_def walk_path_def split: option.splits)

lemma path_ok_snoc: "path_ok (p @ [i]) \<longleftrightarrow> length p < 3 \<and> path_ok p \<and> i < 512"
  by (auto simp: path_ok_def)

lemma path_ok_walk [simp]: "path_ok (walk_path va)" "path_ok []" "path_ok [PML4_INDEX va]"
  "path_ok [PML4_INDEX va, PDPT_INDEX va]" "length (walk_path va) = 3"
  by (simp_all add: path_ok_def walk_path_def)

lemma pt_okD:
  assumes "pt_ok m"
  shows "aligned (pml4 m)" "pool_ok m"
    "path_ok p \<Longrightarrow> path_ok q \<Longrightarrow> table_at m p = Some t \<Longrightarrow> table_at m q = Some t \<Longrightarrow> p = q"
    "path_ok p \<Longrightarrow> table_at m p = Some t \<Longrightarrow> \<not> in_free_pool m t"
    "table_at m p = Some t \<Longrightarrow> aligned t"
  using assms table_at_aligned by (auto simp: pt_ok_def)

lemma walk_path_eq:
  "vpage_of va = vpage_of va' \<longleftrightarrow> walk_path va = walk_path va' \<and> PT_INDEX va = PT_INDEX va'"
  by (auto simp: vpage_of_def walk_path_def)

text \<open>Writing a leaf entry leaves every table where it was.\<close>

lemma table_at_wr_leaf:
  assumes ok: "pt_ok m" and pt: "path_ok p" "length p = 3" "table_at m p = Some t" and i: "i < 512"
    and q: "path_ok q"
  shows "table_at (wr_entry t i e m) q = table_at m q"
  using q
proof (induction q rule: rev_induct)
  case Nil
  then show ?case by simp
next
  case (snoc j q)
  then have q: "path_ok q" "length q < 3" "j < 512" by (auto simp: path_ok_snoc)
  have "next_table (wr_entry t i e m) t' j = next_table m t' j" if "table_at m q = Some t'" for t'
  proof -
    have "t' \<noteq> t" using pt_okD(3) [OF ok pt(1) q(1) pt(3)] that pt(2) q(2) by auto
    then show ?thesis
      using pt_okD(5) [OF ok pt(3)] pt_okD(5) [OF ok that] i q(3)
      by (intro next_table_cong) (simp add: rd_wr_entry)
  qed
  then show ?case using snoc.IH [OF q(1)] by (auto simp: table_at_snoc split: option.splits)
qed

lemma pt_ok_wr_leaf:
  assumes "pt_ok m" "path_ok p" "length p = 3" "table_at m p = Some t" "i < 512"
  shows "pt_ok (wr_entry t i e m)"
  using assms(1) unfolding pt_ok_def
  by (simp add: table_at_wr_leaf [OF assms] pool_ok_def in_free_pool_def cong: conj_cong)

lemma lookup_wr_leaf:
  assumes ok: "pt_ok m" and pt: "find_pt m va = Some t"
  shows "lookup_pte (wr_entry t (PT_INDEX va) e m) va' =
    (if vpage_of va' = vpage_of va then (if e AND PAGE_PRESENT = 0 then None else Some e)
     else lookup_pte m va')"
proof -
  let ?m = "wr_entry t (PT_INDEX va) e m"
  have t: "table_at m (walk_path va) = Some t" using pt by (simp add: find_pt_table_at)
  have find: "find_pt ?m va' = find_pt m va'"
    using table_at_wr_leaf [OF ok _ _ t] by (simp add: find_pt_table_at)
  have rd: "rd_entry ?m t' (PT_INDEX va') = (if vpage_of va' = vpage_of va then e else rd_entry m t' (PT_INDEX va'))"
    if "find_pt m va' = Some t'" for t'
  proof -
    have t': "table_at m (walk_path va') = Some t'" using that by (simp add: find_pt_table_at)
    then have "t' = t \<longleftrightarrow> walk_path va' = walk_path va"
      using pt_okD(3) [OF ok _ _ t, of "walk_path va'"] t by auto
    then show ?thesis using pt_okD(5) [OF ok t] pt_okD(5) [OF ok t']
      by (simp add: rd_wr_entry walk_path_eq)
  qed
  show ?thesis
  proof (cases "find_pt m va'")
    case None
    then have "vpage_of va' \<noteq> vpage_of va" using pt by (auto simp: walk_path_eq find_pt_table_at)
    then show ?thesis using None find by (simp add: lookup_pte_def)
  next
    case (Some t')
    then show ?thesis using find rd [OF Some] by (simp add: lookup_pte_def Let_def)
  qed
qed

section \<open>The bootstrap pool\<close>

lemma table_size: "((8 * 512 :: u32) + 3) AND NOT 3 = 4096"
  by simp

lemma bootstrap_alloc_full:
  assumes "pool_ok m" "unat (bootstrap_memory_used m) = 65536"
  shows "bootstrap_alloc (8 * 512) m = (NULL, m)"
proof -
  have "bootstrap_memory_used m = 65536"
    using assms(2) by (simp add: word_unat_eq_iff)
  then show ?thesis by (simp add: bootstrap_alloc_def)
qed

lemma bootstrap_alloc_table:
  assumes ok: "pool_ok m" and room: "unat (bootstrap_memory_used m) \<noteq> 65536"
  defines "n \<equiv> pool_base m + ucast (bootstrap_memory_used m)"
    and "m' \<equiv> m\<lparr>bootstrap_memory_used := bootstrap_memory_used m + 4096\<rparr>"
  shows "bootstrap_alloc (8 * 512) m = (n, m')"
    and "n \<noteq> NULL" and "aligned n" and "in_free_pool m n" and "pool_ok m'"
    and "unat (bootstrap_memory_used m') = unat (bootstrap_memory_used m) + 4096"
    and "\<not> in_free_pool m' n" and "in_free_pool m' a \<Longrightarrow> in_free_pool m a"
proof -
  let ?u = "unat (bootstrap_memory_used m)"
  have dvd: "4096 dvd ?u" and le: "?u \<le> 65536" and b: "unat (pool_base m) + 65536 \<le> 2 ^ 64"
    and al: "aligned (pool_base m)" and nn: "pool_base m \<noteq> NULL"
    using ok by (auto simp: pool_ok_def)
  have room': "?u + 4096 \<le> 65536" using dvd le room by (auto elim!: dvdE)
  then have u': "unat (bootstrap_memory_used m + 4096) = ?u + 4096"
    by (subst unat_add_small) auto
  show used: "unat (bootstrap_memory_used m') = ?u + 4096" by (simp add: m'_def u')
  have uc: "unat (ucast (bootstrap_memory_used m) :: u64) = ?u"
    by (simp add: unsigned_ucast_eq take_bit_nat_eq_self unsigned_less [THEN order.strict_trans])
  have n: "unat n = unat (pool_base m) + ?u"
    using b room' uc by (simp add: n_def unat_add_small)
  show "bootstrap_alloc (8 * 512) m = (n, m')"
    using room' u' by (simp add: bootstrap_alloc_def n_def m'_def word_less_nat_alt)
  show "n \<noteq> NULL" using n nn by (auto simp: word_unat_eq_iff)
  show "aligned n" using al dvd n by (simp add: aligned_unat)
  show "in_free_pool m n" using n room' by (simp add: in_free_pool_def)
  show "pool_ok m'" using ok used dvd room' by (simp add: pool_ok_def m'_def)
  show "\<not> in_free_pool m' n" using n used by (simp add: in_free_pool_def m'_def)
  show "in_free_pool m' a \<Longrightarrow> in_free_pool m a" using used by (simp add: in_free_pool_def m'_def)
qed

section \<open>Growing the tree of tables\<close>

text \<open>
  Installing an empty table at a free slot adds exactly one path to the tree, and no page
  becomes mapped or unmapped by it.
\<close>

lemma prefix_snoc_cases:
  "(\<exists>r. q @ [j] = p @ i # r) \<longleftrightarrow> q = p \<and> j = i \<or> (\<exists>r. q = p @ i # r)"
proof
  assume "\<exists>r. q @ [j] = p @ i # r"
  then obtain r where r: "q @ [j] = p @ i # r" by blast
  then show "q = p \<and> j = i \<or> (\<exists>r. q = p @ i # r)"
    by (cases r rule: rev_cases) (auto simp flip: append_assoc append_Cons)
qed auto

definition installs :: "mm \<Rightarrow> u64 \<Rightarrow> u64 \<Rightarrow> u64 \<Rightarrow> mm \<Rightarrow> bool" where
  "installs m t i n m' \<longleftrightarrow> pml4 m' = pml4 m \<and>
     (\<forall>t' j. aligned t' \<longrightarrow> j < 512 \<longrightarrow> rd_entry m' t' j =
        (if t' = t \<and> j = i then n OR 3 else if t' = n then 0 else rd_entry m t' j))"

lemma installsD:
  assumes "installs m t i n m'"
  shows "pml4 m' = pml4 m"
    "aligned t' \<Longrightarrow> j < 512 \<Longrightarrow> rd_entry m' t' j =
       (if t' = t \<and> j = i then n OR 3 else if t' = n then 0 else rd_entry m t' j)"
  using assms by (auto simp: installs_def)

lemma table_at_install:
  assumes ok: "pt_ok m" and p: "path_ok (p @ [i])" "table_at m p = Some t"
    and free: "next_table m t i = None"
    and n: "aligned n" "in_free_pool m n" and q: "path_ok q"
    and inst: "installs m t i n m'"
  shows "table_at m' q =
    (if q = p @ [i] then Some n else if \<exists>r. q = p @ i # r then None else table_at m q)"
  using q
proof (induction q rule: rev_induct)
  case Nil
  then show ?case using installsD(1) [OF inst] by simp
next
  case (snoc j q)
  then have q: "path_ok q" "j < 512" and IH: "table_at m' q =
    (if q = p @ [i] then Some n else if \<exists>r. q = p @ i # r then None else table_at m q)"
    by (auto simp: path_ok_snoc)
  have pi: "path_ok p" "i < 512" using p(1) by (auto simp: path_ok_snoc)
  have t: "aligned t" "t \<noteq> n"
    using pt_okD(5) [OF ok p(2)] pt_okD(4) [OF ok pi(1) p(2)] n(2) by auto
  consider (new) "q = p @ [i]" | (below) "q \<noteq> p @ [i]" "\<exists>r. q = p @ i # r"
    | (slot) "q = p" "j = i" | (old) "\<not> (\<exists>r. q = p @ i # r)" "\<not> (q = p \<and> j = i)"
    by blast
  then show ?case
  proof cases
    case new
    then have "next_table m' n j = None" using installsD(2) [OF inst n(1) q(2)] t(2) by (simp add: next_table_def)
    moreover have "table_at m' q = Some n" using IH new by (simp only: simp_thms if_True)
    ultimately have "table_at m' (q @ [j]) = None" by (simp only: table_at_snoc option.case)
    moreover have "q @ [j] \<noteq> p @ [i]" "\<exists>r. q @ [j] = p @ i # r" using new by auto
    ultimately show ?thesis by (simp only: simp_thms if_True if_False)
  next
    case below
    then show ?thesis using IH by (auto simp: table_at_snoc)
  next
    case slot
    have "next_table m' t i = Some n"
      using installsD(2) [OF inst t(1) pi(2)] n(1) by (simp add: next_table_def page_base_or present_bit bit_or_iff)
    then show ?thesis using slot IH p(2) by (simp add: table_at_snoc)
  next
    case old
    have IH': "table_at m' q = table_at m q" using IH old by auto
    have "next_table m' t' j = next_table m t' j" if t': "table_at m q = Some t'" for t'
    proof -
      have "t' \<noteq> n" using pt_okD(4) [OF ok q(1) t'] n(2) by auto
      moreover have "\<not> (t' = t \<and> j = i)"
        using pt_okD(3) [OF ok q(1) pi(1) t'] p(2) old(2) by auto
      ultimately show ?thesis
        using installsD(2) [OF inst pt_okD(5) [OF ok t'] q(2)] by (intro next_table_cong) auto
    qed
    moreover have "\<not> (\<exists>r. q @ [j] = p @ i # r)" using old by (subst prefix_snoc_cases) blast
    ultimately show ?thesis using IH' by (auto simp: table_at_snoc split: option.splits)
  qed
qed

lemma lookup_install:
  assumes ok: "pt_ok m" and p: "path_ok (p @ [i])" "table_at m p = Some t"
    and free: "next_table m t i = None"
    and n: "aligned n" "in_free_pool m n" and inst: "installs m t i n m'"
  shows "lookup_pte m' va = lookup_pte m va"
proof -
  have walk: "path_ok (walk_path va)" by simp
  note tab = table_at_install [OF ok p free n walk inst]
  have pi: "path_ok p" "i < 512" "length p < 3" using p(1) by (auto simp: path_ok_snoc)
  show ?thesis
  proof (cases "\<exists>r. walk_path va = p @ i # r")
    case True
    have "t \<noteq> n" using pt_okD(4) [OF ok pi(1) p(2)] n(2) by auto
    then have "lookup_pte m' va = None"
      using tab True installsD(2) [OF inst n(1), of "PT_INDEX va"]
      by (auto simp: lookup_pte_def find_pt_table_at split: if_splits)
    moreover have "table_at m (walk_path va) = None"
      using True free p(2) by (auto simp: table_at_def descend_append)
    ultimately show ?thesis by (simp add: lookup_pte_def find_pt_table_at)
  next
    case False
    have "rd_entry m' t' (PT_INDEX va) = rd_entry m t' (PT_INDEX va)"
      if t': "table_at m (walk_path va) = Some t'" for t'
    proof -
      have "t' \<noteq> t" using pt_okD(3) [OF ok walk pi(1) t'] p(2) pi(3) by auto
      moreover have "t' \<noteq> n" using pt_okD(4) [OF ok walk t'] n(2) by auto
      ultimately show ?thesis
        using installsD(2) [OF inst pt_okD(5) [OF ok t'], of "PT_INDEX va"] by simp
    qed
    moreover have "table_at m' (walk_path va) = table_at m (walk_path va)" using tab False by auto
    ultimately show ?thesis by (auto simp: lookup_pte_def find_pt_table_at split: option.splits)
  qed
qed

lemma pt_ok_install:
  assumes ok: "pt_ok m" and p: "path_ok (p @ [i])" "table_at m p = Some t"
    and free: "next_table m t i = None"
    and n: "aligned n" "in_free_pool m n" and inst: "installs m t i n m'"
    and pool: "pool_ok m'" "\<not> in_free_pool m' n" "\<And>a. in_free_pool m' a \<Longrightarrow> in_free_pool m a"
  shows "pt_ok m'"
proof -
  have old_or_new: "q = p @ [i] \<and> s = n \<or> table_at m q = Some s \<and> \<not> in_free_pool m s"
    if "path_ok q" "table_at m' q = Some s" for q s
    using table_at_install [OF ok p free n that(1) inst] that pt_okD(4) [OF ok]
    by (auto split: if_splits)
  show ?thesis
    unfolding pt_ok_def
  proof (intro conjI allI impI)
    show "aligned (pml4 m')" using pt_okD(1) [OF ok] installsD(1) [OF inst] by simp
    show "pool_ok m'" by (rule pool)
  next
    fix q q' s
    assume "path_ok q \<and> path_ok q' \<and> table_at m' q = Some s \<and> table_at m' q' = Some s"
    then show "q = q'"
      using old_or_new [of q s] old_or_new [of q' s] pt_okD(3) [OF ok, of q q' s] n(2) by blast
  next
    fix q s
    assume "path_ok q \<and> table_at m' q = Some s"
    then show "\<not> in_free_pool m' s" using old_or_new [of q s] pool(2) pool(3) [of s] by blast
  qed
qed

text \<open>Outcome of one level of \<open>map_page\<close>.\<close>

lemma ensure_table_frame:
  assumes "ensure_table t i m = (r, m')"
  shows "pml4 m' = pml4 m" "pool_base m' = pool_base m"
    "heap_start m' = heap_start m" "heap_end m' = heap_end m" "heap_max m' = heap_max m"
    "next_free_page m' = next_free_page m" "cr3 m' = cr3 m"
  using assms
  by (auto simp: ensure_table_def bootstrap_alloc_def Let_def wr_entry_def zero_table_eq flush_tlb_def
      split: if_splits)

definition extends_tables :: "mm \<Rightarrow> mm \<Rightarrow> bool" where
  "extends_tables m m' \<longleftrightarrow> (\<forall>q t. path_ok q \<and> table_at m q = Some t \<longrightarrow> table_at m' q = Some t) \<and>
     (\<forall>va. lookup_pte m' va = lookup_pte m va) \<and>
     (\<forall>q t j. path_ok q \<and> table_at m q = Some t \<and> j < 512 \<and> next_table m t j \<noteq> None \<longrightarrow>
        rd_entry m' t j = rd_entry m t j)"

lemma ensure_table_present:
  assumes "next_table m t i = Some n"
  shows "ensure_table t i m = (Some n, m)"
  using assms by (simp add: ensure_table_def next_table_def split: if_splits)

lemma ensure_table_full:
  assumes "pt_ok m" "next_table m t i = None" "unat (bootstrap_memory_used m) = 65536"
  shows "ensure_table t i m = (None, m)"
  using assms bootstrap_alloc_full [OF pt_okD(2) [OF assms(1)]]
  by (simp add: ensure_table_def next_table_def split: if_splits)

lemma ensure_table_new:
  assumes ok: "pt_ok m" and p: "path_ok (p @ [i])" "table_at m p = Some t"
    and free: "next_table m t i = None" and room: "unat (bootstrap_memory_used m) \<noteq> 65536"
  obtains n m' where "ensure_table t i m = (Some n, m')" "pt_ok m'" "table_at m' (p @ [i]) = Some n"
    "extends_tables m m'" "tlb m' = Map.empty" "rd_entry m' t i = n OR 3" "aligned n"
    "unat (bootstrap_memory_used m') = unat (bootstrap_memory_used m) + 4096"
proof -
  note boot = bootstrap_alloc_table [OF pt_okD(2) [OF ok] room]
  let ?n = "pool_base m + ucast (bootstrap_memory_used m)"
  let ?m1 = "m\<lparr>bootstrap_memory_used := bootstrap_memory_used m + 4096\<rparr>"
  let ?m' = "flush_tlb (wr_entry t i (?n OR PAGE_PRESENT OR PAGE_WRITABLE) (zero_table ?n ?m1))"
  have eq: "ensure_table t i m = (Some ?n, ?m')"
    using free boot(1,2) by (simp add: ensure_table_def next_table_def Let_def split: if_splits)
  have inst: "installs m t i ?n ?m'"
  proof -
    have "?n OR PAGE_PRESENT OR PAGE_WRITABLE = ?n OR 3" by (simp add: or.assoc)
    moreover have "rd_entry ?m1 = rd_entry m" by (simp add: rd_entry_def fun_eq_iff)
    moreover have "aligned t" "i < 512" using pt_okD(5) [OF ok p(2)] p(1) by (auto simp: path_ok_snoc)
    ultimately show ?thesis
      using boot(3) by (simp add: installs_def rd_wr_entry rd_zero_table)
  qed
  note tab = table_at_install [OF ok p free boot(3,4) _ inst]
  have "table_at m (p @ i # r) = None" for r
    using free p(2) by (simp add: table_at_def descend_append)
  moreover have "rd_entry ?m' t' j = rd_entry m t' j"
    if "path_ok q" "table_at m q = Some t'" "j < 512" "next_table m t' j \<noteq> None" for q t' j
    using installsD(2) [OF inst pt_okD(5) [OF ok that(2)] that(3)] pt_okD(4) [OF ok that(1,2)] boot(4)
      free that(4) by auto
  ultimately have "extends_tables m ?m'"
    using tab lookup_install [OF ok p free boot(3,4) inst] by (auto simp: extends_tables_def)
  moreover have "pt_ok ?m'"
    using boot(5,7,8)
    by (intro pt_ok_install [OF ok p free boot(3,4) inst]) (auto simp: pool_ok_def in_free_pool_def)
  moreover have "table_at ?m' (p @ [i]) = Some ?n" using tab [OF p(1)] by simp
  moreover have "rd_entry ?m' t i = ?n OR 3"
    using installsD(2) [OF inst pt_okD(5) [OF ok p(2)], of i] p(1) by (simp add: path_ok_snoc)
  ultimately show thesis using eq boot(3,6) by (intro that [of ?n ?m']) auto
qed

text \<open>What every level of \<open>map_page\<close> guarantees, whether or not it succeeds.\<close>

definition grows :: "mm \<Rightarrow> mm \<Rightarrow> bool" where
  "grows m m' \<longleftrightarrow> pt_ok m' \<and> extends_tables m m' \<and> (tlb m' = tlb m \<or> tlb m' = Map.empty)"

lemma grows_refl: "pt_ok m \<Longrightarrow> grows m m"
  by (simp add: grows_def extends_tables_def)

lemma extends_trans:
  assumes a: "extends_tables m m1" and b: "extends_tables m1 m2"
  shows "extends_tables m m2"
proof -
  have "rd_entry m2 t j = rd_entry m t j"
    if "path_ok q" "table_at m q = Some t" "j < 512" "next_table m t j \<noteq> None" for q t j
  proof -
    have 1: "rd_entry m1 t j = rd_entry m t j" "table_at m1 q = Some t"
      using a that by (auto simp: extends_tables_def)
    then have "next_table m1 t j \<noteq> None" using that(4) next_table_cong [OF 1(1)] by simp
    then show ?thesis using b that 1 unfolding extends_tables_def by metis
  qed
  then show ?thesis using a b by (auto simp: extends_tables_def)
qed

lemma grows_trans: "grows m m1 \<Longrightarrow> grows m1 m2 \<Longrightarrow> grows m m2"
  unfolding grows_def using extends_trans [of m m1 m2] by auto

lemma growsD:
  assumes "grows m m'"
  shows "pt_ok m'" "lookup_pte m' va = lookup_pte m va"
    "path_ok q \<Longrightarrow> table_at m q = Some t \<Longrightarrow> table_at m' q = Some t"
    "tlb m' v = Some e \<Longrightarrow> tlb m v = Some e"
    "path_ok q \<Longrightarrow> table_at m q = Some t \<Longrightarrow> j < 512 \<Longrightarrow> next_table m t j \<noteq> None \<Longrightarrow>
       rd_entry m' t j = rd_entry m t j"
  using assms by (auto simp: grows_def extends_tables_def)

abbreviation used :: "mm \<Rightarrow> nat" where
  "used m \<equiv> unat (bootstrap_memory_used m)"

lemma ensure_table_spec:
  assumes ok: "pt_ok m" and p: "path_ok (p @ [i])" "table_at m p = Some t"
    and eq: "ensure_table t i m = (r, m')"
  shows "grows m m' \<and> used m' \<le> used m + 4096 \<and>
    (case r of None \<Rightarrow> used m = 65536
     | Some n \<Rightarrow> table_at m' (p @ [i]) = Some n \<and>
         (next_table m t i = None \<longrightarrow> aligned n \<and> rd_entry m' t i = n OR 3))"
proof (cases "next_table m t i")
  case (Some n)
  then have "r = Some n" "m' = m" "table_at m (p @ [i]) = Some n"
    using eq ensure_table_present [OF Some] p(2) by (auto simp: table_at_snoc)
  then show ?thesis using ok Some by (simp add: grows_refl)
next
  case None
  show ?thesis
  proof (cases "used m = 65536")
    case True
    then show ?thesis using eq ensure_table_full [OF ok None True] ok by (auto simp: grows_refl)
  next
    case False
    obtain n m1 where *: "ensure_table t i m = (Some n, m1)" "pt_ok m1" "table_at m1 (p @ [i]) = Some n"
      "extends_tables m m1" "tlb m1 = Map.empty" "rd_entry m1 t i = n OR 3" "aligned n"
      "used m1 = used m + 4096"
      by (rule ensure_table_new [OF ok p None False])
    then have "r = Some n" "m' = m1" using eq by auto
    then show ?thesis using * by (simp add: grows_def)
  qed
qed

section \<open>\<open>map_page\<close>\<close>

lemma map_page_cases:
  assumes ok: "pt_ok m"
  obtains (fail) m' where "map_page va pa fl m = (-1, m')" "grows m m'" "used m > 65536 - 3 * 4096"
  | (success) m' pt where
      "map_page va pa fl m =
         (0, flush_tlb_single (page_base va)
               (wr_entry pt (PT_INDEX va) (page_base pa OR fl OR PAGE_PRESENT) m'))"
      "grows m m'" "find_pt m' va = Some pt" "used m' \<le> used m + 3 * 4096"
      "next_table m (pml4 m) (PML4_INDEX va) = None \<Longrightarrow>
         \<exists>n. aligned n \<and> rd_entry m' (pml4 m) (PML4_INDEX va) = n OR 3"
proof -
  let ?p1 = "[PML4_INDEX va]" and ?p2 = "[PML4_INDEX va, PDPT_INDEX va]"
  have paths: "path_ok ([] @ [PML4_INDEX va])" "path_ok (?p1 @ [PDPT_INDEX va])"
    "path_ok (?p2 @ [PD_INDEX va])"
    by (simp_all add: path_ok_def)
  obtain r1 m1 where e1: "ensure_table (pml4 m) (PML4_INDEX va) m = (r1, m1)" by fastforce
  note s1 = ensure_table_spec [OF ok paths(1) table_at_Nil e1]
  show thesis
  proof (cases r1)
    case None
    then show thesis using s1 e1 by (intro fail [of m1]) (simp_all add: map_page_def)
  next
    case r1: (Some pdpt)
    obtain r2 m2 where e2: "ensure_table pdpt (PDPT_INDEX va) m1 = (r2, m2)" by fastforce
    have t1: "pt_ok m1" "table_at m1 ?p1 = Some pdpt" using s1 r1 by (simp_all add: grows_def)
    note s2 = ensure_table_spec [OF t1(1) paths(2) t1(2) e2]
    have g2: "grows m m2" using s1 s2 grows_trans by blast
    show thesis
    proof (cases r2)
      case None
      then show thesis using s1 s2 e1 e2 r1 g2 by (intro fail [of m2]) (simp_all add: map_page_def)
    next
      case r2: (Some pd)
      obtain r3 m3 where e3: "ensure_table pd (PD_INDEX va) m2 = (r3, m3)" by fastforce
      have t2: "pt_ok m2" "table_at m2 ?p2 = Some pd" using s2 r2 by (simp_all add: grows_def)
      note s3 = ensure_table_spec [OF t2(1) paths(3) t2(2) e3]
      have g3: "grows m m3" using g2 s3 grows_trans by blast
      show thesis
      proof (cases r3)
        case None
        then show thesis using s1 s2 s3 e1 e2 e3 r1 r2 g3
          by (intro fail [of m3]) (simp_all add: map_page_def)
      next
        case (Some pt)
        have "rd_entry m3 (pml4 m) (PML4_INDEX va) = rd_entry m1 (pml4 m) (PML4_INDEX va)"
        proof (rule growsD(5) [of m1 m3 "[]"])
          show "grows m1 m3" using s2 s3 grows_trans by blast
          show "table_at m1 [] = Some (pml4 m)" using ensure_table_frame(1) [OF e1] by simp
          show "next_table m1 (pml4 m) (PML4_INDEX va) \<noteq> None"
            using t1(2) ensure_table_frame(1) [OF e1] table_at_snoc [of m1 "[]"] by simp
        qed simp_all
        then show thesis using Some s1 s2 s3 e1 e2 e3 r1 r2 g3
          by (intro success [of pt m3]) (auto simp: map_page_def find_pt_table_at walk_path_def)
      qed
    qed
  qed
qed

lemma pt_ok_flush [simp]: "pt_ok (flush_tlb_single a m) = pt_ok m"
proof -
  have "next_table (flush_tlb_single a m) = next_table m" by (simp add: next_table_def fun_eq_iff)
  then have "descend (flush_tlb_single a m) t p = descend m t p" for t p
    by (induction p arbitrary: t) (simp_all split: option.splits)
  then show ?thesis by (simp add: pt_ok_def table_at_def pool_ok_def in_free_pool_def)
qed

lemma lookup_flush [simp]: "lookup_pte (flush_tlb_single a m) va = lookup_pte m va"
  by (simp add: lookup_pte_def find_pt_def next_table_def)

text \<open>One leaf write followed by the flush of that page, as all three operations end.\<close>

abbreviation set_leaf :: "u64 \<Rightarrow> u64 \<Rightarrow> u64 \<Rightarrow> mm \<Rightarrow> mm" where
  "set_leaf va pt e m \<equiv> flush_tlb_single (page_base va) (wr_entry pt (PT_INDEX va) e m)"

lemma set_leaf_ok:
  assumes "pt_ok m" "find_pt m va = Some pt"
  shows "pt_ok (set_leaf va pt e m)"
    and "lookup_pte (set_leaf va pt e m) va' =
      (if vpage_of va' = vpage_of va then (if e AND PAGE_PRESENT = 0 then None else Some e)
       else lookup_pte m va')"
  using assms pt_ok_wr_leaf [OF assms(1) path_ok_walk(1) path_ok_walk(5)] lookup_wr_leaf [OF assms]
  by (simp_all add: find_pt_table_at)

lemma set_leaf_coherent:
  assumes "pt_ok m" "find_pt m va = Some pt" "tlb_coherent m"
  shows "tlb_coherent (set_leaf va pt e m)"
  using assms(3) set_leaf_ok(2) [OF assms(1,2)] by (simp add: tlb_coherent_def)

lemma grows_coherent: "grows m m' \<Longrightarrow> tlb_coherent m \<Longrightarrow> tlb_coherent m'"
  unfolding tlb_coherent_def using growsD(2,4) [of m m'] by auto

lemma find_pt_page_base [simp]: "find_pt m (page_base va) = find_pt m va"
  by (simp add: find_pt_table_at walk_path_def)

lemma map_page_coherent:
  assumes "pt_ok m" "tlb_coherent m"
  shows "tlb_coherent (snd (map_page va pa fl m))"
  using assms(1)
proof (cases rule: map_page_cases [where va = va and pa = pa and fl = fl])
  case (fail m')
  then show ?thesis using assms(2) by (auto intro: grows_coherent)
next
  case (success m' pt)
  then show ?thesis
    using assms(2) growsD(1) [OF success(2)] by (auto intro!: set_leaf_coherent intro: grows_coherent)
qed

lemma map_page_ok:
  assumes "pt_ok m"
  shows "pt_ok (snd (map_page va pa fl m))"
  using assms
proof (cases rule: map_page_cases [where va = va and pa = pa and fl = fl])
  case (fail m')
  then show ?thesis by (simp add: growsD(1))
next
  case (success m' pt)
  then show ?thesis using set_leaf_ok(1) [OF growsD(1) [OF success(2)] success(3)] by simp
qed

lemma lookup_pte_cong: "vpage_of va' = vpage_of va \<Longrightarrow> lookup_pte m va' = lookup_pte m va"
  unfolding walk_path_eq lookup_pte_def find_pt_table_at by (elim conjE) (simp only:)

definition user_accessible :: "mm \<Rightarrow> u64 \<Rightarrow> bool" where
  "user_accessible m va \<longleftrightarrow>
     (let e4 = rd_entry m (pml4 m) (PML4_INDEX va);
          e3 = rd_entry m (page_base e4) (PDPT_INDEX va);
          e2 = rd_entry m (page_base e3) (PD_INDEX va);
          e1 = rd_entry m (page_base e2) (PT_INDEX va)
      in \<forall>e\<in>{e4, e3, e2, e1}. e AND PAGE_PRESENT \<noteq> 0 \<and> e AND PAGE_USER \<noteq> 0)"

lemma map_page_lookup:
  assumes "pt_ok m" and "fst (map_page va pa fl m) = 0"
  shows "lookup_pte (snd (map_page va pa fl m)) va = Some (page_base pa OR fl OR PAGE_PRESENT)"
  using assms(1)
proof (cases rule: map_page_cases [where va = va and pa = pa and fl = fl])
  case (fail m')
  then show ?thesis using assms(2) by simp
next
  case (success m' pt)
  have "(page_base pa OR fl OR PAGE_PRESENT) AND PAGE_PRESENT \<noteq> 0" by (simp add: present_bit bit_or_iff)
  then show ?thesis using success set_leaf_ok(2) [OF growsD(1) [OF success(2)] success(3)] by simp
qed

lemma map_page_used:
  assumes "pt_ok m"
  shows "used m \<le> 65536 - 3 * 4096 \<Longrightarrow> fst (map_page va pa fl m) = 0"
    "fst (map_page va pa fl m) = 0 \<Longrightarrow> used (snd (map_page va pa fl m)) \<le> used m + 3 * 4096"
    "fst (map_page va pa fl m) = 0 \<Longrightarrow> find_pt (snd (map_page va pa fl m)) va \<noteq> None"
proof -
  consider (fail) "fst (map_page va pa fl m) = -1" "used m > 65536 - 3 * 4096"
    | (success) "fst (map_page va pa fl m) = 0" "used (snd (map_page va pa fl m)) \<le> used m + 3 * 4096"
        "find_pt (snd (map_page va pa fl m)) va \<noteq> None"
    using assms
  proof (cases rule: map_page_cases [where va = va and pa = pa and fl = fl])
    case (success m' pt)
    moreover have "lookup_pte (snd (map_page va pa fl m)) va = Some (page_base pa OR fl OR PAGE_PRESENT)"
      using success(1) by (intro map_page_lookup [OF assms]) simp
    ultimately show ?thesis using that(2) by (auto simp: lookup_pte_def split: option.splits)
  qed auto
  then show "used m \<le> 65536 - 3 * 4096 \<Longrightarrow> fst (map_page va pa fl m) = 0"
    "fst (map_page va pa fl m) = 0 \<Longrightarrow> used (snd (map_page va pa fl m)) \<le> used m + 3 * 4096"
    "fst (map_page va pa fl m) = 0 \<Longrightarrow> find_pt (snd (map_page va pa fl m)) va \<noteq> None"
    by (cases, auto)+
qed

section \<open>Properties\<close>

text \<open>A machine just after boot: an empty root table, an aligned pool.\<close>

definition sample_mm :: mm where
  "sample_mm = \<lparr>pml4 = 0x1000, heap_start = 0xFFFF800000000000, heap_end = 0xFFFF800000000000,
     heap_max = 0xFFFF8000FFFFFFFF, phys = (\<lambda>_. 0), next_free_page = 0x200000,
     pool_base = 0x10000, bootstrap_memory_used = 0, cr3 = 0x1000, tlb = Map.empty\<rparr>"

lemma sample_table_at: "table_at sample_mm p = Some t \<Longrightarrow> p = [] \<and> t = 0x1000"
  by (cases p) (auto simp: table_at_def sample_mm_def next_table_def rd_entry_def)

lemma sample_mm_ok: "pt_ok sample_mm" "tlb_coherent sample_mm"
proof -
  have "pool_ok sample_mm" "aligned (pml4 sample_mm)"
    by (simp_all add: pool_ok_def sample_mm_def aligned_def)
  moreover have "\<not> in_free_pool sample_mm 0x1000"
    by (simp add: in_free_pool_def sample_mm_def)
  ultimately show "pt_ok sample_mm" unfolding pt_ok_def by (auto dest!: sample_table_at)
  show "tlb_coherent sample_mm" by (simp add: tlb_coherent_def sample_mm_def)
qed

lemma sample_map_succeeds: "fst (map_page va pa fl sample_mm) = 0"
  using sample_mm_ok(1)
proof (cases rule: map_page_cases [where va = va and pa = pa and fl = fl])
  case (fail m')
  then show ?thesis by (simp add: sample_mm_def)
qed simp

lemma sample_unmapped: "lookup_pte sample_mm va = None"
  by (simp add: lookup_pte_def find_pt_def next_table_def rd_entry_def sample_mm_def)

text \<open>
  C6. Outcome of mapping a page. On success the walk for the page ends in exactly the entry
  that was asked for; whatever the outcome, every other page keeps its translation and the
  page tables stay well formed; failure is reported only when fewer than three tables are
  left in the bootstrap pool, and then no translation changes at all.
\<close>

theorem map_page_outcome:
  assumes "pt_ok m" and "map_page va pa fl m = (r, m')"
  shows "pt_ok m' \<and> (\<forall>va'. vpage_of va' \<noteq> vpage_of va \<longrightarrow> lookup_pte m' va' = lookup_pte m va') \<and>
    (r = 0 \<and> lookup_pte m' va = Some (page_base pa OR fl OR PAGE_PRESENT) \<or>
     r = -1 \<and> lookup_pte m' va = lookup_pte m va \<and> unat (bootstrap_memory_used m) > 65536 - 3 * 4096)"
  using assms(1)
proof (cases rule: map_page_cases [where va = va and pa = pa and fl = fl])
  case (fail m1)
  then show ?thesis using assms(2) growsD(1,2) [OF fail(2)] by simp
next
  case (success m1 pt)
  let ?e = "page_base pa OR fl OR PAGE_PRESENT"
  have "?e AND PAGE_PRESENT \<noteq> 0" by (simp add: present_bit bit_or_iff)
  then show ?thesis
    using assms(2) success set_leaf_ok [OF growsD(1) [OF success(2)] success(3), of ?e]
      growsD(2) [OF success(2)] by auto
qed

theorem map_page_outcome_witness:
  "lookup_pte (snd (map_page 0x400000 0x200000 2 sample_mm)) 0x400000 = Some 0x200003"
proof -
  have eq: "map_page 0x400000 0x200000 2 sample_mm = (0, snd (map_page 0x400000 0x200000 2 sample_mm))"
    using sample_map_succeeds by (metis prod.collapse)
  show ?thesis using map_page_outcome [OF sample_mm_ok(1) eq] by (simp add: page_base_def)
qed

text \<open>
  C24. Unmapping: it fails, changing nothing, exactly when the page is not mapped; otherwise the
  page is no longer mapped, no other page is affected, and the tables stay well formed.
\<close>

theorem unmap_page_outcome:
  assumes "pt_ok m" and "unmap_page va m = (r, m')"
  shows "pt_ok m' \<and>
    (lookup_pte m va = None \<and> r = -1 \<and> m' = m \<or>
     lookup_pte m va \<noteq> None \<and> r = 0 \<and>
     (\<forall>va'. lookup_pte m' va' = (if vpage_of va' = vpage_of va then None else lookup_pte m va')))"
proof (cases "find_pt m va")
  case None
  then show ?thesis using assms by (auto simp: unmap_page_def lookup_pte_def)
next
  case (Some pt)
  show ?thesis
  proof (cases "rd_entry m pt (PT_INDEX va) AND PAGE_PRESENT = 0")
    case True
    then show ?thesis using assms Some by (auto simp: unmap_page_def lookup_pte_def)
  next
    case False
    then have "r = 0" "m' = set_leaf va pt 0 m" "lookup_pte m va \<noteq> None"
      using assms(2) Some by (auto simp: unmap_page_def lookup_pte_def Let_def)
    then show ?thesis using set_leaf_ok [OF assms(1) Some, of 0] by simp
  qed
qed

theorem unmap_page_outcome_witness:
  "fst (unmap_page 0x400000 sample_mm) = -1 \<and>
   lookup_pte (snd (unmap_page 0x400000 (snd (map_page 0x400000 0x200000 2 sample_mm)))) 0x400FFF = None"
proof -
  let ?m = "snd (map_page 0x400000 0x200000 2 sample_mm)"
  have same: "vpage_of 0x400FFF = vpage_of 0x400000"
    by (simp add: vpage_of_def PML4_INDEX_def PDPT_INDEX_def PD_INDEX_def PT_INDEX_def)
  have "fst (unmap_page 0x400000 sample_mm) = -1"
    using unmap_page_outcome [OF sample_mm_ok(1) prod.collapse [symmetric], of "0x400000"] sample_unmapped
    by simp
  moreover have "lookup_pte (snd (unmap_page 0x400000 ?m)) 0x400FFF = None"
    using unmap_page_outcome [OF map_page_ok [OF sample_mm_ok(1)] prod.collapse [symmetric],
        of "0x400000" "0x400000" "0x200000" 2] same lookup_pte_cong [OF same] by auto
  ultimately show ?thesis by blast
qed

text \<open>
  Round trip: mapping a page that was not mapped and unmapping it again succeeds and gives
  back the translation of every address.
\<close>

theorem map_unmap_roundtrip:
  assumes "pt_ok m" and "lookup_pte m va = None" and "map_page va pa fl m = (0, m1)"
  shows "fst (unmap_page va m1) = 0 \<and> (\<forall>va'. lookup_pte (snd (unmap_page va m1)) va' = lookup_pte m va')"
proof -
  from assms(1) show ?thesis
  proof (cases rule: map_page_cases [where va = va and pa = pa and fl = fl])
    case (fail m')
    then show ?thesis using assms(3) by simp
  next
    case (success m' pt)
    let ?e = "page_base pa OR fl OR PAGE_PRESENT"
    note leaf = set_leaf_ok [OF growsD(1) [OF success(2)] success(3), of ?e]
    have m1: "m1 = set_leaf va pt ?e m'" using success(1) assms(3) by simp
    have "?e AND PAGE_PRESENT \<noteq> 0" by (simp add: present_bit bit_or_iff)
    then have "lookup_pte m1 va = Some ?e" using leaf(2) m1 by simp
    then obtain pt1 where pt1: "find_pt m1 va = Some pt1" "rd_entry m1 pt1 (PT_INDEX va) AND PAGE_PRESENT \<noteq> 0"
      by (auto simp: lookup_pte_def Let_def split: option.splits if_splits)
    then have un: "unmap_page va m1 = (0, set_leaf va pt1 0 m1)"
      by (simp add: unmap_page_def Let_def)
    have ok1: "pt_ok m1" using leaf(1) m1 by simp
    have "lookup_pte (set_leaf va pt1 0 m1) va' = lookup_pte m va'" for va'
    proof (cases "vpage_of va' = vpage_of va")
      case True
      then have "lookup_pte m va' = lookup_pte m va" by (rule lookup_pte_cong)
      then show ?thesis using set_leaf_ok(2) [OF ok1 pt1(1)] True assms(2) by simp
    next
      case False
      then show ?thesis
        using set_leaf_ok(2) [OF ok1 pt1(1)] leaf(2) m1 growsD(2) [OF success(2)] by simp
    qed
    then show ?thesis using un by simp
  qed
qed

theorem map_unmap_roundtrip_witness:
  "fst (unmap_page 0x400000 (snd (map_page 0x400000 0x200000 2 sample_mm))) = 0"
proof -
  have "lookup_pte sample_mm 0x400000 = None" by (rule sample_unmapped)
  moreover have "map_page 0x400000 0x200000 2 sample_mm = (0, snd (map_page 0x400000 0x200000 2 sample_mm))"
    using sample_map_succeeds by (metis prod.collapse)
  ultimately show ?thesis using map_unmap_roundtrip [OF sample_mm_ok(1)] by blast
qed

text \<open>
  \<open>set_page_flags\<close> on a mapped page keeps the frame and replaces the flags (the present bit
  is always set), for every flag value that fits below the address bits; on an unmapped page
  it returns -1 and changes nothing.
\<close>

theorem set_page_flags_outcome:
  assumes "pt_ok m" and "set_page_flags va fl m = (r, m')" and "fl < 4096"
  shows "case lookup_pte m va of
      None \<Rightarrow> r = -1 \<and> m' = m
    | Some e \<Rightarrow> r = 0 \<and> pt_ok m' \<and>
        (\<exists>e'. lookup_pte m' va = Some e' \<and> page_base e' = page_base e \<and> e' AND 0xFFF = fl OR PAGE_PRESENT) \<and>
        (\<forall>va'. vpage_of va' \<noteq> vpage_of va \<longrightarrow> lookup_pte m' va' = lookup_pte m va')"
proof (cases "lookup_pte m va")
  case None
  then show ?thesis using assms(2)
    by (auto simp: set_page_flags_def lookup_pte_def Let_def split: option.splits if_splits)
next
  case (Some e)
  then obtain pt where pt: "find_pt m va = Some pt" "rd_entry m pt (PT_INDEX va) = e" "e AND PAGE_PRESENT \<noteq> 0"
    by (auto simp: lookup_pte_def Let_def split: option.splits if_splits)
  let ?e = "page_base e OR fl OR PAGE_PRESENT"
  have "r = 0" "m' = set_leaf va pt ?e m"
    using assms(2) pt by (auto simp: set_page_flags_def Let_def)
  moreover have "?e AND PAGE_PRESENT \<noteq> 0" by (simp add: present_bit bit_or_iff)
  moreover have "page_base ?e = page_base e" "?e AND 0xFFF = fl OR PAGE_PRESENT"
    using lt_4096_bits [OF assms(3)]
    by (fastforce intro!: bit_eqI simp: bit_page_base bit_or_iff bit_and_FFF bit_1_iff)+
  ultimately show ?thesis using Some set_leaf_ok [OF assms(1) pt(1), of ?e] by simp
qed

theorem set_page_flags_outcome_witness:
  "fst (set_page_flags 0x400123 1 sample_mm) = -1 \<and>
   (let m = snd (map_page 0x400000 0x200000 3 sample_mm);
        m' = snd (set_page_flags 0x400123 1 m)
    in \<exists>e. lookup_pte m' 0x400123 = Some e \<and> page_base e = 0x200000 \<and> e AND 0xFFF = 1)"
proof -
  let ?m = "snd (map_page 0x400000 0x200000 3 sample_mm)"
  have same: "vpage_of 0x400123 = vpage_of 0x400000"
    by (simp add: vpage_of_def PML4_INDEX_def PDPT_INDEX_def PD_INDEX_def PT_INDEX_def)
  have eq: "lookup_pte ?m 0x400123 = Some 0x200003"
    using map_page_lookup [OF sample_mm_ok(1) sample_map_succeeds] lookup_pte_cong [OF same]
    by (simp add: page_base_def)
  have "fst (set_page_flags 0x400123 1 sample_mm) = -1"
    using set_page_flags_outcome [OF sample_mm_ok(1) prod.collapse [symmetric], of 1 "0x400123"]
      sample_unmapped by simp
  then show ?thesis
    using set_page_flags_outcome [OF map_page_ok [OF sample_mm_ok(1)] prod.collapse [symmetric],
        of 1 "0x400123" "0x400000" "0x200000" 3] eq by (simp add: Let_def page_base_def)
qed

text \<open>
  C25. Coherence of the look-aside buffer: if every cached translation agrees with the tables
  before \<open>map_page\<close>, \<open>unmap_page\<close> or \<open>set_page_flags\<close>, then it does afterwards, on success and
  on failure.
\<close>

theorem tlb_stays_coherent:
  assumes "pt_ok m" and "tlb_coherent m"
  shows "tlb_coherent (snd (map_page va pa fl m)) \<and> tlb_coherent (snd (unmap_page va m)) \<and>
    tlb_coherent (snd (set_page_flags va fl m))"
proof (intro conjI)
  show "tlb_coherent (snd (map_page va pa fl m))" using assms by (rule map_page_coherent)
  show "tlb_coherent (snd (unmap_page va m))"
    using assms set_leaf_coherent [OF assms(1)]
    by (auto simp: unmap_page_def Let_def split: option.splits)
  show "tlb_coherent (snd (set_page_flags va fl m))"
    using assms set_leaf_coherent [OF assms(1)]
    by (auto simp: set_page_flags_def Let_def split: option.splits)
qed

theorem tlb_stays_coherent_witness:
  "tlb_coherent (snd (map_page 0x400000 0x200000 3 sample_mm))"
  using tlb_stays_coherent [OF sample_mm_ok] by blast

text \<open>
  A page mapped below a root entry that was not present is not reachable from user mode,
  whatever flags the caller passes: the upper-level entries that \<open>map_page\<close> installs carry
  only the present and writable bits, and the processor requires the user bit at every level.
\<close>

theorem fresh_user_page_unreachable:
  assumes "pt_ok m" and "rd_entry m (pml4 m) (PML4_INDEX va) AND PAGE_PRESENT = 0"
    and "map_page va pa fl m = (0, m')"
  shows "\<not> user_accessible m' va"
  using assms(1)
proof (cases rule: map_page_cases [where va = va and pa = pa and fl = fl])
  case (fail m1)
  then show ?thesis using assms(3) by simp
next
  case (success m1 pt)
  have none: "next_table m (pml4 m) (PML4_INDEX va) = None" using assms(2) by (simp add: next_table_def)
  obtain n where n: "aligned n" "rd_entry m1 (pml4 m) (PML4_INDEX va) = n OR 3"
    using success(5) [OF none] by blast
  have ok: "pt_ok m1" using growsD(1) [OF success(2)] .
  have root: "pml4 m1 = pml4 m" using growsD(3) [OF success(2), of "[]"] by simp
  have pt: "table_at m1 (walk_path va) = Some pt" using success(3) by (simp add: find_pt_table_at)
  then have "pt \<noteq> pml4 m1"
    using pt_okD(3) [OF ok path_ok_walk(1,2) pt] by (auto simp: walk_path_def)
  then have "rd_entry m' (pml4 m') (PML4_INDEX va) = n OR 3"
    using success(1) assms(3) n(2) root pt_okD(5) [OF ok pt] pt_okD(1) [OF ok] by (auto simp: rd_wr_entry)
  moreover have "(n OR 3) AND PAGE_USER = 0"
  proof -
    have "(n OR 3) AND PAGE_USER = (n AND 0xFFF) AND PAGE_USER"
      by (simp add: and.assoc bit.conj_disj_distrib2)
    then show ?thesis using n(1) by (simp add: aligned_def)
  qed
  ultimately show ?thesis by (simp add: user_accessible_def Let_def)
qed

theorem fresh_user_page_unreachable_witness:
  "\<not> user_accessible (snd (map_page 0x400000 0x200000 7 sample_mm)) 0x400000"
proof -
  have eq: "map_page 0x400000 0x200000 7 sample_mm = (0, snd (map_page 0x400000 0x200000 7 sample_mm))"
    using sample_map_succeeds by (metis prod.collapse)
  show ?thesis
    by (rule fresh_user_page_unreachable [OF sample_mm_ok(1) _ eq]) (simp add: sample_mm_def rd_entry_def)
qed

abbreviation vm_globals :: "mm \<Rightarrow> u64 \<times> u64 \<times> u64 \<times> u64 \<times> u64 \<times> u64 \<times> u64" where
  "vm_globals m \<equiv> (pml4 m, heap_start m, heap_end m, heap_max m, next_free_page m, pool_base m, cr3 m)"

lemma map_page_globals: "vm_globals (snd (map_page va pa fl m)) = vm_globals m"
proof -
  have ens: "vm_globals m' = vm_globals m" if "ensure_table t i m = (r, m')" for t i m r m'
    using ensure_table_frame [OF that] by simp
  show ?thesis
    unfolding map_page_def Let_def
    by (auto simp: wr_entry_def flush_tlb_single_def split: prod.splits option.splits) (auto dest!: ens)
qed

lemma map_page_frame [simp]:
  "pml4 (snd (map_page va pa fl m)) = pml4 m" "heap_start (snd (map_page va pa fl m)) = heap_start m"
  "heap_end (snd (map_page va pa fl m)) = heap_end m" "heap_max (snd (map_page va pa fl m)) = heap_max m"
  "next_free_page (snd (map_page va pa fl m)) = next_free_page m"
  "pool_base (snd (map_page va pa fl m)) = pool_base m" "cr3 (snd (map_page va pa fl m)) = cr3 m"
  using map_page_globals [of va pa fl m] by simp_all

lemma map_page_result: "fst (map_page va pa fl m) \<in> {0, -1}"
  by (auto simp: map_page_def Let_def split: prod.splits option.splits)

lemma map_page_other:
  assumes "pt_ok m" "vpage_of va' \<noteq> vpage_of va"
  shows "lookup_pte (snd (map_page va pa fl m)) va' = lookup_pte m va'"
  using assms(1)
proof (cases rule: map_page_cases [where va = va and pa = pa and fl = fl])
  case (fail m')
  then show ?thesis by (simp add: growsD(2))
next
  case (success m' pt)
  then show ?thesis
    using assms(2) set_leaf_ok(2) [OF growsD(1) [OF success(2)] success(3)] growsD(2) [OF success(2)] by simp
qed

section \<open>Sequences of mappings\<close>

text \<open>
  The callers of \<open>map_page\<close> (the heap, stacks, program segments) map a run of pages and stop
  at the first failure. The locale states what they rely on.
\<close>

fun map_seq :: "(u64 \<Rightarrow> u64 \<Rightarrow> u64 \<Rightarrow> 's \<Rightarrow> int \<times> 's) \<Rightarrow> (u64 \<times> u64 \<times> u64) list \<Rightarrow> 's \<Rightarrow> int \<times> 's" where
  "map_seq mp [] s = (0, s)"
| "map_seq mp ((va, pa, fl) # rs) s =
     (case mp va pa fl s of (r, s1) \<Rightarrow> if r \<noteq> 0 then (r, s1) else map_seq mp rs s1)"

locale address_space =
  fixes ok :: "'s \<Rightarrow> bool" and look :: "'s \<Rightarrow> u64 \<Rightarrow> u64 option"
    and mp :: "u64 \<Rightarrow> u64 \<Rightarrow> u64 \<Rightarrow> 's \<Rightarrow> int \<times> 's"
  assumes mp_ok: "ok s \<Longrightarrow> ok (snd (mp va pa fl s))"
    and mp_same: "ok s \<Longrightarrow> fst (mp va pa fl s) = 0 \<Longrightarrow>
      look (snd (mp va pa fl s)) va = Some (page_base pa OR fl OR PAGE_PRESENT)"
    and mp_other: "ok s \<Longrightarrow> vpage_of va' \<noteq> vpage_of va \<Longrightarrow> look (snd (mp va pa fl s)) va' = look s va'"
begin

lemma seq_ok: "ok s \<Longrightarrow> ok (snd (map_seq mp rs s))"
proof (induction rs arbitrary: s)
  case (Cons r rs)
  obtain va pa fl where "r = (va, pa, fl)" by (cases r)
  then show ?case using Cons mp_ok [of s va pa fl] by (auto split: prod.split)
qed simp

lemma seq_other:
  "ok s \<Longrightarrow> vpage_of va \<notin> (vpage_of \<circ> fst) ` set rs \<Longrightarrow> look (snd (map_seq mp rs s)) va = look s va"
proof (induction rs arbitrary: s)
  case (Cons r rs)
  obtain va' pa fl where r: "r = (va', pa, fl)" by (cases r)
  have "vpage_of va \<noteq> vpage_of va'" using Cons.prems(2) r by auto
  then show ?case
    using Cons r mp_ok [of s va' pa fl] mp_other [of s va va' pa fl] by (auto split: prod.split)
qed simp

lemma seq_mapped:
  assumes "ok s" "distinct (map (vpage_of \<circ> fst) rs)" "fst (map_seq mp rs s) = 0" "(va, pa, fl) \<in> set rs"
  shows "look (snd (map_seq mp rs s)) va = Some (page_base pa OR fl OR PAGE_PRESENT)"
  using assms
proof (induction rs arbitrary: s)
  case (Cons r rs)
  obtain va' pa' fl' where r: "r = (va', pa', fl')" by (cases r)
  obtain x s1 where s1: "mp va' pa' fl' s = (x, s1)" by fastforce
  have "x = 0" and rest: "fst (map_seq mp rs s1) = 0" using Cons.prems(3) r s1 by (auto split: if_splits)
  then have step: "map_seq mp (r # rs) s = map_seq mp rs s1" and ok1: "ok s1"
    using r s1 mp_ok [OF Cons.prems(1), of va' pa' fl'] by auto
  show ?case
  proof (cases "(va, pa, fl) = r")
    case True
    have "vpage_of (fst r) \<notin> (vpage_of \<circ> fst) ` set rs" using Cons.prems(2) by simp
    then have "vpage_of va \<notin> (vpage_of \<circ> fst) ` set rs" using True by (metis fst_conv)
    then show ?thesis
      using step seq_other [OF ok1] mp_same [OF Cons.prems(1), of va' pa' fl'] s1 \<open>x = 0\<close> True r by simp
  next
    case False
    then show ?thesis using Cons.IH [OF ok1 _ rest] Cons.prems(2,4) step by auto
  qed
qed simp

end

interpretation vm: address_space pt_ok lookup_pte map_page
  by unfold_locales (rule map_page_ok, assumption, rule map_page_lookup, assumption+, rule map_page_other)

text \<open>
  Mapping a run of distinct pages, stopping at the first failure: the tables stay well
  formed, no page outside the run is affected, and if the run reports success every page of it
  translates to the frame and flags it was given.
\<close>

theorem map_run_outcome:
  assumes "pt_ok m" and "distinct (map (vpage_of \<circ> fst) rs)" and "map_seq map_page rs m = (r, m')"
  shows "pt_ok m' \<and> (\<forall>va. vpage_of va \<notin> (vpage_of \<circ> fst) ` set rs \<longrightarrow> lookup_pte m' va = lookup_pte m va) \<and>
    (r = 0 \<longrightarrow> (\<forall>(va, pa, fl)\<in>set rs. lookup_pte m' va = Some (page_base pa OR fl OR PAGE_PRESENT)))"
  using vm.seq_ok [OF assms(1), of rs] vm.seq_other [OF assms(1), of _ rs]
    vm.seq_mapped [OF assms(1,2)] assms(3) by auto

theorem map_run_outcome_witness:
  "let m = snd (map_seq map_page [(0x400000, 0x200000, 3), (0x401000, 0x201000, 3)] sample_mm)
   in pt_ok m \<and> lookup_pte m 0x401000 = Some 0x201003 \<and> lookup_pte m 0x800000 = None"
proof -
  let ?rs = "[(0x400000, 0x200000, 3), (0x401000, 0x201000, 3)] :: (u64 \<times> u64 \<times> u64) list"
  let ?m1 = "snd (map_page 0x400000 0x200000 3 sample_mm)"
  have d: "distinct (map (vpage_of \<circ> fst) ?rs)"
    by (simp add: vpage_of_def PT_INDEX_def)
  have o: "vpage_of 0x800000 \<notin> (vpage_of \<circ> fst) ` set ?rs"
    by (simp add: vpage_of_def PD_INDEX_def)
  have "used ?m1 \<le> 3 * 4096"
    using map_page_used(2) [OF sample_mm_ok(1) sample_map_succeeds, of "0x400000" "0x200000" 3]
    by (simp add: sample_mm_def)
  then have "fst (map_page 0x401000 0x201000 3 ?m1) = 0"
    by (intro map_page_used(1) map_page_ok sample_mm_ok) simp
  then have ok: "fst (map_seq map_page ?rs sample_mm) = 0"
    using sample_map_succeeds [of "0x400000" "0x200000" 3] by (auto split: prod.splits)
  show ?thesis
    using map_run_outcome [OF sample_mm_ok(1) d prod.collapse [symmetric]] ok o sample_unmapped
    unfolding Let_def by (auto simp: page_base_def)
qed

section \<open>The bump allocators\<close>

text \<open>Successive results of \<open>alloc_physical_page\<close>.\<close>

fun alloc_pages :: "nat \<Rightarrow> mm \<Rightarrow> u64 list \<times> mm" where
  "alloc_pages 0 m = ([], m)"
| "alloc_pages (Suc n) m =
     (let (p, m1) = alloc_physical_page m; (ps, m2) = alloc_pages n m1 in (p # ps, m2))"

lemma page_round_up:
  assumes "unat a + 4095 < 2 ^ 64"
  shows "unat (page_base (a + PAGE_SIZE - 1)) = (unat a + 4095) div 4096 * 4096"
proof -
  have "a + PAGE_SIZE - 1 = a + 4095" by simp
  then show ?thesis using assms by (simp add: unat_page_base unat_add_small)
qed

lemma alloc_physical_page_spec:
  assumes "unat (next_free_page m) + 8192 \<le> 2 ^ 64" "next_free_page m \<noteq> 0"
    and "alloc_physical_page m = (p, m')"
  shows "aligned p" "p \<noteq> NULL" "unat (next_free_page m) \<le> unat p"
    "unat p < unat (next_free_page m) + 4096" "unat (next_free_page m') = unat p + 4096"
    "m' = m\<lparr>next_free_page := p + 4096\<rparr>"
proof -
  let ?a = "next_free_page m"
  have p: "p = page_base (?a + PAGE_SIZE - 1)"
    using assms(3) by (simp add: alloc_physical_page_def Let_def)
  show m': "m' = m\<lparr>next_free_page := p + 4096\<rparr>"
    using assms(3) by (auto simp: alloc_physical_page_def Let_def)
  have up: "unat p = (unat ?a + 4095) div 4096 * 4096" using assms(1) page_round_up p by simp
  show "aligned p" using p by simp
  show le: "unat ?a \<le> unat p" and lt: "unat p < unat ?a + 4096"
    unfolding up using div_mult_mod_eq [of "unat ?a + 4095" 4096] mod_less_divisor [of 4096 "unat ?a + 4095"]
    by linarith+
  show "p \<noteq> NULL" using le assms(2) by (auto simp: word_unat_eq_iff)
  show "unat (next_free_page m') = unat p + 4096"
    using lt assms(1) m' by (simp add: unat_add_small)
qed

lemma alloc_physical_page_aligned:
  assumes "aligned (next_free_page m)"
  shows "alloc_physical_page m = (next_free_page m, m\<lparr>next_free_page := next_free_page m + 4096\<rparr>)"
proof -
  have "page_base (next_free_page m + PAGE_SIZE - 1) = next_free_page m"
  proof -
    have "page_base (next_free_page m + 4095) = next_free_page m" by (rule page_base_add [OF assms]) simp
    then show ?thesis by (simp add: add.commute)
  qed
  then show ?thesis by (simp only: alloc_physical_page_def Let_def)
qed

lemma alloc_pages_eq:
  assumes "aligned (next_free_page m)"
  shows "alloc_pages n m =
    (map (\<lambda>i. next_free_page m + 4096 * of_nat i) [0..<n], m\<lparr>next_free_page := next_free_page m + 4096 * of_nat n\<rparr>)"
  using assms
proof (induction n arbitrary: m)
  case (Suc n)
  have "aligned (next_free_page m + 4096)"
    using Suc.prems by (intro aligned_add) (simp_all add: aligned_def)
  then show ?case using Suc
    by (simp add: alloc_physical_page_aligned map_upt_Suc algebra_simps del: upt_Suc)
qed simp

text \<open>
  From the page counter that the kernel starts with, a run of \<open>n\<close> calls of
  \<open>alloc_physical_page\<close> returns \<open>n\<close> consecutive frames: aligned, pairwise distinct, and never
  null, up to the end of the 64-bit address space.
\<close>

theorem physical_pages_distinct:
  assumes "aligned (next_free_page m)" and "next_free_page m \<noteq> NULL"
    and "unat (next_free_page m) + 4096 * n \<le> 2 ^ 64" and "alloc_pages n m = (ps, m')"
  shows "length ps = n \<and> distinct ps \<and>
    (\<forall>i<n. aligned (ps ! i) \<and> ps ! i \<noteq> NULL \<and> unat (ps ! i) = unat (next_free_page m) + 4096 * i)"
proof -
  let ?f = "\<lambda>i. next_free_page m + 4096 * of_nat i :: u64"
  have ps: "ps = map ?f [0..<n]" using assms(1,4) by (simp add: alloc_pages_eq)
  have f: "unat (?f i) = unat (next_free_page m) + 4096 * i" if "i < n" for i
  proof -
    have "unat (4096 * of_nat i :: u64) = 4096 * i"
      using that assms(3) by (simp add: unat_mult_small unat_of_nat_small)
    then show ?thesis using that assms(3) by (subst unat_add_small) auto
  qed
  have "inj_on ?f {0..<n}"
  proof (rule inj_onI)
    fix i j assume "i \<in> {0..<n}" "j \<in> {0..<n}" "?f i = ?f j"
    then have "unat (next_free_page m) + 4096 * i = unat (next_free_page m) + 4096 * j"
      by (simp only: f [symmetric] atLeastLessThan_iff)
    then show "i = j" by simp
  qed
  moreover have "aligned (?f i)" "?f i \<noteq> NULL" if "i < n" for i
  proof -
    have "4096 dvd unat (?f i)" using f [OF that] assms(1) by (simp add: aligned_unat)
    then show "aligned (?f i)" by (simp add: aligned_unat)
    show "?f i \<noteq> NULL" using f [OF that] assms(2) by (metis add_is_0 unat_eq_0)
  qed
  ultimately show ?thesis using ps f by (simp add: distinct_map)
qed

theorem physical_pages_distinct_witness:
  "distinct (fst (alloc_pages 1024 sample_mm)) \<and> fst (alloc_pages 1024 sample_mm) ! 3 = 0x203000"
proof -
  have "aligned (next_free_page sample_mm)" "next_free_page sample_mm \<noteq> NULL"
    "unat (next_free_page sample_mm) + 4096 * 1024 \<le> 2 ^ 64"
    by (simp_all add: sample_mm_def aligned_def)
  note * = physical_pages_distinct [OF this prod.collapse [symmetric]]
  from * have "unat (fst (alloc_pages 1024 sample_mm) ! 3) = 0x203000" by (simp add: sample_mm_def)
  with * show ?thesis by (simp add: word_unat_eq_iff)
qed

text \<open>
  \<open>bootstrap_alloc\<close> hands out disjoint chunks of its pool for every request up to the
  pool size: a non-null result lies inside the pool behind everything handed out before, and
  null is returned, without a change, exactly when the rounded request does not fit.
\<close>

theorem bootstrap_alloc_in_pool:
  assumes "unat (bootstrap_memory_used m) \<le> 65536" and "unat size0 \<le> 65536"
    and "unat (pool_base m) + 65536 < 2 ^ 64" and "pool_base m \<noteq> NULL"
    and "bootstrap_alloc size0 m = (p, m')"
  shows "if unat (bootstrap_memory_used m) + (unat size0 + 3) div 4 * 4 \<le> 65536
    then unat p = unat (pool_base m) + unat (bootstrap_memory_used m) \<and> p \<noteq> NULL \<and>
      unat (bootstrap_memory_used m') = unat (bootstrap_memory_used m) + (unat size0 + 3) div 4 * 4
    else p = NULL \<and> m' = m"
proof -
  let ?u = "unat (bootstrap_memory_used m)" and ?s = "(size0 + 3) AND NOT 3"
  have s: "unat ?s = (unat size0 + 3) div 4 * 4" using assms(2) by (intro unat_round4) simp_all
  have sle: "unat ?s \<le> 65536" unfolding s using assms(2) by simp
  then have add: "unat (bootstrap_memory_used m + ?s) = ?u + unat ?s"
    using assms(1) by (simp add: unat_add_small)
  show ?thesis
  proof (cases "?u + unat ?s \<le> 65536")
    case True
    have uc: "unat (ucast (bootstrap_memory_used m) :: u64) = ?u"
      by (simp add: unsigned_ucast_eq take_bit_nat_eq_self unsigned_less [THEN order.strict_trans])
    have ps: "p = pool_base m + ucast (bootstrap_memory_used m)" "bootstrap_memory_used m' = bootstrap_memory_used m + ?s"
      using assms(5) True add by (auto simp: bootstrap_alloc_def Let_def word_less_nat_alt split: if_splits)
    have "unat p = unat (pool_base m) + ?u"
      using assms(3) True uc ps(1) 
      by (subst ps(1), subst unat_add_small) simp_all
    moreover have "p \<noteq> NULL" using calculation assms(4) by (metis add_is_0 unat_eq_0)
    ultimately show ?thesis using ps(2) add True s by simp
  next
    case False
    then show ?thesis using assms(5) add s by (auto simp: bootstrap_alloc_def Let_def word_less_nat_alt)
  qed
qed

theorem bootstrap_alloc_in_pool_witness:
  "fst (bootstrap_alloc 4096 sample_mm) = 0x10000 \<and>
   fst (bootstrap_alloc 10 (sample_mm\<lparr>bootstrap_memory_used := 65530\<rparr>)) = NULL"
proof -
  let ?full = "sample_mm\<lparr>bootstrap_memory_used := 65530\<rparr>"
  have "unat (fst (bootstrap_alloc 4096 sample_mm)) = 0x10000"
    using bootstrap_alloc_in_pool [of sample_mm 4096 "fst (bootstrap_alloc 4096 sample_mm)"
        "snd (bootstrap_alloc 4096 sample_mm)"]
    by (simp add: sample_mm_def)
  moreover have "fst (bootstrap_alloc 10 ?full) = NULL"
    using bootstrap_alloc_in_pool [of ?full 10 "fst (bootstrap_alloc 10 ?full)"
        "snd (bootstrap_alloc 10 ?full)"]
    by (simp add: sample_mm_def)
  ultimately show ?thesis by (simp add: word_unat_eq_iff)
qed

lemma zero_table_outside:
  assumes "unat t + 4096 \<le> 2 ^ 64" "unat a < unat t \<or> unat t + 4096 \<le> unat a"
  shows "phys (zero_table t m) a = phys m a"
proof -
  have "a \<noteq> t + 8 * of_nat i" if "i < 512" for i
  proof
    assume a: "a = t + 8 * of_nat i"
    have "unat (8 * of_nat i :: u64) = 8 * i" using that by (simp add: unat_mult_small unat_of_nat_small)
    then have "unat a = unat t + 8 * i" using a that assms(1) by (simp add: unat_add_small)
    then show False using assms(2) that by auto
  qed
  then show ?thesis by (auto simp: zero_table_eq)
qed

lemma zero_table_same:
  assumes "unat t + 4096 \<le> 2 ^ 64" "\<forall>a. phys m a \<noteq> 0 \<longrightarrow> unat a < unat t \<or> unat t + 4096 \<le> unat a"
  shows "zero_table t m = m"
proof -
  have "phys (zero_table t m) a = phys m a" for a
    using assms zero_table_outside [OF assms(1)] by (cases "phys m a = 0") (auto simp: zero_table_eq)
  then have "phys (zero_table t m) = phys m" by (rule ext)
  then show ?thesis by (simp add: zero_table_eq)
qed

text \<open>
  The alignment of the pool matters: with \<open>bootstrap_memory_pool\<close> placed at an address
  that is not a multiple of the page size (it is declared as a plain byte array), \<open>map_page\<close>
  reports success and yet the page is not mapped, because table addresses are read back with
  their low twelve bits cleared.
\<close>

theorem map_page_unaligned_pool:
  "fst (map_page 0x400000 0x200000 2 (sample_mm\<lparr>pool_base := 0x10020\<rparr>)) = 0 \<and>
   lookup_pte (snd (map_page 0x400000 0x200000 2 (sample_mm\<lparr>pool_base := 0x10020\<rparr>))) 0x400000 = None"
proof -
  have idx: "PML4_INDEX 0x400000 = 0" "PDPT_INDEX 0x400000 = 0" "PD_INDEX 0x400000 = 2" "PT_INDEX 0x400000 = 0"
    by (simp_all add: PML4_INDEX_def PDPT_INDEX_def PD_INDEX_def PT_INDEX_def)
  have base: "page_base 0x400000 = 0x400000" "page_base 0x200000 = 0x200000" "page_base 0x10023 = 0x10000"
    by (simp_all add: page_base_def)
  show ?thesis
    by (simp add: map_page_def ensure_table_def bootstrap_alloc_def rd_entry_def wr_entry_def
        zero_table_same flush_tlb_def flush_tlb_single_def sample_mm_def idx base
        lookup_pte_def find_pt_def next_table_def cong: if_cong)
qed

end
