(* ===== verification/Byte_Memory.thy ===== *)
theory Byte_Memory
  imports Kaviz_Prelude
begin

text \<open>
  Byte-addressed memory with little-endian 32-bit and 64-bit accesses, as the C and assembly
  code sees it. All facts about overlapping and separate accesses that the heap and the
  context switch need are proved here once.
\<close>

type_synonym mem = "u64 \<Rightarrow> u8"

fun rd_le :: "nat \<Rightarrow> u64 \<Rightarrow> mem \<Rightarrow> nat" where
  "rd_le 0 a m = 0"
| "rd_le (Suc n) a m = unat (m a) + 256 * rd_le n (a + 1) m"

fun wr_le :: "nat \<Rightarrow> u64 \<Rightarrow> nat \<Rightarrow> mem \<Rightarrow> mem" where
  "wr_le 0 a v m = m"
| "wr_le (Suc n) a v m = wr_le n (a + 1) (v div 256) (m(a := of_nat (v mod 256)))"

definition rd32 :: "mem \<Rightarrow> u64 \<Rightarrow> u32" where "rd32 m a = of_nat (rd_le 4 a m)"
definition rd64 :: "mem \<Rightarrow> u64 \<Rightarrow> u64" where "rd64 m a = of_nat (rd_le 8 a m)"
definition wr32 :: "u64 \<Rightarrow> u32 \<Rightarrow> mem \<Rightarrow> mem" where "wr32 a v m = wr_le 4 a (unat v) m"
definition wr64 :: "u64 \<Rightarrow> u64 \<Rightarrow> mem \<Rightarrow> mem" where "wr64 a v m = wr_le 8 a (unat v) m"

lemma wr_le_outside:
  "(\<And>i. i < n \<Longrightarrow> x \<noteq> a + of_nat i) \<Longrightarrow> wr_le n a v m x = m x"
proof (induction n arbitrary: a v m)
  case (Suc n)
  have "x \<noteq> (a + 1) + of_nat i" if "i < n" for i
    using Suc.prems [of "Suc i"] that by (simp add: add.assoc)
  moreover have "x \<noteq> a" using Suc.prems [of 0] by simp
  ultimately show ?case using Suc.IH by simp
qed simp

lemma rd_le_cong:
  "(\<And>i. i < n \<Longrightarrow> m (a + of_nat i) = m' (a + of_nat i)) \<Longrightarrow> rd_le n a m = rd_le n a m'"
proof (induction n arbitrary: a)
  case (Suc n)
  have "m ((a + 1) + of_nat i) = m' ((a + 1) + of_nat i)" if "i < n" for i
    using Suc.prems [of "Suc i"] that by (simp add: add.assoc)
  then have "rd_le n (a + 1) m = rd_le n (a + 1) m'" by (rule Suc.IH)
  then show ?case using Suc.prems [of 0] by simp
qed simp

lemma rd_wr_le_same:
  assumes "n \<le> 8"
  shows "rd_le n a (wr_le n a v m) = v mod 256 ^ n"
  using assms
proof (induction n arbitrary: a v m)
  case (Suc n)
  have "a \<noteq> (a + 1) + of_nat i" if "i < n" for i
  proof
    assume "a = (a + 1) + of_nat i"
    then have "(1 + of_nat i :: u64) = 0" by (simp add: add.assoc)
    then have "(of_nat (Suc i) :: u64) = of_nat 0" by simp
    then show False using that Suc.prems by (subst (asm) of_nat_u64_inj) auto
  qed
  then have "wr_le (Suc n) a v m a = of_nat (v mod 256)"
    by (simp add: wr_le_outside)
  then show ?case using Suc by (simp add: unat_of_nat_small mod_mult2_eq)
qed simp


section \<open>Separate accesses\<close>

definition span :: "u64 \<Rightarrow> nat \<Rightarrow> u64 set" where
  "span a n = (\<lambda>i. a + of_nat i) ` {..<n}"

lemma span_offset_disjoint:
  assumes "c + n \<le> d \<or> d + k \<le> c" "c + n \<le> 2 ^ 64" "d + k \<le> 2 ^ 64"
  shows "span (b + of_nat c) n \<inter> span (b + of_nat d) k = {}"
proof -
  have "c + i = d + j" if "i < n" "j < k" "b + of_nat c + of_nat i = b + of_nat d + (of_nat j :: u64)" for i j
  proof -
    have "(of_nat (c + i) :: u64) = of_nat (d + j)" using that(3) by (simp add: add.assoc)
    then show ?thesis using that(1,2) assms(2,3) by (subst (asm) of_nat_u64_inj) auto
  qed
  then show ?thesis using assms(1) by (fastforce simp: span_def)
qed

lemma span_disjoint:
  assumes "c + n \<le> d \<or> d + k \<le> c" "c + n \<le> 2 ^ 64" "d + k \<le> 2 ^ 64"
  shows "span (of_nat c) n \<inter> span (of_nat d) k = {}"
  using span_offset_disjoint [OF assms, of 0] by simp

lemma span_of_nat:
  assumes "c + n \<le> 2 ^ 64"
  shows "x \<in> span (of_nat c) n \<longleftrightarrow> c \<le> unat x \<and> unat x < c + n"
proof
  assume "x \<in> span (of_nat c) n"
  then obtain i where "i < n" "x = of_nat (c + i)" by (auto simp: span_def)
  moreover have "unat (of_nat (c + i) :: u64) = c + i"
    using \<open>i < n\<close> assms by (intro unat_of_nat_small) simp
  ultimately show "c \<le> unat x \<and> unat x < c + n" by simp
next
  assume x: "c \<le> unat x \<and> unat x < c + n"
  have "x = of_nat (c + (unat x - c))" using x by simp
  then have "x = of_nat c + of_nat (unat x - c)" by (simp only: of_nat_add)
  moreover have "unat x - c \<in> {..<n}" using x by auto
  ultimately show "x \<in> span (of_nat c) n" unfolding span_def by (rule image_eqI)
qed

lemma wr_outside [simp]:
  "x \<notin> span a 8 \<Longrightarrow> wr64 a v m x = m x" "x \<notin> span a 4 \<Longrightarrow> wr32 a w m x = m x"
  by (auto simp: wr64_def wr32_def span_def intro!: wr_le_outside)

lemma rd_cong:
  "(\<And>x. x \<in> span a 8 \<Longrightarrow> m x = m' x) \<Longrightarrow> rd64 m a = rd64 m' a"
  "(\<And>x. x \<in> span a 4 \<Longrightarrow> m x = m' x) \<Longrightarrow> rd32 m a = rd32 m' a"
  by (auto simp: rd64_def rd32_def span_def intro!: arg_cong [where f = of_nat] rd_le_cong)

lemma rd_wr_same [simp]: "rd64 (wr64 a v m) a = v" "rd32 (wr32 a w m) a = w"
  using unsigned_less [of v, where 'a = nat] unsigned_less [of w, where 'a = nat]
  by (simp_all add: rd64_def wr64_def rd32_def wr32_def rd_wr_le_same)

lemma rd_wr_other:
  "span a 8 \<inter> span b 8 = {} \<Longrightarrow> rd64 (wr64 b v m) a = rd64 m a"
  "span a 8 \<inter> span b 4 = {} \<Longrightarrow> rd64 (wr32 b w m) a = rd64 m a"
  "span a 4 \<inter> span b 8 = {} \<Longrightarrow> rd32 (wr64 b v m) a = rd32 m a"
  "span a 4 \<inter> span b 4 = {} \<Longrightarrow> rd32 (wr32 b w m) a = rd32 m a"
  by (auto intro!: rd_cong wr_outside)

end
