(* ===== verification/Memory_Init.thy ===== *)
theory Memory_Init
  imports Keyboard Paging Byte_Memory
begin

text \<open>
  The rest of the data of \<open>kernel/memory.h\<close> (boot information, the BIOS memory map, the
  physical memory manager's region table), the kernel state extended by it, and the
  initialisation functions of \<open>kernel/memory.c\<close>: \<open>print_memory_map\<close>, \<open>init_pmm\<close>, \<open>init_vmm\<close> with
  its messages, and \<open>memory_init\<close>.
\<close>

section \<open>State and operations\<close>

record e820_entry =
  base_low :: u32
  base_high :: u32
  length_low :: u32
  length_high :: u32
  e_type :: u32
  acpi :: u32

abbreviation E820_RAM :: u32 where "E820_RAM \<equiv> 1"
abbreviation E820_RESERVED :: u32 where "E820_RESERVED \<equiv> 2"
abbreviation E820_ACPI :: u32 where "E820_ACPI \<equiv> 3"
abbreviation E820_NVS :: u32 where "E820_NVS \<equiv> 4"
abbreviation E820_UNUSABLE :: u32 where "E820_UNUSABLE \<equiv> 5"
abbreviation MAX_MEMORY_MAP_ENTRIES :: u32 where "MAX_MEMORY_MAP_ENTRIES \<equiv> 128"

record boot_info =
  signature :: u32
  memory_map :: u64
  memory_entries :: u32
  boot_device :: u32
  cmdline :: u32
  cmdline_size :: u32

record memory_region =
  r_base :: u32
  r_length :: u32
  r_type :: u32

record pmm_info =
  regions :: "memory_region list"
  region_count :: u32
  total_memory :: u32
  free_memory :: u32

text \<open>
  The memory component of the kernel state. \<open>e820_mem\<close> is the 24-byte map entry at an address,
  \<open>heap_mem\<close> the bytes the kernel reaches through its virtual addresses.
\<close>

record kmem = kkbd +
  vm :: mm
  boot_params :: boot_info
  e820_mem :: "u64 \<Rightarrow> e820_entry"
  pmm :: pmm_info
  heap_first_block :: u64
  heap_mem :: mem

definition mmap_entry :: "'a kmem_scheme \<Rightarrow> nat \<Rightarrow> e820_entry" where
  "mmap_entry s i = e820_mem s (memory_map (boot_params s) + 24 * of_nat i)"

definition entry_count :: "'a kmem_scheme \<Rightarrow> u32" where
  "entry_count s =
     (if memory_entries (boot_params s) > MAX_MEMORY_MAP_ENTRIES then MAX_MEMORY_MAP_ENTRIES
      else memory_entries (boot_params s))"

definition e820_type_name :: "u32 \<Rightarrow> string" where
  "e820_type_name t =
     (if t = E820_RAM then ''RAM'' else if t = E820_RESERVED then ''RESERVED''
      else if t = E820_ACPI then ''ACPI'' else if t = E820_NVS then ''NVS''
      else if t = E820_UNUSABLE then ''UNUSABLE'' else ''UNKNOWN'')"

definition print_memory_map :: "'a kmem_scheme \<Rightarrow> 'a kmem_scheme" where
  "print_memory_map s =
     (let s1 = kprint ''Memory Map:\<newline>'' s
      in if signature (boot_params s1) \<noteq> 0x1BADB002 then kprint ''Invalid boot info signature!\<newline>'' s1
         else fold (\<lambda>i s. fold kprint [''Base: 0x'', '' Length: 0x'', '' Type: '',
                       e820_type_name (e_type (mmap_entry s i)), ''\<newline>''] s)
                [0..<unat (entry_count s1)] s1)"

definition add_region :: "e820_entry \<Rightarrow> pmm_info \<Rightarrow> pmm_info" where
  "add_region e p =
     p\<lparr>regions := (regions p)[unat (region_count p) :=
          \<lparr>r_base = base_low e, r_length = length_low e, r_type = e_type e\<rparr>],
       total_memory := total_memory p + length_low e,
       free_memory := (if base_low e \<ge> 0x100000 then free_memory p + length_low e else free_memory p),
       region_count := region_count p + 1\<rparr>"

text \<open>The loop of \<open>init_pmm\<close> over the entries it looks at; the second test is its \<open>break\<close>.\<close>

fun init_pmm_loop :: "e820_entry list \<Rightarrow> pmm_info \<Rightarrow> pmm_info" where
  "init_pmm_loop [] p = p"
| "init_pmm_loop (e # es) p =
     (if e_type e = E820_RAM \<and> base_high e = 0 then
        (let p1 = add_region e p
         in if region_count p1 \<ge> MAX_MEMORY_MAP_ENTRIES then p1 else init_pmm_loop es p1)
      else init_pmm_loop es p)"

definition init_pmm :: "'a kmem_scheme \<Rightarrow> 'a kmem_scheme" where
  "init_pmm s =
     (if signature (boot_params s) \<noteq> 0x1BADB002 then kprint ''ERROR: Invalid boot info signature!\<newline>'' s
      else
        (let p0 = (pmm s)\<lparr>region_count := 0, total_memory := 0, free_memory := 0\<rparr>;
             s1 = s\<lparr>pmm := init_pmm_loop (map (mmap_entry s) [0..<unat (entry_count s)]) p0\<rparr>
         in fold kprint [''PMM initialized:\<newline>'', ''Total memory: '', '' bytes\<newline>'', ''Free memory: '',
              '' bytes\<newline>'', ''Memory regions: '', ''\<newline>''] s1))"

definition kinit_vmm :: "'a kmem_scheme \<Rightarrow> 'a kmem_scheme" where
  "kinit_vmm s =
     (let s1 = kprint ''Initializing VMM...\<newline>'' s
      in kprint ''VMM initialized.\<newline>'' (s1\<lparr>vm := init_vmm (vm s1)\<rparr>))"

definition memory_init :: "'a kmem_scheme \<Rightarrow> 'a kmem_scheme" where
  "memory_init s =
     (let s1 = kprint ''Initializing memory management...\<newline>'' s;
          s2 = print_memory_map s1;
          s3 = init_pmm s2;
          s4 = kinit_vmm s3;
          s5 = s4\<lparr>vm := load_page_directory (vm s4)\<rparr>
      in kprint ''Memory management initialized.\<newline>'' s5)"

section \<open>The region table\<close>

lemma kprint_mem_frame [simp]:
  "vm (kprint msg s) = vm s" "boot_params (kprint msg s) = boot_params s" "e820_mem (kprint msg s) = e820_mem s"
  "pmm (kprint msg s) = pmm s" "heap_first_block (kprint msg s) = heap_first_block s"
  "heap_mem (kprint msg s) = heap_mem s"
  by (simp_all add: kprint_def)

text \<open>The entries that count as usable memory.\<close>

definition usable :: "e820_entry \<Rightarrow> bool" where
  "usable e \<longleftrightarrow> e_type e = E820_RAM \<and> base_high e = 0"

definition region_of :: "e820_entry \<Rightarrow> memory_region" where
  "region_of e = \<lparr>r_base = base_low e, r_length = length_low e, r_type = E820_RAM\<rparr>"

definition pmm_shows :: "e820_entry list \<Rightarrow> pmm_info \<Rightarrow> bool" where
  "pmm_shows es p \<longleftrightarrow> length (regions p) = 128 \<and> unat (region_count p) = length es \<and>
     take (length es) (regions p) = map region_of es \<and>
     total_memory p = sum_list (map length_low es) \<and>
     free_memory p = sum_list (map length_low (filter (\<lambda>e. base_low e \<ge> 0x100000) es))"

lemma add_region_shows:
  assumes "pmm_shows es p" "length es < 128" "usable e"
  shows "pmm_shows (es @ [e]) (add_region e p)"
proof -
  have count: "unat (region_count p + 1) = Suc (length es)"
    using assms(1,2) by (simp add: pmm_shows_def unat_add_small)
  have "take (Suc (length es)) ((regions p)[length es := region_of e]) = map region_of es @ [region_of e]"
    using assms(1,2) by (simp add: pmm_shows_def take_Suc_conv_app_nth)
  moreover have "\<lparr>r_base = base_low e, r_length = length_low e, r_type = e_type e\<rparr> = region_of e"
    using assms(3) by (simp add: region_of_def usable_def)
  ultimately show ?thesis using assms(1) count by (simp add: pmm_shows_def add_region_def)
qed

lemma init_pmm_loop_shows:
  assumes "pmm_shows ds p" "length ds + length es \<le> 128" "length ds < 128"
  shows "pmm_shows (ds @ filter usable es) (init_pmm_loop es p)"
  using assms
proof (induction es arbitrary: ds p)
  case (Cons e es)
  show ?case
  proof (cases "usable e")
    case True
    note add = add_region_shows [OF Cons.prems(1,3) True]
    have count: "region_count (add_region e p) \<ge> 128 \<longleftrightarrow> length ds = 127"
      using add Cons.prems(3) by (auto simp: pmm_shows_def word_le_nat_alt)
    show ?thesis
    proof (cases "length ds = 127")
      case True
      then show ?thesis using add count Cons.prems(2) \<open>usable e\<close> by (simp add: usable_def)
    next
      case False
      then show ?thesis using Cons.IH [OF add] count Cons.prems(2,3) \<open>usable e\<close>
        by (simp add: usable_def)
    qed
  next
    case False
    then have "init_pmm_loop (e # es) p = init_pmm_loop es p" by (auto simp: usable_def)
    then show ?thesis using False Cons.IH [OF Cons.prems(1)] Cons.prems(2,3) by simp
  qed
qed simp

lemma fold_kprint_frame [simp]:
  "vm (fold kprint ms s) = vm s" "boot_params (fold kprint ms s) = boot_params s"
  "e820_mem (fold kprint ms s) = e820_mem s" "pmm (fold kprint ms s) = pmm s"
  "heap_first_block (fold kprint ms s) = heap_first_block s" "heap_mem (fold kprint ms s) = heap_mem s"
  "kio_ok s \<Longrightarrow> kio_ok (fold kprint ms s)"
  by (induction ms arbitrary: s) (simp_all add: console_write_ok)

lemma print_memory_map_frame [simp]:
  "vm (print_memory_map s) = vm s" "boot_params (print_memory_map s) = boot_params s"
  "e820_mem (print_memory_map s) = e820_mem s" "pmm (print_memory_map s) = pmm s"
  "heap_first_block (print_memory_map s) = heap_first_block s" "heap_mem (print_memory_map s) = heap_mem s"
  "kio_ok s \<Longrightarrow> kio_ok (print_memory_map s)"
proof -
  let ?p = "\<lambda>i s. fold kprint [''Base: 0x'', '' Length: 0x'', '' Type: '',
                       e820_type_name (e_type (mmap_entry s i)), ''\<newline>''] s"
  have *: "vm (fold ?p is s) = vm s \<and> boot_params (fold ?p is s) = boot_params s \<and>
    e820_mem (fold ?p is s) = e820_mem s \<and> pmm (fold ?p is s) = pmm s \<and>
    heap_first_block (fold ?p is s) = heap_first_block s \<and> heap_mem (fold ?p is s) = heap_mem s \<and>
    (kio_ok s \<longrightarrow> kio_ok (fold ?p is s))" for "is" and s :: "'a kmem_scheme"
    by (induction "is" arbitrary: s) (simp_all add: console_write_ok)
  show "vm (print_memory_map s) = vm s" "boot_params (print_memory_map s) = boot_params s"
    "e820_mem (print_memory_map s) = e820_mem s" "pmm (print_memory_map s) = pmm s"
    "heap_first_block (print_memory_map s) = heap_first_block s" "heap_mem (print_memory_map s) = heap_mem s"
    "kio_ok s \<Longrightarrow> kio_ok (print_memory_map s)"
    using * by (simp_all add: print_memory_map_def Let_def console_write_ok)
qed

lemma entry_count_le: "unat (entry_count s) \<le> 128"
  by (auto simp: entry_count_def word_le_nat_alt not_less word_less_nat_alt)

lemma init_pmm_frame [simp]:
  "vm (init_pmm s) = vm s" "heap_first_block (init_pmm s) = heap_first_block s" "heap_mem (init_pmm s) = heap_mem s"
  by (simp_all add: init_pmm_def Let_def)

section \<open>Properties\<close>

definition sample_entry :: "u32 \<Rightarrow> u32 \<Rightarrow> u32 \<Rightarrow> e820_entry" where
  "sample_entry b l t = \<lparr>base_low = b, base_high = 0, length_low = l, length_high = 0, e_type = t, acpi = 1\<rparr>"

text \<open>A kernel state at the start of \<open>memory_init\<close>, with a map of three entries.\<close>

definition sample_kmem :: kmem where
  "sample_kmem = kkbd.extend sample_kbd
     \<lparr>vm = sample_mm, boot_params = \<lparr>signature = 0x1BADB002, memory_map = 0x8000, memory_entries = 3,
        boot_device = 0, cmdline = 0, cmdline_size = 0\<rparr>,
      e820_mem = (\<lambda>a. if a = 0x8000 then sample_entry 0 0x9FC00 1
         else if a = 0x8018 then sample_entry 0x9FC00 0x400 2 else sample_entry 0x100000 0x7F00000 1),
      pmm = \<lparr>regions = replicate 128 \<lparr>r_base = 0, r_length = 0, r_type = 0\<rparr>, region_count = 0,
        total_memory = 0, free_memory = 0\<rparr>,
      heap_first_block = NULL, heap_mem = (\<lambda>_. 0)\<rparr>"

text \<open>
  C28. With valid boot information, \<open>init_pmm\<close> records exactly the usable entries among the first
  128 of the BIOS map, in order, in a table that is never overrun; the totals are the sums of
  their 32-bit lengths, modulo 2 to the 32, and only regions from 1 MB on count as free.
  With an invalid signature the table is left alone.
\<close>

theorem init_pmm_records_usable_regions:
  assumes "length (regions (pmm s)) = 128"
  shows "if signature (boot_params s) = 0x1BADB002
    then pmm_shows (filter usable (map (mmap_entry s) [0..<min 128 (unat (memory_entries (boot_params s)))]))
           (pmm (init_pmm s))
    else pmm (init_pmm s) = pmm s"
proof -
  have n: "unat (entry_count s) = min 128 (unat (memory_entries (boot_params s)))"
    by (auto simp: entry_count_def word_less_nat_alt)
  let ?p0 = "(pmm s)\<lparr>region_count := 0, total_memory := 0, free_memory := 0\<rparr>"
  have "pmm_shows [] ?p0" using assms by (simp add: pmm_shows_def)
  from init_pmm_loop_shows [OF this, of "map (mmap_entry s) [0..<unat (entry_count s)]"]
  show ?thesis using entry_count_le [of s] by (auto simp: init_pmm_def Let_def n)
qed

theorem init_pmm_records_usable_regions_witness:
  "region_count (pmm (init_pmm sample_kmem)) = 2 \<and> free_memory (pmm (init_pmm sample_kmem)) = 0x7F00000"
proof -
  have "length (regions (pmm sample_kmem)) = 128" by (simp add: sample_kmem_def kkbd.defs)
  note table = init_pmm_records_usable_regions [OF this]
  have sig: "signature (boot_params sample_kmem) = 0x1BADB002"
    and n: "min 128 (unat (memory_entries (boot_params sample_kmem))) = 3"
    by (simp_all add: sample_kmem_def kkbd.defs)
  have "[0..<3 :: nat] = [0, 1, 2]" by (simp add: upt_conv_Cons)
  then have "filter usable (map (mmap_entry sample_kmem) [0..<3]) =
      [sample_entry 0 0x9FC00 1, sample_entry 0x100000 0x7F00000 1]"
    by (simp add: sample_kmem_def kkbd.defs mmap_entry_def usable_def sample_entry_def)
  then have "pmm_shows [sample_entry 0 0x9FC00 1, sample_entry 0x100000 0x7F00000 1] (pmm (init_pmm sample_kmem))"
    using table sig n by simp
  then show ?thesis by (simp add: pmm_shows_def sample_entry_def word_unat_eq_iff)
qed

text \<open>
  After \<open>memory_init\<close>, whatever the boot loader left, the manager works on the tables that
  the processor uses (the root in \<open>cr3\<close>, page aligned), the look-aside buffer agrees with them,
  the heap is empty at its fixed base, and no page table or heap byte has been written.
\<close>

theorem memory_init_adopts_boot_tables:
  "let v = vm (memory_init s)
   in pml4 v = page_base (cr3 (vm s)) \<and> cr3 v = pml4 v \<and> aligned (pml4 v) \<and> tlb_coherent v \<and>
      heap_start v = 0xFFFF800000000000 \<and> heap_end v = heap_start v \<and> phys v = phys (vm s) \<and>
      heap_mem (memory_init s) = heap_mem s"
  by (simp add: memory_init_def kinit_vmm_def init_vmm_def load_page_directory_def Let_def tlb_coherent_def)

end
