(* ===== verification/Heap_Blocks.thy ===== *)
theory Heap_Blocks
  imports Byte_Memory
begin

text \<open>
  The block headers of the kernel heap in byte-addressed memory (\<open>struct heap_block\<close> of
  \<open>kernel/memory.c\<close>) and the pieces of \<open>kmalloc\<close> and \<open>kfree\<close> that only touch them: the loops that
  follow the list, splitting a block and merging two. The lemmas relate each piece to a
  list of adjacent blocks.
\<close>

section \<open>Operations on headers\<close>

text \<open>
  \<open>struct heap_block\<close> has 24 bytes: \<open>size\<close> at offset 0, \<open>next\<close> at 8, \<open>free\<close> (an \<open>int\<close>) at 16.
\<close>

abbreviation (input) b_size :: "mem \<Rightarrow> u64 \<Rightarrow> u64" where "b_size m b \<equiv> rd64 m b"
abbreviation (input) b_next :: "mem \<Rightarrow> u64 \<Rightarrow> u64" where "b_next m b \<equiv> rd64 m (b + 8)"
abbreviation (input) b_free :: "mem \<Rightarrow> u64 \<Rightarrow> u32" where "b_free m b \<equiv> rd32 m (b + 16)"

text \<open>The three stores \<open>b->size = sz; b->next = nx; b->free = fr\<close>, always in this order.\<close>

definition set_block :: "u64 \<Rightarrow> u64 \<Rightarrow> u64 \<Rightarrow> u32 \<Rightarrow> mem \<Rightarrow> mem" where
  "set_block b sz nx fr m = wr32 (b + 16) fr (wr64 (b + 8) nx (wr64 b sz m))"

partial_function (option) find_best :: "mem \<Rightarrow> u64 \<Rightarrow> u64 \<Rightarrow> u64 \<Rightarrow> u64 option" where
  "find_best m sz cur best =
     (if cur = NULL then Some best
      else find_best m sz (b_next m cur)
        (if b_free m cur \<noteq> 0 \<and> b_size m cur \<ge> sz \<and> (best = NULL \<or> b_size m cur < b_size m best)
         then cur else best))"

partial_function (option) find_last :: "mem \<Rightarrow> u64 \<Rightarrow> u64 option" where
  "find_last m cur = (if b_next m cur \<noteq> NULL then find_last m (b_next m cur) else Some cur)"

definition take_block :: "u64 \<Rightarrow> u64 \<Rightarrow> mem \<Rightarrow> u64 \<times> mem" where
  "take_block b sz m =
     (if b_size m b \<le> sz + 24 + 16 then (b + 24, wr32 (b + 16) 0 m)
      else
        (let nb = b + 24 + sz;
             m1 = set_block nb (b_size m b - sz - 24) (b_next m b) 1 m
         in (b + 24, set_block b sz nb 0 m1)))"

partial_function (option) find_prev :: "mem \<Rightarrow> u64 \<Rightarrow> u64 \<Rightarrow> u64 option" where
  "find_prev m b cur =
     (if cur \<noteq> NULL \<and> b_next m cur \<noteq> b then find_prev m b (b_next m cur) else Some cur)"

definition merge_next :: "u64 \<Rightarrow> mem \<Rightarrow> mem" where
  "merge_next b m =
     (if b_next m b \<noteq> NULL \<and> b_free m (b_next m b) \<noteq> 0
      then
        (let m1 = wr64 b (b_size m b + (24 + b_size m (b_next m b))) m
         in wr64 (b + 8) (b_next m1 (b_next m1 b)) m1)
      else m)"

definition merge_into :: "u64 \<Rightarrow> u64 \<Rightarrow> mem \<Rightarrow> mem" where
  "merge_into cur b m =
     (let m1 = wr64 cur (b_size m cur + (24 + b_size m b)) m
      in wr64 (cur + 8) (b_next m1 b) m1)"

section \<open>Blocks in memory\<close>

type_synonym blocks = "(nat \<times> bool) list"

definition extent :: "blocks \<Rightarrow> nat" where
  "extent bs = sum_list (map (\<lambda>b. 24 + fst b) bs)"

definition hdr :: "mem \<Rightarrow> nat \<Rightarrow> nat \<Rightarrow> nat \<Rightarrow> bool \<Rightarrow> bool" where
  "hdr m a sz nx fr \<longleftrightarrow> rd64 m (of_nat a) = of_nat sz \<and> rd64 m (of_nat a + 8) = of_nat nx \<and>
     (rd32 m (of_nat a + 16) \<noteq> 0) = fr"

text \<open>Adjacent blocks from address \<open>a\<close> on; the last one's \<open>next\<close> pointer is \<open>nx\<close>.\<close>

fun seg :: "mem \<Rightarrow> nat \<Rightarrow> blocks \<Rightarrow> nat \<Rightarrow> bool" where
  "seg m a [] nx \<longleftrightarrow> True"
| "seg m a ((sz, fr) # bs) nx \<longleftrightarrow>
     hdr m a sz (if bs = [] then nx else a + 24 + sz) fr \<and> seg m (a + 24 + sz) bs nx"

fun hdr_bytes :: "nat \<Rightarrow> blocks \<Rightarrow> nat set" where
  "hdr_bytes a [] = {}"
| "hdr_bytes a ((sz, fr) # bs) = {a..<a + 20} \<union> hdr_bytes (a + 24 + sz) bs"

definition agree :: "nat set \<Rightarrow> mem \<Rightarrow> mem \<Rightarrow> bool" where
  "agree X m m' \<longleftrightarrow> (\<forall>x. unat x \<in> X \<longrightarrow> m x = m' x)"

lemma extent_simps [simp]:
  "extent [] = 0" "extent (b # bs) = 24 + fst b + extent bs" "extent (xs @ ys) = extent xs + extent ys"
  by (simp_all add: extent_def)

lemma extent_pos: "bs \<noteq> [] \<Longrightarrow> 24 \<le> extent bs"
  by (cases bs) auto

lemma agree_sub: "agree X m m' \<Longrightarrow> Y \<subseteq> X \<Longrightarrow> agree Y m m'"
  by (auto simp: agree_def)

lemma agree_trans: "agree X m m1 \<Longrightarrow> agree X m1 m2 \<Longrightarrow> agree X m m2"
  by (auto simp: agree_def)

lemma agree_refl [simp]: "agree X m m"
  by (simp add: agree_def)

lemma agree_sym: "agree X m m' \<Longrightarrow> agree X m' m"
  by (simp add: agree_def)

lemma agree_write:
  "k + 8 \<le> 2 ^ 64 \<Longrightarrow> X \<inter> {k..<k + 8} = {} \<Longrightarrow> agree X m (wr64 (of_nat k) v m)"
  "k + 4 \<le> 2 ^ 64 \<Longrightarrow> X \<inter> {k..<k + 4} = {} \<Longrightarrow> agree X m (wr32 (of_nat k) w m)"
  by (fastforce simp: agree_def span_of_nat intro!: wr_outside [symmetric])+

lemma agree_read:
  "agree X m m' \<Longrightarrow> k + 8 \<le> 2 ^ 64 \<Longrightarrow> {k..<k + 8} \<subseteq> X \<Longrightarrow> rd64 m (of_nat k) = rd64 m' (of_nat k)"
  "agree X m m' \<Longrightarrow> k + 4 \<le> 2 ^ 64 \<Longrightarrow> {k..<k + 4} \<subseteq> X \<Longrightarrow> rd32 m (of_nat k) = rd32 m' (of_nat k)"
  by (fastforce simp: agree_def span_of_nat intro!: rd_cong)+

text \<open>Header fields lie at \<open>of_nat a + 8\<close> and \<open>of_nat a + 16\<close>, which is where the code computes them.\<close>

lemma field_addr: "(of_nat a :: u64) + 8 = of_nat (a + 8)" "(of_nat a :: u64) + 16 = of_nat (a + 16)"
  "(of_nat a :: u64) + 24 = of_nat (a + 24)"
  by simp_all

lemma hdr_agree:
  assumes "agree X m m'" "{a..<a + 20} \<subseteq> X" "a + 24 \<le> 2 ^ 64"
  shows "hdr m a sz nx fr = hdr m' a sz nx fr"
proof -
  have "rd64 m (of_nat a) = rd64 m' (of_nat a)" "rd64 m (of_nat (a + 8)) = rd64 m' (of_nat (a + 8))"
    "rd32 m (of_nat (a + 16)) = rd32 m' (of_nat (a + 16))"
    using assms(2,3) by (intro agree_read [OF assms(1)]; force)+
  then show ?thesis unfolding hdr_def field_addr by simp
qed

lemma hdr_bytes_range: "hdr_bytes a bs \<subseteq> {a..<a + extent bs}"
  by (induction a bs rule: hdr_bytes.induct) fastforce+

lemma seg_agree:
  assumes "agree X m m'" "hdr_bytes a bs \<subseteq> X" "a + extent bs \<le> 2 ^ 64"
  shows "seg m a bs nx = seg m' a bs nx"
  using assms(2,3)
proof (induction a bs rule: hdr_bytes.induct)
  case (2 a sz fr bs)
  then show ?case using hdr_agree [OF assms(1), of a] by simp
qed simp

lemma seg_agree_range:
  assumes "agree {a..<a + extent bs} m m'" "a + extent bs \<le> 2 ^ 64"
  shows "seg m a bs nx = seg m' a bs nx"
  using seg_agree [OF assms(1) hdr_bytes_range assms(2)] .

lemma seg_append:
  "ys \<noteq> [] \<Longrightarrow> seg m a (xs @ ys) nx \<longleftrightarrow> seg m a xs (a + extent xs) \<and> seg m (a + extent xs) ys nx"
  by (induction xs arbitrary: a) (auto simp: add.assoc split: if_splits)

lemma set_block_hdr:
  assumes "a + 24 \<le> 2 ^ 64"
  shows "hdr (set_block (of_nat a) sz nx fr m) a (unat sz) (unat nx) (fr \<noteq> 0)"
    "agree (- {a..<a + 20}) m (set_block (of_nat a) sz nx fr m)"
proof -
  have d: "span (of_nat a) 8 \<inter> span (of_nat (a + 8)) 8 = {}" "span (of_nat a) 8 \<inter> span (of_nat (a + 16)) 4 = {}"
    "span (of_nat (a + 8)) 8 \<inter> span (of_nat (a + 16)) 4 = {}"
    using assms by (intro span_disjoint; simp)+
  show "hdr (set_block (of_nat a) sz nx fr m) a (unat sz) (unat nx) (fr \<noteq> 0)"
    unfolding hdr_def set_block_def field_addr using d by (simp add: rd_wr_other del: of_nat_add)
  have 1: "agree (- {a..<a + 20}) m (wr64 (of_nat a) sz m)" for m sz
    using assms by (intro agree_write) auto
  have 2: "agree (- {a..<a + 20}) m (wr64 (of_nat (a + 8)) nx m)" for m nx
    using assms by (intro agree_write) auto
  have 3: "agree (- {a..<a + 20}) m (wr32 (of_nat (a + 16)) fr m)" for m fr
    using assms by (intro agree_write) auto
  show "agree (- {a..<a + 20}) m (set_block (of_nat a) sz nx fr m)"
    unfolding set_block_def field_addr by (rule agree_trans [OF agree_trans [OF 1 2] 3])
qed

text \<open>Changing one field of a header.\<close>

lemma set_free_hdr:
  assumes "hdr m a sz nx fr" "a + 24 \<le> 2 ^ 64"
  shows "hdr (wr32 (of_nat a + 16) w m) a sz nx (w \<noteq> 0)"
    "agree (- {a..<a + 20}) m (wr32 (of_nat a + 16) w m)"
proof -
  have d: "span (of_nat a) 8 \<inter> span (of_nat (a + 16)) 4 = {}" "span (of_nat (a + 8)) 8 \<inter> span (of_nat (a + 16)) 4 = {}"
    using assms(2) by (intro span_disjoint; simp)+
  show "hdr (wr32 (of_nat a + 16) w m) a sz nx (w \<noteq> 0)"
    using assms(1) d unfolding hdr_def field_addr by (simp add: rd_wr_other del: of_nat_add)
  show "agree (- {a..<a + 20}) m (wr32 (of_nat a + 16) w m)"
    unfolding field_addr using assms(2) by (intro agree_write) auto
qed

lemma set_next_hdr:
  assumes "hdr m a sz nx fr" "a + 24 \<le> 2 ^ 64"
  shows "hdr (wr64 (of_nat a + 8) v m) a sz (unat v) fr"
    "agree (- {a..<a + 20}) m (wr64 (of_nat a + 8) v m)"
proof -
  have d: "span (of_nat a) 8 \<inter> span (of_nat (a + 8)) 8 = {}" "span (of_nat (a + 16)) 4 \<inter> span (of_nat (a + 8)) 8 = {}"
    using assms(2) by (intro span_disjoint; simp)+
  show "hdr (wr64 (of_nat a + 8) v m) a sz (unat v) fr"
    using assms(1) d unfolding hdr_def field_addr by (simp add: rd_wr_other del: of_nat_add)
  show "agree (- {a..<a + 20}) m (wr64 (of_nat a + 8) v m)"
    unfolding field_addr using assms(2) by (intro agree_write) auto
qed

lemma set_size_hdr:
  assumes "hdr m a sz nx fr" "a + 24 \<le> 2 ^ 64"
  shows "hdr (wr64 (of_nat a) v m) a (unat v) nx fr" "agree (- {a..<a + 20}) m (wr64 (of_nat a) v m)"
proof -
  have d: "span (of_nat (a + 8)) 8 \<inter> span (of_nat a) 8 = {}" "span (of_nat (a + 16)) 4 \<inter> span (of_nat a) 8 = {}"
    using assms(2) by (intro span_disjoint; simp)+
  show "hdr (wr64 (of_nat a) v m) a (unat v) nx fr"
    using assms(1) d unfolding hdr_def field_addr by (simp add: rd_wr_other del: of_nat_add)
  show "agree (- {a..<a + 20}) m (wr64 (of_nat a) v m)"
    using assms(2) by (intro agree_write) auto
qed

section \<open>Following the list\<close>

lemma hdrD:
  assumes "hdr m a sz nx fr"
  shows "rd64 m (of_nat a) = of_nat sz" "rd64 m (of_nat a + 8) = of_nat nx" "(rd32 m (of_nat a + 16) \<noteq> 0) = fr"
  using assms by (simp_all add: hdr_def)

lemma of_nat_neq_0: "0 < a \<Longrightarrow> a < 2 ^ 64 \<Longrightarrow> (of_nat a :: u64) \<noteq> 0"
  using of_nat_u64_inj [of a 0] by simp

lemma find_last_seg:
  assumes "seg m a bs 0" "bs \<noteq> []" "0 < a" "a + extent bs < 2 ^ 64"
  shows "find_last m (of_nat a) = Some (of_nat (a + extent (butlast bs)))"
  using assms
proof (induction bs arbitrary: a)
  case (Cons b bs)
  obtain sz fr where b: "b = (sz, fr)" by (cases b)
  show ?case
  proof (cases "bs = []")
    case True
    then show ?thesis using Cons.prems(1) b by (subst find_last.simps) (simp add: hdr_def)
  next
    case False
    have h: "hdr m a sz (a + 24 + sz) fr" and s: "seg m (a + 24 + sz) bs 0" using Cons.prems(1) b False by auto
    have "rd64 m (of_nat a + 8) = of_nat (a + 24 + sz)" by (rule hdrD(2) [OF h])
    moreover have "(of_nat (a + 24 + sz) :: u64) \<noteq> 0"
      using Cons.prems(4) b False extent_pos [OF False] by (intro of_nat_neq_0) auto
    ultimately have "find_last m (of_nat a) = find_last m (of_nat (a + 24 + sz))"
      by (subst find_last.simps) (simp del: of_nat_add)
    also have "\<dots> = Some (of_nat (a + 24 + sz + extent (butlast bs)))"
      using Cons.IH [OF s False] Cons.prems(4) b by simp
    finally show ?thesis using b False by (simp add: add.assoc)
  qed
qed simp

lemma find_prev_hit:
  assumes "seg m a (xs @ ys) nx" "xs \<noteq> []" "ys \<noteq> []" "0 < a" "a + extent xs < 2 ^ 64"
  shows "find_prev m (of_nat (a + extent xs)) (of_nat a) = Some (of_nat (a + extent (butlast xs)))"
  using assms
proof (induction xs arbitrary: a)
  case (Cons b xs)
  obtain sz fr where b: "b = (sz, fr)" by (cases b)
  have h: "hdr m a sz (a + 24 + sz) fr" and s: "seg m (a + 24 + sz) (xs @ ys) nx"
    using Cons.prems(1,3) b by auto
  have next': "rd64 m (of_nat a + 8) = of_nat (a + 24 + sz)" by (rule hdrD(2) [OF h])
  have a0: "(of_nat a :: u64) \<noteq> 0" using Cons.prems(4,5) by (intro of_nat_neq_0) auto
  show ?case
  proof (cases "xs = []")
    case True
    then show ?thesis using next' b by (subst find_prev.simps) (simp add: add.assoc)
  next
    case False
    have "(of_nat (a + 24 + sz) :: u64) \<noteq> of_nat (a + extent (b # xs))"
      using Cons.prems(5) b extent_pos [OF False] by (subst of_nat_u64_inj) auto
    then have "find_prev m (of_nat (a + extent (b # xs))) (of_nat a) =
        find_prev m (of_nat (a + extent (b # xs))) (of_nat (a + 24 + sz))"
      using next' a0 by (subst find_prev.simps) (simp del: of_nat_add)
    also have "\<dots> = find_prev m (of_nat (a + 24 + sz + extent xs)) (of_nat (a + 24 + sz))"
      using b by (simp add: add.assoc)
    also have "\<dots> = Some (of_nat (a + 24 + sz + extent (butlast xs)))"
      using Cons.IH [OF s False Cons.prems(3)] Cons.prems(5) b by simp
    finally show ?thesis using b False by (simp add: add.assoc)
  qed
qed simp

lemma find_prev_miss:
  assumes "seg m a bs 0" "0 < t" "t \<le> a" "a + extent bs < 2 ^ 64"
  shows "find_prev m (of_nat t) (if bs = [] then NULL else of_nat a) = Some NULL"
  using assms
proof (induction bs arbitrary: a)
  case Nil
  then show ?case by (subst find_prev.simps) simp
next
  case (Cons b bs)
  obtain sz fr where b: "b = (sz, fr)" by (cases b)
  let ?nx = "if bs = [] then 0 else a + 24 + sz"
  have h: "hdr m a sz ?nx fr" and s: "seg m (a + 24 + sz) bs 0" using Cons.prems(1) b by auto
  have next': "rd64 m (of_nat a + 8) = of_nat ?nx" by (rule hdrD(2) [OF h])
  have "(of_nat ?nx :: u64) \<noteq> of_nat t"
    using Cons.prems(2,3,4) b by (subst of_nat_u64_inj) auto
  moreover have "(of_nat a :: u64) \<noteq> 0" using Cons.prems(2,3,4) by (intro of_nat_neq_0) auto
  ultimately have "find_prev m (of_nat t) (of_nat a) = find_prev m (of_nat t) (if bs = [] then NULL else of_nat (a + 24 + sz))"
    using next' by (subst find_prev.simps) auto
  also have "\<dots> = Some NULL" using Cons.IH [OF s] Cons.prems(2-4) b by (simp del: of_nat_add)
  finally show ?case by simp
qed

text \<open>The best fit: the smallest sufficient free block, the first one among equals.\<close>

definition fits :: "nat \<Rightarrow> nat \<times> bool \<Rightarrow> bool" where
  "fits n b \<longleftrightarrow> snd b \<and> n \<le> fst b"

definition best_split :: "nat \<Rightarrow> blocks \<Rightarrow> blocks \<Rightarrow> nat \<Rightarrow> blocks \<Rightarrow> bool" where
  "best_split n bs xs sz ys \<longleftrightarrow> bs = xs @ (sz, True) # ys \<and> n \<le> sz \<and>
     (\<forall>b\<in>set xs. fits n b \<longrightarrow> sz < fst b) \<and> (\<forall>b\<in>set ys. fits n b \<longrightarrow> sz \<le> fst b)"

text \<open>What the search knows after the blocks \<open>ps\<close>: nothing fits, or where the best so far is.\<close>

definition best_so_far :: "nat \<Rightarrow> nat \<Rightarrow> blocks \<Rightarrow> u64 \<Rightarrow> bool" where
  "best_so_far n a ps best \<longleftrightarrow>
     (if \<forall>b\<in>set ps. \<not> fits n b then best = NULL
      else \<exists>xs sz ys. best_split n ps xs sz ys \<and> best = of_nat (a + extent xs))"

lemma seg_hdr:
  assumes "seg m a (xs @ (sz, fr) # ys) nx"
  shows "hdr m (a + extent xs) sz (if ys = [] then nx else a + extent xs + 24 + sz) fr"
  using assms by (subst (asm) seg_append) auto

text \<open>The first candidate of the search, and a block seen after a candidate.\<close>

lemma best_first:
  assumes "\<forall>b\<in>set ps. \<not> fits n b"
  shows "best_so_far n a (ps @ [(sz, fr)]) (if fits n (sz, fr) then of_nat (a + extent ps) else NULL)"
proof (cases "fits n (sz, fr)")
  case True
  then have "best_split n (ps @ [(sz, fr)]) ps sz []" using assms by (auto simp: best_split_def fits_def)
  then show ?thesis using True by (auto simp: best_so_far_def)
next
  case False
  then show ?thesis using assms by (simp add: best_so_far_def)
qed

lemma best_next:
  assumes b: "best_split n ps xs z ys"
  shows "best_so_far n a (ps @ [(sz, fr)]) (if fits n (sz, fr) \<and> sz < z then of_nat (a + extent ps) else of_nat (a + extent xs))"
proof -
  have "(z, True) \<in> set ps" "fits n (z, True)" using b by (auto simp: best_split_def fits_def)
  then have ext: "\<not> (\<forall>b\<in>set (ps @ [(sz, fr)]). \<not> fits n b)" by auto
  show ?thesis
  proof (cases "fits n (sz, fr) \<and> sz < z")
    case True
    then have "best_split n (ps @ [(sz, fr)]) ps sz []"
      using b unfolding best_split_def fits_def by fastforce
    then show ?thesis using True ext unfolding best_so_far_def by auto
  next
    case False
    then have "best_split n (ps @ [(sz, fr)]) xs z (ys @ [(sz, fr)])"
      using b by (auto simp: best_split_def)
    then show ?thesis using False ext unfolding best_so_far_def by auto
  qed
qed

lemma best_step:
  assumes seg: "seg m a (ps @ (sz, fr) # rs) nx" and bnd: "a + extent (ps @ (sz, fr) # rs) < 2 ^ 64" "0 < a" "n < 2 ^ 64"
    and far: "best_so_far n a ps best"
  defines "c \<equiv> of_nat (a + extent ps) :: u64"
  shows "best_so_far n a (ps @ [(sz, fr)])
    (if rd32 m (c + 16) \<noteq> 0 \<and> rd64 m c \<ge> of_nat n \<and> (best = NULL \<or> rd64 m c < rd64 m best) then c else best)"
proof -
  note h = hdrD [OF seg_hdr [OF seg]]
  have cmp: "(of_nat x :: u64) \<le> of_nat y \<longleftrightarrow> x \<le> y" "(of_nat x :: u64) < of_nat y \<longleftrightarrow> x < y"
    if "x < 2 ^ 64" "y < 2 ^ 64" for x y
    using that by (simp_all add: word_le_nat_alt word_less_nat_alt unat_of_nat_small)
  have test: "rd32 m (c + 16) \<noteq> 0 \<and> rd64 m c \<ge> of_nat n \<longleftrightarrow> fits n (sz, fr)"
    using h bnd cmp [of n sz] by (auto simp: c_def fits_def)
  show ?thesis
  proof (cases "\<forall>b\<in>set ps. \<not> fits n b")
    case True
    then have "best = NULL" using far by (simp add: best_so_far_def)
    then show ?thesis using best_first [OF True, of a sz fr] test by (auto simp: c_def split: if_splits)
  next
    case False
    then obtain xs z ys where b: "best_split n ps xs z ys" "best = of_nat (a + extent xs)"
      using far unfolding best_so_far_def by (simp only: if_False) blast
    then have ps: "ps = xs @ (z, True) # ys" by (simp add: best_split_def)
    have "seg m a (xs @ (z, True) # (ys @ (sz, fr) # rs)) nx" using seg ps by simp
    then have bz: "rd64 m best = of_nat z" using hdrD(1) [OF seg_hdr] b(2) by blast
    have b0: "best \<noteq> NULL" unfolding b(2) using bnd ps by (intro of_nat_neq_0) auto
    have smaller: "rd64 m c < rd64 m best \<longleftrightarrow> sz < z"
      using bz h(1) bnd ps cmp(2) [of sz z] by (simp add: c_def)
    have "(rd32 m (c + 16) \<noteq> 0 \<and> rd64 m c \<ge> of_nat n \<and> (best = NULL \<or> rd64 m c < rd64 m best)) \<longleftrightarrow> fits n (sz, fr) \<and> sz < z"
      using test smaller b0 by blast
    then show ?thesis using best_next [OF b(1), of a sz fr] unfolding b(2) [symmetric] c_def by simp
  qed
qed

lemma find_best_seg:
  assumes "seg m a (ps @ rs) 0" "a + extent (ps @ rs) < 2 ^ 64" "0 < a" "n < 2 ^ 64" "best_so_far n a ps best"
  shows "\<exists>b. find_best m (of_nat n) (if rs = [] then NULL else of_nat (a + extent ps)) best = Some b \<and>
    best_so_far n a (ps @ rs) b"
  using assms
proof (induction rs arbitrary: ps best)
  case Nil
  then show ?case by (subst find_best.simps) simp
next
  case (Cons r rs)
  obtain sz fr where r: "r = (sz, fr)" by (cases r)
  let ?c = "of_nat (a + extent ps) :: u64"
  let ?best = "if rd32 m (?c + 16) \<noteq> 0 \<and> rd64 m ?c \<ge> of_nat n \<and> (best = NULL \<or> rd64 m ?c < rd64 m best) then ?c else best"
  have "best_so_far n a (ps @ [r]) ?best"
    using best_step [of m a ps sz fr rs 0 n best] Cons.prems r by simp
  moreover have "find_best m (of_nat n) ?c best =
      find_best m (of_nat n) (if rs = [] then NULL else of_nat (a + extent (ps @ [r]))) ?best"
  proof -
    have "rd64 m (?c + 8) = (if rs = [] then NULL else of_nat (a + extent (ps @ [r])))"
      using hdrD(2) [OF seg_hdr, of m a ps sz fr rs 0] Cons.prems(1) r by (simp add: add.assoc)
    moreover have "?c \<noteq> 0" using Cons.prems(2,3) by (intro of_nat_neq_0) auto
    ultimately show ?thesis by (subst find_best.simps) (simp only: if_False)
  qed
  ultimately show ?case using Cons.IH [of "ps @ [r]" ?best] Cons.prems by (simp del: of_nat_add)
qed

section \<open>Splitting, appending and merging\<close>

text \<open>The pieces into which a free block of \<open>sz\<close> bytes is cut for a request of \<open>n\<close> bytes.\<close>

definition carve :: "nat \<Rightarrow> nat \<Rightarrow> blocks" where
  "carve n sz = (if sz \<le> n + 40 then [(sz, False)] else [(n, False), (sz - n - 24, True)])"

lemma carve_extent: "n \<le> sz \<Longrightarrow> extent (carve n sz) = 24 + sz" "carve n sz \<noteq> []"
  by (auto simp: carve_def)

text \<open>Blocks outside a range of bytes keep their headers when only that range changes.\<close>

lemma hdr_keep:
  assumes "hdr m c sz nx fr" "agree (- {a..<a + k}) m m'" "c + 20 \<le> a \<or> a + k \<le> c" "c + 24 \<le> 2 ^ 64"
  shows "hdr m' c sz nx fr"
  using assms(1,3) hdr_agree [OF assms(2) _ assms(4)] by fastforce

lemma seg_keep:
  assumes "seg m c bs nx" "agree (- {a..<a + k}) m m'" "c + extent bs \<le> a \<or> a + k \<le> c" "c + extent bs \<le> 2 ^ 64"
  shows "seg m' c bs nx"
proof -
  have "agree {c..<c + extent bs} m m'" using assms(3) by (intro agree_sub [OF assms(2)]) auto
  then show ?thesis using assms(1,4) seg_agree_range by blast
qed

lemma take_whole:
  assumes "hdr m a sz nx True" "n \<le> sz" "a + 24 + sz < 2 ^ 64" "16 \<le> a"
  shows "rd64 m (of_nat a) \<le> of_nat n + 24 + 16 \<longleftrightarrow> sz \<le> n + 40"
proof -
  have un: "unat (of_nat k :: u64) = k" if "k < 2 ^ 64" for k
    using that by (intro unat_of_nat_small) simp
  have "(of_nat n :: u64) + 24 + 16 = of_nat (n + 40)" by simp
  moreover have "unat (of_nat (n + 40) :: u64) = n + 40" using assms by (intro un) auto
  ultimately show ?thesis using assms(3) hdrD(1) [OF assms(1)] un [of sz] by (simp only: word_le_nat_alt)
qed

lemma take_block_seg:
  assumes h: "hdr m a sz nx True" and n: "n \<le> sz" and a: "16 \<le> a" "a + 24 + sz < 2 ^ 64" and nx: "nx < 2 ^ 64"
  obtains m' where "take_block (of_nat a) (of_nat n) m = (of_nat (a + 24), m')"
    "seg m' a (carve n sz) nx" "agree (- {a..<a + 24 + sz}) m m'"
proof -
  note whole = take_whole [OF h n a(2,1)]
  show thesis
  proof (cases "sz \<le> n + 40")
    case True
    let ?m = "wr32 (of_nat a + 16) 0 m"
    have eq: "take_block (of_nat a) (of_nat n) m = (of_nat (a + 24), ?m)" using whole True by (simp add: take_block_def)
    note w = set_free_hdr [OF h, of 0]
    have "seg ?m a (carve n sz) nx" using True w(1) a by (simp add: carve_def)
    moreover have "agree (- {a..<a + 24 + sz}) m ?m"
      using w(2) a by (auto elim!: agree_sub)
    ultimately show thesis using eq that by blast
  next
    case False
    let ?b = "a + 24 + n"
    let ?m1 = "set_block (of_nat ?b) (of_nat (sz - n - 24)) (of_nat nx) 1 m"
    let ?m2 = "set_block (of_nat a) (of_nat n) (of_nat ?b) 0 ?m1"
    have un: "unat (of_nat k :: u64) = k" if "k < 2 ^ 64" for k
      using that by (intro unat_of_nat_small) simp
    have "\<not> rd64 m (of_nat a) \<le> of_nat n + 24 + 16" using whole False by simp
    moreover have "(of_nat sz - of_nat n - 24 :: u64) = of_nat (sz - n - 24)" using False by (simp add: of_nat_diff)
    moreover have "(of_nat a + 24 + of_nat n :: u64) = of_nat ?b" by simp
    ultimately have eq: "take_block (of_nat a) (of_nat n) m = (of_nat (a + 24), ?m2)"
      using hdrD(1,2) [OF h] by (simp add: take_block_def Let_def del: of_nat_add) simp
    have b: "?b + 24 \<le> 2 ^ 64" "a + 24 \<le> 2 ^ 64" using False a by auto
    note w1 = set_block_hdr [OF b(1), where sz = "of_nat (sz - n - 24)" and nx = "of_nat nx" and fr = 1 and m = m]
    note w2 = set_block_hdr [OF b(2), where sz = "of_nat n" and nx = "of_nat ?b" and fr = 0 and m = ?m1]
    have "hdr ?m2 ?b (sz - n - 24) nx True"
      using hdr_keep [OF w1(1) w2(2)] b(1) a nx un [of "sz - n - 24"] un [of nx] by simp
    moreover have "hdr ?m2 a n ?b False"
      using w2(1) un [of n] un [of ?b] n a False by (simp del: of_nat_add)
    ultimately have "seg ?m2 a (carve n sz) nx" using False by (simp add: carve_def)
    moreover have "agree (- {a..<a + 24 + sz}) m ?m2"
    proof (rule agree_trans)
      show "agree (- {a..<a + 24 + sz}) m ?m1" using False by (intro agree_sub [OF w1(2)]) auto
      show "agree (- {a..<a + 24 + sz}) ?m1 ?m2" by (intro agree_sub [OF w2(2)]) auto
    qed
    ultimately show thesis using eq that by blast
  qed
qed

lemma seg_replace:
  assumes s: "seg m a (xs @ us @ ys) nx" and ne: "us \<noteq> []" "vs \<noteq> []" and ext: "extent vs = extent us"
    and mid: "seg m' (a + extent xs) vs (if ys = [] then nx else a + extent xs + extent us)"
    and agr: "agree (- {a + extent xs..<a + extent xs + extent us}) m m'"
    and bnd: "a + extent (xs @ us @ ys) \<le> 2 ^ 64"
  shows "seg m' a (xs @ vs @ ys) nx"
proof -
  have 1: "seg m a xs (a + extent xs)" using s ne by (subst (asm) seg_append) auto
  have "seg m' a xs (a + extent xs)" using bnd by (intro seg_keep [OF 1 agr]) auto
  moreover have "seg m' (a + extent xs + extent us) ys nx" if "ys \<noteq> []"
  proof -
    have "seg m (a + extent xs + extent us) ys nx"
      using s ne that seg_append [of ys m "a + extent xs" us nx] by (subst (asm) seg_append) auto
    then show ?thesis using bnd by (intro seg_keep [OF _ agr]) auto
  qed
  ultimately show ?thesis
    using mid ne ext by (cases "ys = []") (auto simp: seg_append add.assoc)
qed

lemma seg_snoc_link:
  assumes s: "seg m a bs 0" and bs: "bs \<noteq> []" and bnd: "a + extent bs + 24 + sz < 2 ^ 64"
    and h: "hdr m (a + extent bs) sz 0 fr"
  shows "seg (wr64 (of_nat (a + extent (butlast bs)) + 8) (of_nat (a + extent bs)) m) a (bs @ [(sz, fr)]) 0"
proof -
  obtain xs z f where x: "bs = xs @ [(z, f)]" using bs by (metis append_butlast_last_id surj_pair)
  let ?l = "a + extent xs"
  let ?m = "wr64 (of_nat ?l + 8) (of_nat (a + extent bs)) m"
  have hl: "hdr m ?l z 0 f" using seg_hdr [of m a xs z f "[]" 0] s x by simp
  have b: "?l + 24 \<le> 2 ^ 64" using bnd x by simp
  have ext: "unat (of_nat (a + extent bs) :: u64) = ?l + 24 + z"
    using bnd x by (subst unat_of_nat_small) auto
  note w = set_next_hdr [OF hl b, of "of_nat (a + extent bs)"]
  have "seg m a xs ?l" using s x by (subst (asm) x, subst (asm) seg_append) auto
  then have 1: "seg ?m a xs ?l" using bnd x by (intro seg_keep [OF _ w(2)]) auto
  have 2: "hdr ?m ?l z (?l + 24 + z) f" using w(1) ext by simp
  have "hdr m (?l + 24 + z) sz 0 fr" using h x by (simp add: add.assoc)
  then have 3: "hdr ?m (?l + 24 + z) sz 0 fr" using bnd x by (intro hdr_keep [OF _ w(2)]) auto
  show ?thesis using 1 2 3 x by (simp add: seg_append)
qed

lemma merge_into_seg:
  assumes s: "seg m a ((sz1, fr1) # (sz2, fr2) # bs) 0" and bnd: "a + extent ((sz1, fr1) # (sz2, fr2) # bs) < 2 ^ 64"
  shows "seg (merge_into (of_nat a) (of_nat (a + 24 + sz1)) m) a ((sz1 + 24 + sz2, fr1) # bs) 0"
    "agree (- {a..<a + 20}) m (merge_into (of_nat a) (of_nat (a + 24 + sz1)) m)"
proof -
  let ?b = "a + 24 + sz1" and ?nx = "if bs = [] then 0 else a + 24 + sz1 + 24 + sz2"
  have h1: "hdr m a sz1 ?b fr1" and h2: "hdr m ?b sz2 ?nx fr2" and r: "seg m (?b + 24 + sz2) bs 0"
    using s by auto
  let ?v = "of_nat (sz1 + 24 + sz2) :: u64"
  let ?m1 = "wr64 (of_nat a) ?v m"
  have b24: "a + 24 \<le> 2 ^ 64" "?b + 24 \<le> 2 ^ 64" using bnd by auto
  note w1 = set_size_hdr [OF h1 b24(1), of ?v]
  have h2': "hdr ?m1 ?b sz2 ?nx fr2" using b24 by (intro hdr_keep [OF h2 w1(2)]) auto
  have eq: "merge_into (of_nat a) (of_nat ?b) m = wr64 (of_nat a + 8) (of_nat ?nx) ?m1"
  proof -
    have "(of_nat sz1 + (24 + of_nat sz2) :: u64) = ?v" by (simp add: add.assoc)
    then show ?thesis
      unfolding merge_into_def Let_def hdrD(1) [OF h1] hdrD(1) [OF h2] by (simp only: hdrD(2) [OF h2'])
  qed
  note w2 = set_next_hdr [OF w1(1) b24(1), of "of_nat ?nx"]
  have agr: "agree (- {a..<a + 20}) m (wr64 (of_nat a + 8) (of_nat ?nx) ?m1)"
    by (rule agree_trans [OF w1(2) w2(2)])
  have "unat ?v = sz1 + 24 + sz2" "unat (of_nat ?nx :: u64) = ?nx"
    using bnd by (subst unat_of_nat_small; auto)+
  then have "hdr (wr64 (of_nat a + 8) (of_nat ?nx) ?m1) a (sz1 + 24 + sz2) ?nx fr1" using w2(1) by simp
  moreover have "seg (wr64 (of_nat a + 8) (of_nat ?nx) ?m1) (?b + 24 + sz2) bs 0"
    using bnd by (intro seg_keep [OF r agr]) auto
  ultimately show "seg (merge_into (of_nat a) (of_nat ?b) m) a ((sz1 + 24 + sz2, fr1) # bs) 0"
    unfolding eq by (cases "bs = []") (simp_all add: add.assoc)
  show "agree (- {a..<a + 20}) m (merge_into (of_nat a) (of_nat ?b) m)" unfolding eq by (rule agr)
qed

text \<open>Merging with the next block happens exactly when there is one and it is free.\<close>

fun merge_head :: "blocks \<Rightarrow> blocks" where
  "merge_head ((sz1, f) # (sz2, True) # bs) = (sz1 + 24 + sz2, f) # bs"
| "merge_head bs = bs"

lemma merge_next_seg:
  assumes s: "seg m a ((sz, fr) # bs) 0" and bnd: "a + extent ((sz, fr) # bs) < 2 ^ 64"
  shows "seg (merge_next (of_nat a) m) a (merge_head ((sz, fr) # bs)) 0"
    "agree (- {a..<a + 20}) m (merge_next (of_nat a) m)"
proof -
  have "seg (merge_next (of_nat a) m) a (merge_head ((sz, fr) # bs)) 0 \<and>
    agree (- {a..<a + 20}) m (merge_next (of_nat a) m)"
  proof (cases bs)
    case Nil
    then have "merge_next (of_nat a) m = m" using s by (simp add: merge_next_def hdr_def)
    then show ?thesis using s Nil by simp
  next
    case (Cons b bs')
    obtain sz2 fr2 where b: "b = (sz2, fr2)" by (cases b)
    let ?b = "a + 24 + sz"
    have h1: "hdr m a sz ?b fr" and h2: "hdr m ?b sz2 (if bs' = [] then 0 else ?b + 24 + sz2) fr2"
      using s Cons b by auto
    have nn: "(of_nat ?b :: u64) \<noteq> 0" using bnd Cons by (intro of_nat_neq_0) auto
    show ?thesis
    proof (cases fr2)
      case False
      then have "merge_next (of_nat a) m = m"
        using hdrD(2) [OF h1] hdrD(3) [OF h2] by (simp add: merge_next_def del: of_nat_add)
      then show ?thesis using s Cons b False by simp
    next
      case True
      have b24: "a + 24 \<le> 2 ^ 64" using bnd by simp
      have "rd64 (wr64 (of_nat a) v m) (of_nat a + 8) = of_nat ?b" for v
        by (rule hdrD(2) [OF set_size_hdr(1) [OF h1 b24]])
      then have "merge_next (of_nat a) m = merge_into (of_nat a) (of_nat ?b) m"
        using hdrD(2) [OF h1] hdrD(3) [OF h2] nn True
        by (simp add: merge_next_def merge_into_def Let_def del: of_nat_add)
      then show ?thesis using merge_into_seg [of m a sz fr sz2 fr2 bs'] s bnd Cons b True by simp
    qed
  qed
  then show "seg (merge_next (of_nat a) m) a (merge_head ((sz, fr) # bs)) 0"
    "agree (- {a..<a + 20}) m (merge_next (of_nat a) m)" by auto
qed

end
