(* ===== verification/Kheap.thy ===== *)
theory Kheap
  imports Memory_Init Heap_Blocks
begin

text \<open>
  The kernel heap of \<open>kernel/memory.c\<close>: \<open>kmalloc\<close>, \<open>kfree\<close> and \<open>test_memory_management\<close>. The list
  of block headers lives in byte-addressed memory, as in the code; loops that follow its
  pointers are partial functions, so that an endless walk is the value \<open>None\<close>. The heap is
  shown to implement a best-fit allocator on a list of adjacent blocks.
\<close>

section \<open>Operations\<close>

text \<open>Back one page of the heap by a physical frame; the messages differ between the two uses.\<close>

definition back_page :: "string \<Rightarrow> string \<Rightarrow> u64 \<Rightarrow> 'a kmem_scheme \<Rightarrow> bool \<times> 'a kmem_scheme" where
  "back_page alloc_msg map_msg addr s =
     (let (phys_page, v1) = alloc_physical_page (vm s); s1 = s\<lparr>vm := v1\<rparr>
      in if phys_page = NULL then (False, kprint alloc_msg s1)
         else
           (let (r, v2) = map_page addr phys_page (PAGE_PRESENT OR PAGE_WRITABLE) (vm s1); s2 = s1\<lparr>vm := v2\<rparr>
            in if r \<noteq> 0 then (False, kprint map_msg s2) else (True, s2)))"

partial_function (option) heap_init_loop :: "u64 \<Rightarrow> 'a kmem_scheme \<Rightarrow> (bool \<times> 'a kmem_scheme) option" where
  "heap_init_loop addr s =
     (if addr < heap_start (vm s) + 0x400000 then
        (case back_page ''ERROR: Failed to allocate physical page for heap\<newline>''
                ''ERROR: Failed to map page for heap\<newline>'' addr s of
           (ok, s1) \<Rightarrow> if ok then heap_init_loop (addr + PAGE_SIZE) s1 else Some (False, s1))
      else Some (True, s))"

definition heap_init :: "'a kmem_scheme \<Rightarrow> (bool \<times> 'a kmem_scheme) option" where
  "heap_init s =
     (case heap_init_loop (heap_start (vm s)) s of
        None \<Rightarrow> None
      | Some (ok, s1) \<Rightarrow>
          if \<not> ok then Some (False, s1)
          else
            (let b = heap_start (vm s1)
             in Some (True, s1\<lparr>heap_first_block := b,
                  heap_mem := set_block b (0x400000 - 24) NULL 1 (heap_mem s1),
                  vm := (vm s1)\<lparr>heap_end := heap_start (vm s1) + 0x400000\<rparr>\<rparr>)))"

partial_function (option) heap_extend_loop :: "u64 \<Rightarrow> u64 \<Rightarrow> 'a kmem_scheme \<Rightarrow> (bool \<times> 'a kmem_scheme) option" where
  "heap_extend_loop i pages_needed s =
     (if i < pages_needed then
        (case back_page ''ERROR: Failed to allocate physical page for heap extension\<newline>''
                ''ERROR: Failed to map page for heap extension\<newline>''
                (heap_end (vm s) + i * PAGE_SIZE) s of
           (ok, s1) \<Rightarrow> if ok then heap_extend_loop (i + 1) pages_needed s1 else Some (False, s1))
      else Some (True, s))"

text \<open>The block appended when nothing fits; \<open>NULL\<close> when a page could not be backed.\<close>

definition heap_extend :: "u64 \<Rightarrow> 'a kmem_scheme \<Rightarrow> (u64 \<times> 'a kmem_scheme) option" where
  "heap_extend sz s =
     (let needed_size = 24 + sz;
          pages_needed = (needed_size + PAGE_SIZE - 1) div PAGE_SIZE
      in case heap_extend_loop 0 pages_needed s of
           None \<Rightarrow> None
         | Some (ok, s1) \<Rightarrow>
             if \<not> ok then Some (NULL, s1)
             else
               (let b = heap_end (vm s1);
                    m1 = set_block b (pages_needed * PAGE_SIZE - 24) NULL 1 (heap_mem s1)
                in case find_last m1 (heap_first_block s1) of
                     None \<Rightarrow> None
                   | Some lst \<Rightarrow>
                       Some (b, s1\<lparr>heap_mem := wr64 (lst + 8) b m1,
                         vm := (vm s1)\<lparr>heap_end := heap_end (vm s1) + pages_needed * PAGE_SIZE\<rparr>\<rparr>)))"

text \<open>\<open>size = (size + 3) & ~3\<close>.\<close>

definition round4 :: "u64 \<Rightarrow> u64" where
  "round4 sz = (sz + 3) AND NOT 3"

definition kmalloc :: "u64 \<Rightarrow> 'a kmem_scheme \<Rightarrow> (u64 \<times> 'a kmem_scheme) option" where
  "kmalloc sz0 s =
     (let sz = round4 sz0
      in case (if heap_first_block s = NULL then heap_init s else Some (True, s)) of
           None \<Rightarrow> None
         | Some (ok, s1) \<Rightarrow>
             if \<not> ok then Some (NULL, s1)
             else
               (case find_best (heap_mem s1) sz (heap_first_block s1) NULL of
                  None \<Rightarrow> None
                | Some best \<Rightarrow>
                    (case (if best = NULL then heap_extend sz s1 else Some (best, s1)) of
                       None \<Rightarrow> None
                     | Some (b, s2) \<Rightarrow>
                         if b = NULL then Some (NULL, s2)
                         else
                           (let (p, m) = take_block b sz (heap_mem s2)
                            in Some (p, s2\<lparr>heap_mem := m\<rparr>)))))"

definition kfree :: "u64 \<Rightarrow> 'a kmem_scheme \<Rightarrow> 'a kmem_scheme option" where
  "kfree ptr s =
     (if ptr = NULL then Some s
      else
        (let b = ptr - 24;
             m1 = wr32 (b + 16) 1 (heap_mem s);
             m2 = merge_next b m1
         in case find_prev m2 b (heap_first_block s) of
              None \<Rightarrow> None
            | Some cur \<Rightarrow>
                Some (s\<lparr>heap_mem :=
                  (if cur \<noteq> NULL \<and> b_free m2 cur \<noteq> 0 then merge_into cur b m2 else m2)\<rparr>)))"


text \<open>The boot-time self test; storing and comparing the test pattern are byte accesses.\<close>

definition write_pattern :: "u64 \<Rightarrow> nat \<Rightarrow> mem \<Rightarrow> mem" where
  "write_pattern p n m = fold (\<lambda>i m. m(p + of_nat i := of_nat (i mod 256))) [0..<n] m"

definition pattern_ok :: "u64 \<Rightarrow> nat \<Rightarrow> mem \<Rightarrow> bool" where
  "pattern_ok p n m \<longleftrightarrow> list_all (\<lambda>i. m (p + of_nat i) = of_nat (i mod 256)) [0..<n]"

definition test_first :: "u64 \<Rightarrow> 'a kmem_scheme \<Rightarrow> 'a kmem_scheme option" where
  "test_first ptr1 s =
     (if ptr1 \<noteq> NULL then
        (let s1 = kprint ''kmalloc(128) successful\<newline>'' s;
             s2 = s1\<lparr>heap_mem := write_pattern ptr1 128 (heap_mem s1)\<rparr>;
             s3 = (if pattern_ok ptr1 128 (heap_mem s2) then kprint ''Memory read/write test passed\<newline>'' s2
                   else kprint ''Memory read/write test failed\<newline>'' s2)
         in case kfree ptr1 s3 of None \<Rightarrow> None | Some s4 \<Rightarrow> Some (kprint ''kfree() successful\<newline>'' s4))
      else Some (kprint ''kmalloc(128) failed\<newline>'' s))"

definition test_second :: "u64 \<Rightarrow> 'a kmem_scheme \<Rightarrow> 'a kmem_scheme option" where
  "test_second ptr2 s =
     (if ptr2 \<noteq> NULL then
        (case kfree ptr2 (kprint ''kmalloc(256) successful\<newline>'' s) of
           None \<Rightarrow> None | Some s1 \<Rightarrow> Some (kprint ''kfree() successful\<newline>'' s1))
      else Some (kprint ''kmalloc(256) failed\<newline>'' s))"

definition test_memory_management :: "'a kmem_scheme \<Rightarrow> 'a kmem_scheme option" where
  "test_memory_management s =
     (case kmalloc 128 (kprint ''Testing memory management...\<newline>'' s) of
        None \<Rightarrow> None
      | Some (ptr1, s1) \<Rightarrow>
          (case test_first ptr1 s1 of
             None \<Rightarrow> None
           | Some s2 \<Rightarrow>
               (case kmalloc 256 s2 of
                  None \<Rightarrow> None
                | Some (ptr2, s3) \<Rightarrow>
                    (case test_second ptr2 s3 of
                       None \<Rightarrow> None
                     | Some s4 \<Rightarrow> Some (kprint ''Memory management test completed.\<newline>'' s4)))))"

section \<open>Frames and termination of the loops\<close>

lemma alloc_physical_page_frame [simp]:
  "heap_start (snd (alloc_physical_page v)) = heap_start v" "heap_end (snd (alloc_physical_page v)) = heap_end v"
  by (simp_all add: alloc_physical_page_def Let_def)

definition same_heap :: "'a kmem_scheme \<Rightarrow> 'a kmem_scheme \<Rightarrow> bool" where
  "same_heap s s' \<longleftrightarrow> heap_mem s' = heap_mem s \<and> heap_first_block s' = heap_first_block s \<and>
     heap_start (vm s') = heap_start (vm s) \<and> heap_end (vm s') = heap_end (vm s)"

lemma back_page_same: "back_page m1 m2 a s = (ok, s') \<Longrightarrow> same_heap s s'"
  by (auto simp: back_page_def same_heap_def Let_def split_beta split: if_splits)

lemma same_heap_trans: "same_heap s s1 \<Longrightarrow> same_heap s1 s2 \<Longrightarrow> same_heap s s2"
  by (simp add: same_heap_def)

lemma heap_extend_loop_returns:
  "\<exists>ok s'. heap_extend_loop i n s = Some (ok, s') \<and> same_heap s s'"
proof (induction "unat n - unat i" arbitrary: i s)
  case 0
  then have "\<not> i < n" by (simp add: word_less_nat_alt)
  then show ?case by (subst heap_extend_loop.simps) (auto simp: same_heap_def)
next
  case (Suc k)
  then have lt: "i < n" by (simp add: word_less_nat_alt)
  obtain ok s1 where b: "back_page ''ERROR: Failed to allocate physical page for heap extension\<newline>''
      ''ERROR: Failed to map page for heap extension\<newline>'' (heap_end (vm s) + i * PAGE_SIZE) s = (ok, s1)"
    by fastforce
  have s1: "same_heap s s1" by (rule back_page_same [OF b])
  have "unat (i + 1) = unat i + 1"
    using lt unsigned_less [of n, where 'a = nat] by (subst unat_add_small) (simp_all add: word_less_nat_alt)
  then have "k = unat n - unat (i + 1)" using Suc.hyps(2) by simp
  from Suc.hyps(1) [OF this, of s1] show ?case
    using lt b s1 by (subst heap_extend_loop.simps) (auto intro: same_heap_trans)
qed

section \<open>The heap as a list of blocks\<close>

fun coalesced :: "blocks \<Rightarrow> bool" where
  "coalesced ((z1, f1) # (z2, f2) # bs) \<longleftrightarrow> \<not> (f1 \<and> f2) \<and> coalesced ((z2, f2) # bs)"
| "coalesced bs \<longleftrightarrow> True"

definition heap_wf :: "'a kmem_scheme \<Rightarrow> blocks \<Rightarrow> bool" where
  "heap_wf s bs \<longleftrightarrow> bs \<noteq> [] \<and> heap_first_block s = heap_start (vm s) \<and> 16 \<le> unat (heap_start (vm s)) \<and>
     unat (heap_end (vm s)) = unat (heap_start (vm s)) + extent bs \<and>
     seg (heap_mem s) (unat (heap_start (vm s))) bs 0"

definition heap_ok :: "'a kmem_scheme \<Rightarrow> blocks \<Rightarrow> bool" where
  "heap_ok s bs \<longleftrightarrow> heap_wf s bs \<and> coalesced bs"

abbreviation heap_base :: "'a kmem_scheme \<Rightarrow> nat" where
  "heap_base s \<equiv> unat (heap_start (vm s))"

text \<open>Bytes that belong to allocated blocks.\<close>

fun alloc_bytes :: "nat \<Rightarrow> blocks \<Rightarrow> nat set" where
  "alloc_bytes a [] = {}"
| "alloc_bytes a ((sz, fr) # bs) = (if fr then {} else {a + 24..<a + 24 + sz}) \<union> alloc_bytes (a + 24 + sz) bs"

lemma alloc_bytes_append: "alloc_bytes a (xs @ ys) = alloc_bytes a xs \<union> alloc_bytes (a + extent xs) ys"
  by (induction a xs rule: alloc_bytes.induct) (auto simp: add.assoc)

lemma alloc_bytes_range: "alloc_bytes a bs \<subseteq> {a..<a + extent bs}"
proof (induction a bs rule: alloc_bytes.induct)
  case (2 a sz fr bs)
  then show ?case by (auto dest!: subsetD)
qed simp

lemma coalesced_Cons: "coalesced (b # bs) \<longleftrightarrow> (bs = [] \<or> \<not> (snd b \<and> snd (hd bs))) \<and> coalesced bs"
  by (cases b; cases bs) auto

lemma coalesced_append:
  "coalesced (xs @ b # ys) \<longleftrightarrow> coalesced (xs @ [b]) \<and> coalesced (b # ys)"
  by (induction xs) (auto simp: coalesced_Cons hd_append)

lemma coalesced_snoc: "coalesced (bs @ [b]) \<longleftrightarrow> (bs = [] \<or> \<not> (snd b \<and> snd (last bs))) \<and> coalesced bs"
  by (induction bs) (auto simp: coalesced_Cons hd_append)

lemma coalesced_carve:
  "coalesced (xs @ (sz, True) # ys) \<Longrightarrow> coalesced (xs @ carve n sz @ ys)"
  "coalesced xs \<Longrightarrow> coalesced (xs @ carve n sz)"
  by (auto simp: carve_def coalesced_append [of xs] coalesced_snoc coalesced_Cons)

lemma heap_wf_bounds:
  assumes "heap_wf s bs"
  shows "heap_base s + extent bs < 2 ^ 64" "0 < heap_base s" "of_nat (heap_base s) = heap_start (vm s)"
    "heap_first_block s = of_nat (heap_base s)"
  using assms unsigned_less [of "heap_end (vm s)", where 'a = nat] by (auto simp: heap_wf_def)

text \<open>Bytes that no heap operation may change: those below the heap and those handed out.\<close>

definition kept_bytes :: "nat \<Rightarrow> blocks \<Rightarrow> nat set" where
  "kept_bytes a bs = {..<a} \<union> alloc_bytes a bs"

text \<open>Searching the list.\<close>

lemma find_best_heap:
  assumes ok: "heap_wf s bs" and n: "n < 2 ^ 64"
  obtains (none) "find_best (heap_mem s) (of_nat n) (heap_first_block s) NULL = Some NULL" "\<forall>b\<in>set bs. \<not> fits n b"
  | (best) xs sz ys where "best_split n bs xs sz ys"
      "find_best (heap_mem s) (of_nat n) (heap_first_block s) NULL = Some (of_nat (heap_base s + extent xs))"
proof -
  note bd = heap_wf_bounds [OF ok]
  have "best_so_far n (heap_base s) [] NULL" by (simp add: best_so_far_def)
  moreover have "seg (heap_mem s) (heap_base s) ([] @ bs) 0" using ok by (simp add: heap_wf_def)
  ultimately obtain b where b: "find_best (heap_mem s) (of_nat n) (of_nat (heap_base s)) NULL = Some b"
    "best_so_far n (heap_base s) bs b"
    using find_best_seg [of "heap_mem s" "heap_base s" "[]" bs n NULL] bd(1,2) n ok
    by (auto simp: heap_wf_def)
  show thesis
  proof (cases "\<forall>b\<in>set bs. \<not> fits n b")
    case True
    then show thesis using b none bd(4) by (simp add: best_so_far_def)
  next
    case False
    then obtain xs sz ys where "best_split n bs xs sz ys" "b = of_nat (heap_base s + extent xs)"
      using b(2) unfolding best_so_far_def by (simp only: if_False) blast
    then show thesis using b(1) best bd(4) by (simp del: of_nat_add)
  qed
qed

text \<open>Taking a block out of the list, and appending one.\<close>

lemma take_block_heap:
  assumes ok: "heap_wf s (xs @ (sz, True) # ys)" and n: "n \<le> sz"
  obtains m where "take_block (of_nat (heap_base s + extent xs)) (of_nat n) (heap_mem s) =
      (of_nat (heap_base s + extent xs + 24), m)"
    "heap_wf (s\<lparr>heap_mem := m\<rparr>) (xs @ carve n sz @ ys)"
    "agree (kept_bytes (heap_base s) (xs @ (sz, True) # ys)) (heap_mem s) m"
proof -
  let ?A = "heap_base s" let ?a = "?A + extent xs"
  note bd = heap_wf_bounds [OF ok]
  have s: "seg (heap_mem s) ?A (xs @ (sz, True) # ys) 0" and A: "16 \<le> ?A" using ok by (auto simp: heap_wf_def)
  let ?nx = "if ys = [] then 0 else ?a + 24 + sz"
  have h: "hdr (heap_mem s) ?a sz ?nx True" using seg_hdr [OF s] by simp
  obtain m where m: "take_block (of_nat ?a) (of_nat n) (heap_mem s) = (of_nat (?a + 24), m)"
    "seg m ?a (carve n sz) ?nx" "agree (- {?a..<?a + 24 + sz}) (heap_mem s) m"
    using bd(1) A by (rule_tac take_block_seg [OF h n]) auto
  have seg': "seg m ?A (xs @ carve n sz @ ys) 0"
    using seg_replace [of "heap_mem s" ?A xs "[(sz, True)]" ys 0 "carve n sz" m] s m(2,3) bd(1)
      carve_extent(1) [OF n] carve_extent(2) by (cases "ys = []") (auto simp: add.assoc)
  have "heap_wf (s\<lparr>heap_mem := m\<rparr>) (xs @ carve n sz @ ys)"
    using ok seg' carve_extent(1) [OF n] carve_extent(2) by (simp add: heap_wf_def)
  moreover have "agree (kept_bytes ?A (xs @ (sz, True) # ys)) (heap_mem s) m"
    using alloc_bytes_range [of ?A xs] alloc_bytes_range [of "?a + 24 + sz" ys]
    by (intro agree_sub [OF m(3)]) (auto simp: kept_bytes_def alloc_bytes_append add.assoc)
  ultimately show thesis using m(1) that by blast
qed


text \<open>The number of pages by which the heap grows for a request of \<open>n\<close> bytes.\<close>

definition grow_bytes :: "nat \<Rightarrow> nat" where
  "grow_bytes n = (24 + n + 4095) div 4096 * 4096"

lemma grow_bytes_bounds: "24 + n \<le> grow_bytes n" "grow_bytes n < 24 + n + 4096"
  unfolding grow_bytes_def
  using div_mult_mod_eq [of "24 + n + 4095" 4096] mod_less_divisor [of 4096 "24 + n + 4095"] by linarith+

lemma pages_needed_eq:
  assumes "n + 5000 < 2 ^ 64"
  shows "(24 + of_nat n + PAGE_SIZE - 1) div PAGE_SIZE * PAGE_SIZE = (of_nat (grow_bytes n) :: u64)"
proof -
  have "(24 + of_nat n + PAGE_SIZE - 1 :: u64) = of_nat (24 + n + 4095)" by simp
  moreover have "unat (of_nat (24 + n + 4095) :: u64) = 24 + n + 4095"
    using assms by (intro unat_of_nat_small) simp
  ultimately have "(24 + of_nat n + PAGE_SIZE - 1) div PAGE_SIZE = (of_nat ((24 + n + 4095) div 4096) :: u64)"
    by (simp only: word_arith_nat_div) simp
  then show ?thesis by (simp add: grow_bytes_def)
qed

text \<open>Appending a free block of \<open>g\<close> bytes at the end of the heap: its header is written and the last block linked to it.\<close>

lemma append_block:
  assumes s: "seg m A bs 0" "bs \<noteq> []" and g: "24 \<le> g" "A + extent bs + g < 2 ^ 64" and A: "0 < A"
    and m1: "m1 = set_block (of_nat (A + extent bs)) (of_nat g - 24) NULL 1 m"
    and m2: "m2 = wr64 (of_nat (A + extent (butlast bs)) + 8) (of_nat (A + extent bs)) m1"
  shows "find_last m1 (of_nat A) = Some (of_nat (A + extent (butlast bs)))" "seg m2 A (bs @ [(g - 24, True)]) 0"
    "agree (kept_bytes A bs) m m2"
proof -
  let ?E = "A + extent bs" and ?l = "A + extent (butlast bs)"
  have "?E + 24 \<le> 2 ^ 64" using g by simp
  note w = set_block_hdr [OF this, where sz = "of_nat g - 24" and nx = NULL and fr = 1 and m = m, folded m1]
  have "unat (of_nat g - 24 :: u64) = g - 24"
    using g unat_of_nat_small [of g, where 'a = 64] by (subst unat_sub) (auto simp: word_le_nat_alt)
  then have h: "hdr m1 ?E (g - 24) 0 True" using w(1) by simp
  have s1: "seg m1 A bs 0" using g by (intro seg_keep [OF s(1) w(2)]) auto
  show "find_last m1 (of_nat A) = Some (of_nat ?l)" using g A by (intro find_last_seg [OF s1 s(2)]) auto
  show "seg m2 A (bs @ [(g - 24, True)]) 0" unfolding m2 using g by (intro seg_snoc_link [OF s1 s(2) _ h]) auto
  obtain xs z f where x: "bs = xs @ [(z, f)]" using s(2) by (metis append_butlast_last_id surj_pair)
  have "hdr m1 ?l z 0 f" using seg_hdr [of m1 A xs z f "[]" 0] s1 x by simp
  then have ag: "agree (- {?l..<?l + 20}) m1 m2" unfolding m2 using g x by (intro set_next_hdr) auto
  have "agree (kept_bytes A bs) m1 m2"
    using alloc_bytes_range [of A xs] by (intro agree_sub [OF ag]) (auto simp: x kept_bytes_def alloc_bytes_append)
  moreover have "agree (kept_bytes A bs) m m1"
    using alloc_bytes_range [of A bs] by (intro agree_sub [OF w(2)]) (auto simp: kept_bytes_def)
  ultimately show "agree (kept_bytes A bs) m m2" by (rule agree_trans [rotated])
qed

lemma heap_extend_heap:
  assumes ok: "heap_wf s bs" and n: "heap_base s + extent bs + n + 5000 < 2 ^ 64"
  obtains (fail) s' where "heap_extend (of_nat n) s = Some (NULL, s')" "heap_wf s' bs"
      "heap_base s' = heap_base s" "heap_mem s' = heap_mem s"
  | (grown) s1 where
      "heap_extend (of_nat n) s = Some (of_nat (heap_base s + extent bs), s1)"
      "heap_base s1 = heap_base s" "heap_wf s1 (bs @ [(grow_bytes n - 24, True)])"
      "agree (kept_bytes (heap_base s) bs) (heap_mem s) (heap_mem s1)"
proof -
  let ?A = "heap_base s" let ?E = "?A + extent bs" let ?g = "grow_bytes n"
  let ?pn = "(24 + of_nat n + PAGE_SIZE - 1) div PAGE_SIZE :: u64"
  note bd = heap_wf_bounds [OF ok] and gb = grow_bytes_bounds [of n]
  obtain r s1 where l: "heap_extend_loop 0 ?pn s = Some (r, s1)" "same_heap s s1"
    using heap_extend_loop_returns by blast
  have pn: "?pn * PAGE_SIZE = of_nat ?g" using n by (intro pages_needed_eq) simp
  have hend: "heap_end (vm s) = of_nat ?E"
  proof -
    have "unat (heap_end (vm s)) = ?E" using ok by (simp add: heap_wf_def)
    then show ?thesis by (rule unat_eqD)
  qed
  show thesis
  proof (cases r)
    case False
    then show thesis using l ok by (intro fail [of s1]) (auto simp: heap_extend_def Let_def same_heap_def heap_wf_def)
  next
    case True
    let ?m1 = "set_block (of_nat ?E) (of_nat ?g - 24) NULL 1 (heap_mem s)"
    let ?m2 = "wr64 (of_nat (?A + extent (butlast bs)) + 8) (of_nat ?E) ?m1"
    let ?s2 = "s1\<lparr>heap_mem := ?m2, vm := (vm s1)\<lparr>heap_end := of_nat ?E + of_nat ?g\<rparr>\<rparr>"
    have "seg (heap_mem s) ?A bs 0" "bs \<noteq> []" "24 \<le> ?g" "?E + ?g < 2 ^ 64" using ok gb n by (auto simp: heap_wf_def)
    note ab = append_block [OF this bd(2) refl refl]
    have "heap_extend (of_nat n) s = Some (of_nat ?E, ?s2)"
      using l True ab(1) bd(4) hend pn
      by (simp add: heap_extend_def Let_def same_heap_def del: of_nat_add)
    moreover have "unat (of_nat ?E + of_nat ?g :: u64) = ?E + ?g"
      using gb n unat_of_nat_small [of "?E + ?g", where 'a = 64] by simp
    ultimately show thesis
      using l(2) ok gb ab(2,3) by (intro grown [of ?s2]) (auto simp: same_heap_def heap_wf_def simp del: of_nat_add)
  qed
qed


section \<open>\<open>kmalloc\<close>\<close>

text \<open>What a request of \<open>n\<close> (rounded) bytes does to the list of blocks.\<close>

inductive alloc_step :: "nat \<Rightarrow> blocks \<Rightarrow> nat \<Rightarrow> blocks \<Rightarrow> bool" for n :: nat where
  fit: "best_split n bs xs sz ys \<Longrightarrow> alloc_step n bs (extent xs) (xs @ carve n sz @ ys)"
| extend: "\<forall>b\<in>set bs. \<not> fits n b \<Longrightarrow> alloc_step n bs (extent bs) (bs @ carve n (grow_bytes n - 24))"

lemma kmalloc_fit:
  assumes ok: "heap_ok s bs" and n: "round4 sz0 = of_nat n" "n < 2 ^ 64" and fit: "\<exists>b\<in>set bs. fits n b"
  obtains xs z ys m where "best_split n bs xs z ys"
    "kmalloc sz0 s = Some (of_nat (heap_base s + extent xs + 24), s\<lparr>heap_mem := m\<rparr>)"
    "heap_ok (s\<lparr>heap_mem := m\<rparr>) (xs @ carve n z @ ys)" "agree (kept_bytes (heap_base s) bs) (heap_mem s) m"
proof -
  let ?A = "heap_base s"
  have wf: "heap_wf s bs" and co: "coalesced bs" using ok by (auto simp: heap_ok_def)
  note bd = heap_wf_bounds [OF wf]
  have first: "heap_first_block s \<noteq> NULL" unfolding bd(4) using bd(1,2) by (intro of_nat_neq_0) auto
  from wf n(2) obtain xs z ys where best: "best_split n bs xs z ys"
    "find_best (heap_mem s) (of_nat n) (heap_first_block s) NULL = Some (of_nat (?A + extent xs))"
    by (rule find_best_heap) (use fit in blast)+
  have bs: "bs = xs @ (z, True) # ys" and nz: "n \<le> z" using best(1) by (auto simp: best_split_def)
  obtain m where m: "take_block (of_nat (?A + extent xs)) (of_nat n) (heap_mem s) = (of_nat (?A + extent xs + 24), m)"
    "heap_wf (s\<lparr>heap_mem := m\<rparr>) (xs @ carve n z @ ys)" "agree (kept_bytes ?A bs) (heap_mem s) m"
    using take_block_heap [OF wf [unfolded bs] nz] bs by metis
  have "(of_nat (?A + extent xs) :: u64) \<noteq> 0" using bd(1,2) bs by (intro of_nat_neq_0) auto
  then have "kmalloc sz0 s = Some (of_nat (?A + extent xs + 24), s\<lparr>heap_mem := m\<rparr>)"
    using first best(2) m(1) by (simp add: kmalloc_def n Let_def del: of_nat_add)
  moreover have "heap_ok (s\<lparr>heap_mem := m\<rparr>) (xs @ carve n z @ ys)"
    using m(2) co bs by (simp add: heap_ok_def coalesced_carve)
  ultimately show thesis using that best(1) m(3) by blast
qed

lemma kmalloc_extend:
  assumes ok: "heap_ok s bs" and n: "round4 sz0 = of_nat n" and room: "heap_base s + extent bs + n + 5000 < 2 ^ 64"
    and nofit: "\<forall>b\<in>set bs. \<not> fits n b"
  obtains (null) s' where "kmalloc sz0 s = Some (NULL, s')" "heap_ok s' bs" "heap_mem s' = heap_mem s" "heap_base s' = heap_base s"
  | (allocated) s' where "kmalloc sz0 s = Some (of_nat (heap_base s + extent bs + 24), s')"
      "heap_ok s' (bs @ carve n (grow_bytes n - 24))" "heap_base s' = heap_base s"
      "agree (kept_bytes (heap_base s) bs) (heap_mem s) (heap_mem s')"
proof -
  let ?A = "heap_base s" let ?E = "?A + extent bs" let ?bs = "bs @ [(grow_bytes n - 24, True)]"
  have wf: "heap_wf s bs" and co: "coalesced bs" using ok by (auto simp: heap_ok_def)
  note bd = heap_wf_bounds [OF wf]
  have nz: "heap_first_block s \<noteq> NULL" "(of_nat ?E :: u64) \<noteq> 0" unfolding bd(4) using bd(1,2) by (intro of_nat_neq_0; auto)+
  have "n < 2 ^ 64" using room by simp
  from wf this have none: "find_best (heap_mem s) (of_nat n) (heap_first_block s) NULL = Some NULL"
    by (rule find_best_heap; use nofit in \<open>auto simp: best_split_def fits_def\<close>)
  from wf room show thesis
  proof (cases rule: heap_extend_heap)
    case (fail s')
    then have "kmalloc sz0 s = Some (NULL, s')" using nz none by (simp add: kmalloc_def n Let_def)
    moreover have "heap_ok s' bs" using fail(2) co by (simp add: heap_ok_def)
    ultimately show thesis using null fail by blast
  next
    case (grown s1)
    have "n \<le> grow_bytes n - 24" using grow_bytes_bounds(1) [of n] by simp
    from take_block_heap [OF grown(3) this]
    obtain m where m: "take_block (of_nat ?E) (of_nat n) (heap_mem s1) = (of_nat (?E + 24), m)"
      "heap_wf (s1\<lparr>heap_mem := m\<rparr>) (bs @ carve n (grow_bytes n - 24))" "agree (kept_bytes ?A ?bs) (heap_mem s1) m"
      unfolding grown(2) by auto
    have "kmalloc sz0 s = Some (of_nat (?E + 24), s1\<lparr>heap_mem := m\<rparr>)"
      using nz none grown(1) m(1) by (simp add: kmalloc_def n Let_def del: of_nat_add)
    moreover have "heap_ok (s1\<lparr>heap_mem := m\<rparr>) (bs @ carve n (grow_bytes n - 24))" using m(2) co by (simp add: heap_ok_def coalesced_carve)
    moreover have "agree (kept_bytes ?A bs) (heap_mem s) m"
      using m(3) by (intro agree_trans [OF grown(4)]) (auto simp: kept_bytes_def alloc_bytes_append elim: agree_sub)
    ultimately show thesis using allocated grown(2) by simp
  qed
qed

lemma kmalloc_heap:
  assumes ok: "heap_ok s bs" and sz: "unat sz0 + 3 < 2 ^ 64" "n = (unat sz0 + 3) div 4 * 4"
    and room: "heap_base s + extent bs + n + 5000 < 2 ^ 64"
  obtains (null) s' where "kmalloc sz0 s = Some (NULL, s')" "heap_ok s' bs" "heap_mem s' = heap_mem s"
      "heap_base s' = heap_base s" "\<forall>b\<in>set bs. \<not> fits n b"
  | (allocated) s' off bs' where "kmalloc sz0 s = Some (of_nat (heap_base s + off + 24), s')"
      "alloc_step n bs off bs'" "heap_ok s' bs'" "heap_base s' = heap_base s"
      "agree (kept_bytes (heap_base s) bs) (heap_mem s) (heap_mem s')"
proof -
  have "unat (round4 sz0) = n" unfolding round4_def sz(2) using sz(1) by (intro unat_round4) simp_all
  then have n: "round4 sz0 = of_nat n" by (rule unat_eqD)
  have nlt: "n < 2 ^ 64" using room by simp
  show thesis
  proof (cases "\<exists>b\<in>set bs. fits n b")
    case True
    obtain xs z ys m where f: "best_split n bs xs z ys"
      "kmalloc sz0 s = Some (of_nat (heap_base s + extent xs + 24), s\<lparr>heap_mem := m\<rparr>)"
      "heap_ok (s\<lparr>heap_mem := m\<rparr>) (xs @ carve n z @ ys)" "agree (kept_bytes (heap_base s) bs) (heap_mem s) m"
      by (rule kmalloc_fit [OF ok n nlt True])
    then show thesis using allocated [OF f(2) alloc_step.fit [OF f(1)]] by simp
  next
    case False
    then have nofit: "\<forall>b\<in>set bs. \<not> fits n b" by blast
    from ok n room nofit show thesis
      by (cases rule: kmalloc_extend) (use null allocated alloc_step.extend nofit in blast)+
  qed
qed

section \<open>\<open>kfree\<close>\<close>

lemma extent_merge_head [simp]: "extent (merge_head bs) = extent bs"
  by (induction bs rule: merge_head.induct) auto

lemma merge_head_ne [simp]: "merge_head bs = [] \<longleftrightarrow> bs = []"
  by (induction bs rule: merge_head.induct) auto

text \<open>The list after the block between \<open>xs\<close> and \<open>ys\<close> is released.\<close>

definition release :: "blocks \<Rightarrow> nat \<Rightarrow> blocks \<Rightarrow> blocks" where
  "release xs sz ys =
     (let zs = merge_head ((sz, True) # ys)
      in if xs \<noteq> [] \<and> snd (last xs) then butlast xs @ merge_head (last xs # zs) else xs @ zs)"

lemma merge_head_shape: "\<exists>z' ys'. merge_head ((sz, True) # ys) = (z', True) # ys'"
proof (cases ys)
  case (Cons b bs)
  then show ?thesis by (cases b; cases "snd b") auto
qed simp

lemma coalesced_release:
  assumes "coalesced (xs @ (sz, False) # ys)"
  shows "coalesced (release xs sz ys)"
proof -
  have x: "coalesced xs" and y: "coalesced ys"
    using assms by (auto simp: coalesced_append [of xs] coalesced_snoc coalesced_Cons)
  obtain z' ys' where z: "merge_head ((sz, True) # ys) = (z', True) # ys'" using merge_head_shape by blast
  have zs: "coalesced ((z', True) # ys')"
  proof (cases ys)
    case (Cons b bs)
    then show ?thesis using z y by (cases b; cases "snd b") (auto simp: coalesced_Cons)
  qed (use z in simp)
  show ?thesis
  proof (cases "xs \<noteq> [] \<and> snd (last xs)")
    case True
    then obtain us u where u: "xs = us @ [(u, True)]" by (metis append_butlast_last_id surjective_pairing)
    then show ?thesis using x zs
      by (simp add: release_def z coalesced_append [of us] coalesced_snoc coalesced_Cons)
  next
    case False
    then show ?thesis using x zs
      by (auto simp: release_def z coalesced_append [of xs] coalesced_snoc)
  qed
qed

lemma seg_suffix:
  assumes s: "seg m a (xs @ us) nx" and ne: "us \<noteq> []" "vs \<noteq> []" "extent vs = extent us"
    and mid: "seg m' (a + extent xs) vs nx" and agr: "agree (- {a + extent xs..<a + extent xs + k}) m m'"
    and k: "k \<le> extent us" and bnd: "a + extent (xs @ us) \<le> 2 ^ 64"
  shows "seg m' a (xs @ vs) nx"
proof -
  have "agree (- {a + extent xs..<a + extent xs + extent us}) m m'" using k by (intro agree_sub [OF agr]) auto
  then show ?thesis using seg_replace [of m a xs us "[]" nx vs m'] assms by simp
qed

text \<open>The memory after the block at \<open>b\<close> is marked free and merged with a free successor.\<close>

definition freed_mem :: "nat \<Rightarrow> mem \<Rightarrow> mem" where
  "freed_mem b m = merge_next (of_nat b) (wr32 (of_nat b + 16) 1 m)"

lemma freed_mem_heap:
  assumes wf: "heap_wf s (xs @ (sz, False) # ys)"
  shows "seg (freed_mem (heap_base s + extent xs) (heap_mem s)) (heap_base s) (xs @ merge_head ((sz, True) # ys)) 0"
    "agree (kept_bytes (heap_base s) (xs @ (sz, False) # ys)) (heap_mem s) (freed_mem (heap_base s + extent xs) (heap_mem s))"
proof -
  let ?A = "heap_base s" let ?b = "?A + extent xs" let ?m1 = "wr32 (of_nat ?b + 16) 1 (heap_mem s)"
  note bd = heap_wf_bounds [OF wf]
  have s: "seg (heap_mem s) ?A (xs @ (sz, False) # ys) 0" using wf by (simp add: heap_wf_def)
  have b24: "?b + 24 \<le> 2 ^ 64" and bz: "?b + extent ((sz, True) # ys) < 2 ^ 64" using bd(1) by simp_all
  note w1 = set_free_hdr [OF seg_hdr [OF s] b24, of 1]
  have tail: "seg (heap_mem s) ?b ((sz, False) # ys) 0" using s by (subst (asm) seg_append) auto
  have "seg ?m1 (?b + 24 + sz) ys 0" using tail bd(1) by (intro seg_keep [OF _ w1(2)]) auto
  then have "seg ?m1 ?b ((sz, True) # ys) 0" using w1(1) by simp
  note w2 = merge_next_seg [OF this, OF bz, folded freed_mem_def]
  have agr: "agree (- {?b..<?b + 20}) (heap_mem s) (freed_mem ?b (heap_mem s))" by (rule agree_trans [OF w1(2) w2(2)])
  show "seg (freed_mem ?b (heap_mem s)) ?A (xs @ merge_head ((sz, True) # ys)) 0"
    using w2(1) agr bd(1) by (intro seg_suffix [OF s, where k = 20]) auto
  show "agree (kept_bytes ?A (xs @ (sz, False) # ys)) (heap_mem s) (freed_mem ?b (heap_mem s))"
    using alloc_bytes_range [of ?A xs] alloc_bytes_range [of "?b + 24 + sz" ys]
    by (intro agree_sub [OF agr]) (auto simp: kept_bytes_def alloc_bytes_append add.assoc)
qed

lemma kfree_eq:
  assumes wf: "heap_wf s (xs @ (sz, False) # ys)" and b: "b = heap_base s + extent xs"
    and prev: "find_prev (freed_mem b (heap_mem s)) (of_nat b) (heap_first_block s) = Some c"
  shows "kfree (of_nat (b + 24)) s = Some (s\<lparr>heap_mem := if c \<noteq> NULL \<and> b_free (freed_mem b (heap_mem s)) c \<noteq> 0
    then merge_into c (of_nat b) (freed_mem b (heap_mem s)) else freed_mem b (heap_mem s)\<rparr>)"
proof -
  have ptr: "(of_nat (b + 24) :: u64) \<noteq> 0" using heap_wf_bounds(1,2) [OF wf] b by (intro of_nat_neq_0) auto
  have sub: "(of_nat (b + 24) :: u64) - 24 = of_nat b" by simp
  show ?thesis using prev unfolding kfree_def Let_def sub freed_mem_def [symmetric] by (simp only: ptr if_False option.case)
qed

lemma kfree_after_used:
  assumes wf: "heap_wf s (xs @ (sz, False) # ys)" and used: "xs = [] \<or> \<not> snd (last xs)" and b: "b = heap_base s + extent xs"
  shows "kfree (of_nat (b + 24)) s = Some (s\<lparr>heap_mem := freed_mem b (heap_mem s)\<rparr>)"
proof -
  let ?A = "heap_base s" and ?m = "freed_mem b (heap_mem s)" and ?zs = "merge_head ((sz, True) # ys)"
  note bd = heap_wf_bounds [OF wf] and seg = freed_mem_heap(1) [OF wf, folded b]
  have ex: "extent ?zs = 24 + sz + extent ys" by simp
  obtain z' ys' where z: "?zs = (z', True) # ys'" using merge_head_shape by blast
  have "\<exists>c. find_prev ?m (of_nat b) (heap_first_block s) = Some c \<and> (c = NULL \<or> b_free ?m c = 0)"
  proof (cases "xs = []")
    case True
    then show ?thesis using find_prev_miss [OF seg, of ?A] bd b z ex by auto
  next
    case False
    then obtain us u where u: "xs = us @ [(u, False)]" using used by (metis append_butlast_last_id surjective_pairing)
    have "find_prev ?m (of_nat b) (of_nat ?A) = Some (of_nat (?A + extent us))"
      using find_prev_hit [OF seg False] bd(1,2) u b by simp
    moreover have "hdr ?m (?A + extent us) u (?A + extent us + 24 + u) False"
      using seg_hdr [of ?m ?A us u False ?zs 0] seg u by simp
    ultimately show ?thesis using hdrD(3) bd(4) by metis
  qed
  then show ?thesis using kfree_eq [OF wf b] by auto
qed

lemma kfree_after_free:
  assumes wf: "heap_wf s (us @ (u, True) # (sz, False) # ys)" and c: "c = heap_base s + extent us" and b: "b = c + 24 + u"
    and z: "merge_head ((sz, True) # ys) = (z, True) # zs"
  obtains m where "kfree (of_nat (b + 24)) s = Some (s\<lparr>heap_mem := m\<rparr>)" "seg m (heap_base s) (us @ (u + 24 + z, True) # zs) 0"
    "agree (kept_bytes (heap_base s) (us @ (u, True) # (sz, False) # ys)) (heap_mem s) m"
proof -
  let ?A = "heap_base s" and ?m = "freed_mem b (heap_mem s)" and ?xs = "us @ [(u, True)]"
  let ?m' = "merge_into (of_nat c) (of_nat b) ?m"
  have wf': "heap_wf s (?xs @ (sz, False) # ys)" and b': "b = ?A + extent ?xs" using wf b c by simp_all
  note bd = heap_wf_bounds [OF wf]
  have ez: "24 + z + extent zs = 24 + sz + extent ys" using extent_merge_head [of "(sz, True) # ys"] unfolding z by simp
  have seg: "seg ?m ?A (us @ (u, True) # (z, True) # zs) 0" using freed_mem_heap(1) [OF wf', folded b'] z by simp
  then have "seg ?m c ((u, True) # (z, True) # zs) 0" unfolding c by (subst (asm) seg_append) auto
  note w = merge_into_seg [OF this, folded b]
  have bt: "c + extent ((u, True) # (z, True) # zs) < 2 ^ 64" using bd(1) ez c by simp
  have "find_prev ?m (of_nat b) (heap_first_block s) = Some (of_nat c)"
    using find_prev_hit [of ?m ?A ?xs "(z, True) # zs"] seg bd(1,2,4) b' c ez by simp
  moreover have "(of_nat c :: u64) \<noteq> 0" using bd(1,2) c by (intro of_nat_neq_0) auto
  moreover have "b_free ?m (of_nat c) \<noteq> 0" using hdrD(3) [OF seg_hdr [OF seg]] by (simp add: c)
  ultimately have "kfree (of_nat (b + 24)) s = Some (s\<lparr>heap_mem := ?m'\<rparr>)" using kfree_eq [OF wf' b'] by (simp del: of_nat_add)
  moreover have "seg ?m' ?A (us @ (u + 24 + z, True) # zs) 0"
    using w [OF bt] bt by (intro seg_suffix [OF seg, where k = 20]) (auto simp: c)
  moreover have "agree (kept_bytes ?A (us @ (u, True) # (sz, False) # ys)) ?m ?m'"
    using alloc_bytes_range [of ?A us] alloc_bytes_range [of "b + 24 + sz" ys] b c
    by (intro agree_sub [OF w(2) [OF bt]]) (auto simp: kept_bytes_def alloc_bytes_append add.assoc)
  ultimately show thesis using that agree_trans [OF freed_mem_heap(2) [OF wf', folded b']] by simp
qed

lemma kfree_heap:
  assumes ok: "heap_ok s (xs @ (sz, False) # ys)"
  obtains s' where "kfree (of_nat (heap_base s + extent xs + 24)) s = Some s'"
    "heap_ok s' (release xs sz ys)" "heap_base s' = heap_base s"
    "agree (kept_bytes (heap_base s) (xs @ (sz, False) # ys)) (heap_mem s) (heap_mem s')"
proof -
  have wf: "heap_wf s (xs @ (sz, False) # ys)" and co: "coalesced (release xs sz ys)"
    using ok by (auto simp: heap_ok_def coalesced_release)
  obtain z zs where z: "merge_head ((sz, True) # ys) = (z, True) # zs" using merge_head_shape by blast
  have ez: "24 + z + extent zs = 24 + sz + extent ys" using extent_merge_head [of "(sz, True) # ys"] unfolding z by simp
  show thesis
  proof (cases "xs = [] \<or> \<not> snd (last xs)")
    case True
    then have "release xs sz ys = xs @ (z, True) # zs" using z by (auto simp: release_def)
    then show thesis using that [OF kfree_after_used [OF wf True refl]] freed_mem_heap [OF wf] wf co ez z
      by (simp add: heap_ok_def heap_wf_def)
  next
    case False
    then obtain us u where u: "xs = us @ [(u, True)]" by (metis append_butlast_last_id surjective_pairing)
    then have rel: "release xs sz ys = us @ (u + 24 + z, True) # zs" by (simp add: release_def z)
    have wf': "heap_wf s (us @ (u, True) # (sz, False) # ys)" using wf u by simp
    obtain m where "kfree (of_nat (heap_base s + extent us + 24 + u + 24)) s = Some (s\<lparr>heap_mem := m\<rparr>)"
      "seg m (heap_base s) (us @ (u + 24 + z, True) # zs) 0"
      "agree (kept_bytes (heap_base s) (us @ (u, True) # (sz, False) # ys)) (heap_mem s) m"
      by (rule kfree_after_free [OF wf' refl refl z])
    then show thesis using that [of "s\<lparr>heap_mem := m\<rparr>"] wf co ez u rel by (simp add: heap_ok_def heap_wf_def add.assoc)
  qed
qed

section \<open>Live allocations\<close>

text \<open>Address and size of every allocated block.\<close>

fun live :: "nat \<Rightarrow> blocks \<Rightarrow> (nat \<times> nat) set" where
  "live a [] = {}"
| "live a ((sz, fr) # bs) = (if fr then {} else {(a + 24, sz)}) \<union> live (a + 24 + sz) bs"

lemma live_append: "live a (xs @ ys) = live a xs \<union> live (a + extent xs) ys"
  by (induction a xs rule: live.induct) (auto simp: add.assoc)

lemma live_range: "(p, n) \<in> live a bs \<Longrightarrow> a + 24 \<le> p \<and> p + n \<le> a + extent bs"
  by (induction a bs rule: live.induct) (fastforce split: if_splits)+

lemma live_disjoint:
  "(p, n) \<in> live a bs \<Longrightarrow> (q, k) \<in> live a bs \<Longrightarrow> (p, n) \<noteq> (q, k) \<Longrightarrow> p + n \<le> q \<or> q + k \<le> p"
proof (induction a bs rule: live.induct)
  case (2 a sz fr bs)
  then show ?case
    using live_range [of p n "a + 24 + sz" bs] live_range [of q k "a + 24 + sz" bs]
    by (auto split: if_splits)
qed simp

lemma live_split: "(p, n) \<in> live a bs \<Longrightarrow> \<exists>xs ys. bs = xs @ (n, False) # ys \<and> p = a + extent xs + 24"
proof (induction a bs rule: live.induct)
  case (2 a sz fr bs)
  show ?case
  proof (cases "(p, n) \<in> live (a + 24 + sz) bs")
    case True
    from 2(1) [OF this] obtain xs ys where "bs = xs @ (n, False) # ys" "p = a + 24 + sz + extent xs + 24" by blast
    then show ?thesis by (intro exI [of _ "(sz, fr) # xs"] exI [of _ ys]) simp
  next
    case False
    then show ?thesis using 2(2) by (intro exI [of _ "[]"] exI [of _ bs]) (auto split: if_splits)
  qed
qed simp

lemma live_merge_head: "live a (merge_head ((sz, True) # ys)) = live (a + 24 + sz) ys"
proof (cases ys)
  case (Cons b bs)
  then show ?thesis by (cases b; cases "snd b") (auto simp: add.assoc)
qed simp

lemma live_release:
  "live a (release xs sz ys) = live a xs \<union> live (a + extent xs + 24 + sz) ys"
proof (cases "xs \<noteq> [] \<and> snd (last xs)")
  case True
  then obtain us u where u: "xs = us @ [(u, True)]" by (metis append_butlast_last_id surjective_pairing)
  obtain z' ys' where z: "merge_head ((sz, True) # ys) = (z', True) # ys'" using merge_head_shape by blast
  have "live b ys' = live c ys" if "b = a + extent xs + 24 + z'" "c = a + extent xs + 24 + sz" for b c
    using live_merge_head [of "a + extent xs" sz ys] that unfolding z by simp
  then show ?thesis using u by (simp add: release_def z live_append add.assoc)
next
  case False
  then show ?thesis using live_merge_head [of "a + extent xs" sz ys] by (auto simp: release_def Let_def live_append)
qed

lemma live_middle:
  assumes "p = a + extent xs + 24"
  shows "live a (xs @ (n, False) # ys) - {(p, n)} = live a xs \<union> live (a + extent xs + 24 + n) ys"
  using live_range [of p n a xs] live_range [of p n "a + extent xs + 24 + n" ys] assms
  by (auto simp: live_append add.assoc)

lemma alloc_step_live:
  assumes "alloc_step n bs off bs'"
  shows "\<exists>k\<ge>n. live a bs' = insert (a + off + 24, k) (live a bs) \<and> (a + off + 24, k) \<notin> live a bs"
proof -
  obtain xs z ys k where c: "n \<le> k" "bs' = xs @ (k, False) # ys" "off = extent xs"
    "live a bs = live a xs \<union> live (a + extent xs + 24 + k) ys"
    using assms
  proof cases
    case (fit xs sz ys)
    have "\<exists>k zs. carve n sz @ ys = (k, False) # zs \<and> n \<le> k \<and>
        live (a + extent xs + 24 + k) zs = live (a + extent xs + 24 + sz) ys"
      using fit(3) by (auto simp: carve_def best_split_def ac_simps)
    then obtain k zs where k: "carve n sz @ ys = (k, False) # zs" "n \<le> k"
      "live (a + extent xs + 24 + k) zs = live (a + extent xs + 24 + sz) ys" by blast
    show thesis
      using that [of k xs zs] k fit by (auto simp: best_split_def live_append add.assoc)
  next
    case extend
    have g: "n \<le> grow_bytes n - 24" using grow_bytes_bounds(1) [of n] by simp
    have "\<exists>k zs. carve n (grow_bytes n - 24) = (k, False) # zs \<and> n \<le> k \<and> live (a + extent bs + 24 + k) zs = {}"
      using g by (auto simp: carve_def)
    then obtain k zs where k: "carve n (grow_bytes n - 24) = (k, False) # zs" "n \<le> k"
      "live (a + extent bs + 24 + k) zs = {}" by blast
    show thesis using that [of k bs zs] k extend by auto
  qed
  have "(a + off + 24, k) \<notin> live a bs"
    using c(3,4) live_range [of "a + off + 24" k a xs] live_range [of "a + off + 24" k "a + extent xs + 24 + k" ys]
    by auto
  moreover have "live a bs' = insert (a + off + 24, k) (live a bs)"
    using c by (auto simp: live_append add.assoc)
  ultimately show ?thesis using c(1) by blast
qed

section \<open>The heap as a manager of regions\<close>

text \<open>
  What the callers of \<open>kmalloc\<close> and \<open>kfree\<close> rely on, over an abstract view \<open>b\<close> of the heap: live
  regions never overlap, an allocation adds one region that is large enough or reports
  failure, and releasing a live region removes exactly that one.
\<close>

locale region_manager =
  fixes ok :: "'s \<Rightarrow> 'b \<Rightarrow> bool" and regions_of :: "'s \<Rightarrow> 'b \<Rightarrow> (nat \<times> nat) set"
    and room :: "u64 \<Rightarrow> 's \<Rightarrow> 'b \<Rightarrow> bool"
    and alloc :: "u64 \<Rightarrow> 's \<Rightarrow> (u64 \<times> 's) option" and free :: "u64 \<Rightarrow> 's \<Rightarrow> 's option"
  assumes apart: "ok s b \<Longrightarrow> (x, n) \<in> regions_of s b \<Longrightarrow> (y, k) \<in> regions_of s b \<Longrightarrow> (x, n) \<noteq> (y, k) \<Longrightarrow>
      x + n \<le> y \<or> y + k \<le> x"
    and alloc_ok: "ok s b \<Longrightarrow> room sz s b \<Longrightarrow> \<exists>p s' b'. alloc sz s = Some (p, s') \<and> ok s' b' \<and>
      (p = NULL \<and> regions_of s' b' = regions_of s b \<or>
       p \<noteq> NULL \<and> (\<exists>n\<ge>unat sz. (unat p, n) \<notin> regions_of s b \<and> regions_of s' b' = insert (unat p, n) (regions_of s b)))"
    and free_ok: "ok s b \<Longrightarrow> (unat p, n) \<in> regions_of s b \<Longrightarrow> p \<noteq> NULL \<Longrightarrow>
      \<exists>s' b'. free p s = Some s' \<and> ok s' b' \<and> regions_of s' b' = regions_of s b - {(unat p, n)}"
begin

lemma alloc_then_free:
  assumes "ok s b" "room sz s b" "alloc sz s = Some (p, s1)" "p \<noteq> NULL"
  shows "\<exists>s2 b2. free p s1 = Some s2 \<and> ok s2 b2 \<and> regions_of s2 b2 = regions_of s b"
proof -
  obtain b1 n where 1: "ok s1 b1" "(unat p, n) \<notin> regions_of s b" "regions_of s1 b1 = insert (unat p, n) (regions_of s b)"
    using alloc_ok [OF assms(1,2)] assms(3,4) by auto
  then show ?thesis using free_ok [OF 1(1) _ assms(4), of n] by auto
qed

lemma alloc_twice_apart:
  assumes "ok s b" "room sz s b" "alloc sz s = Some (p, s1)" "p \<noteq> NULL"
    and "\<And>b1. ok s1 b1 \<Longrightarrow> room sz' s1 b1" "alloc sz' s1 = Some (q, s2)" "q \<noteq> NULL"
  shows "unat p + unat sz \<le> unat q \<or> unat q + unat sz' \<le> unat p"
proof -
  obtain b1 n where 1: "ok s1 b1" "unat sz \<le> n" "regions_of s1 b1 = insert (unat p, n) (regions_of s b)"
    using alloc_ok [OF assms(1,2)] assms(3,4) by auto
  obtain b2 k where 2: "ok s2 b2" "unat sz' \<le> k" "(unat q, k) \<notin> regions_of s1 b1"
    "regions_of s2 b2 = insert (unat q, k) (regions_of s1 b1)"
    using alloc_ok [OF 1(1) assms(5) [OF 1(1)]] assms(6,7) by auto
  have "(unat p, n) \<noteq> (unat q, k)" using 1(3) 2(3) by auto
  then have "unat p + n \<le> unat q \<or> unat q + k \<le> unat p"
    using apart [OF 2(1), of "unat p" n "unat q" k] 1(3) 2(4) by auto
  then show ?thesis using 1(2) 2(2) by auto
qed

end

definition heap_room :: "u64 \<Rightarrow> 'a kmem_scheme \<Rightarrow> blocks \<Rightarrow> bool" where
  "heap_room sz s bs \<longleftrightarrow> heap_base s + extent bs + unat sz + 5010 < 2 ^ 64"

lemma kmalloc_regions:
  assumes ok: "heap_ok s bs" and room: "heap_room sz s bs"
  shows "\<exists>p s' bs'. kmalloc sz s = Some (p, s') \<and> heap_ok s' bs' \<and>
      (p = NULL \<and> live (heap_base s') bs' = live (heap_base s) bs \<or>
       p \<noteq> NULL \<and> (\<exists>n\<ge>unat sz. (unat p, n) \<notin> live (heap_base s) bs \<and>
         live (heap_base s') bs' = insert (unat p, n) (live (heap_base s) bs)))"
proof -
  let ?n = "(unat sz + 3) div 4 * 4"
  have n: "unat sz \<le> ?n" "?n \<le> unat sz + 3"
    using div_mult_mod_eq [of "unat sz + 3" 4] mod_less_divisor [of 4 "unat sz + 3"] by linarith+
  have sz: "unat sz + 3 < 2 ^ 64" "heap_base s + extent bs + ?n + 5000 < 2 ^ 64"
    using room n by (auto simp: heap_room_def)
  from ok sz(1) refl sz(2) show ?thesis
  proof (cases rule: kmalloc_heap)
    case (null s')
    then show ?thesis by auto
  next
    case (allocated s' off bs')
    obtain k where k: "?n \<le> k" "live (heap_base s) bs' = insert (heap_base s + off + 24, k) (live (heap_base s) bs)"
      "(heap_base s + off + 24, k) \<notin> live (heap_base s) bs"
      using alloc_step_live [OF allocated(2)] by blast
    have "heap_base s + off + 24 + k \<le> heap_base s' + extent bs'"
      using live_range [of "heap_base s + off + 24" k "heap_base s" bs'] k(2) allocated(4) by simp
    then have lt: "heap_base s + off + 24 < 2 ^ 64"
      using heap_wf_bounds(1) [of s' bs'] allocated(3) by (simp add: heap_ok_def)
    then have "unat (of_nat (heap_base s + off + 24) :: u64) = heap_base s + off + 24"
      by (intro unat_of_nat_small) simp
    moreover have "(of_nat (heap_base s + off + 24) :: u64) \<noteq> NULL" using lt by (intro of_nat_neq_0) auto
    moreover have "unat sz \<le> k" using n(1) k(1) by (rule le_trans)
    ultimately have "kmalloc sz s = Some (of_nat (heap_base s + off + 24), s') \<and> heap_ok s' bs' \<and>
        (of_nat (heap_base s + off + 24) :: u64) \<noteq> NULL \<and>
        (unat (of_nat (heap_base s + off + 24) :: u64), k) \<notin> live (heap_base s) bs \<and> unat sz \<le> k \<and>
        live (heap_base s') bs' = insert (unat (of_nat (heap_base s + off + 24) :: u64), k) (live (heap_base s) bs)"
      using allocated(1,3,4) k by (simp del: of_nat_add)
    then show ?thesis by blast
  qed
qed

lemma kfree_regions:
  assumes ok: "heap_ok s bs" and p: "(unat p, n) \<in> live (heap_base s) bs"
  shows "\<exists>s' bs'. kfree p s = Some s' \<and> heap_ok s' bs' \<and>
    live (heap_base s') bs' = live (heap_base s) bs - {(unat p, n)}"
proof -
  obtain xs ys where x: "bs = xs @ (n, False) # ys" "unat p = heap_base s + extent xs + 24"
    using live_split [OF p] by blast
  obtain s' where s': "kfree (of_nat (heap_base s + extent xs + 24)) s = Some s'" "heap_ok s' (release xs n ys)"
    "heap_base s' = heap_base s"
    using kfree_heap ok x(1) by metis
  have "p = of_nat (heap_base s + extent xs + 24)" by (rule unat_eqD [OF x(2)])
  moreover have "live (heap_base s) (release xs n ys) = live (heap_base s) bs - {(unat p, n)}"
    unfolding live_release x(1) live_middle [OF x(2)] ..
  ultimately show ?thesis using s' by auto
qed

interpretation kheap: region_manager heap_ok "\<lambda>s. live (heap_base s)" heap_room kmalloc kfree
proof
  show "p + n \<le> q \<or> q + k \<le> p"
    if "heap_ok s bs" "(p, n) \<in> live (heap_base s) bs" "(q, k) \<in> live (heap_base s) bs" "(p, n) \<noteq> (q, k)"
    for s :: "'a kmem_scheme" and bs p n q k
    using that(2-4) by (rule live_disjoint)
qed (use kmalloc_regions kfree_regions in auto)

section \<open>First use\<close>

lemma map_page_present:
  assumes "find_pt m va = Some pt"
  shows "fst (map_page va pa fl m) = 0" "used (snd (map_page va pa fl m)) = used m"
proof -
  obtain t3 t2 where "next_table m (pml4 m) (PML4_INDEX va) = Some t3" "next_table m t3 (PDPT_INDEX va) = Some t2"
    "next_table m t2 (PD_INDEX va) = Some pt"
    using assms by (auto simp: find_pt_def split: option.splits)
  then show "fst (map_page va pa fl m) = 0" "used (snd (map_page va pa fl m)) = used m"
    by (simp_all add: map_page_def ensure_table_present)
qed

lemma unat_index: "unat (drop_bit n a AND 0x1FF) = unat a div 2 ^ n mod 512" for a :: u64
proof -
  have "(0x1FF :: u64) = mask 9" by (simp add: mask_eq_exp_minus_1)
  then have "unat (drop_bit n a AND 0x1FF) = unat (take_bit 9 (drop_bit n a))" by (simp only: take_bit_eq_mask)
  also have "\<dots> = take_bit 9 (unat (drop_bit n a))" by (simp add: unsigned_take_bit_eq)
  also have "unat (drop_bit n a) = unat a div 2 ^ n" by (rule unat_drop_bit)
  finally show ?thesis by (simp add: take_bit_eq_mod)
qed

abbreviation heap_page :: "nat \<Rightarrow> u64" where
  "heap_page k \<equiv> 0xFFFF800000000000 + 4096 * of_nat k"

lemma unat_heap_page: "k \<le> 1024 \<Longrightarrow> unat (heap_page k) = 0xFFFF800000000000 + 4096 * k"
proof -
  assume "k \<le> 1024"
  then have "unat (4096 * of_nat k :: u64) = 4096 * k" by (simp add: unat_mult_small unat_of_nat_small)
  then show ?thesis using \<open>k \<le> 1024\<close> by (subst unat_add_small) auto
qed

lemma heap_page_index:
  assumes "k < 1024"
  shows "PML4_INDEX (heap_page k) = 256" "PDPT_INDEX (heap_page k) = 0"
    "unat (PD_INDEX (heap_page k)) = k div 512" "unat (PT_INDEX (heap_page k)) = k mod 512"
proof -
  have u: "unat (heap_page k) = 0xFFFF800000000000 + 4096 * k" using assms by (simp add: unat_heap_page)
  have "(0xFFFF800000000000 + 4096 * k) div 2 ^ 39 = 0x1FFFF00" "(0xFFFF800000000000 + 4096 * k) div 2 ^ 30 = 0x3FFFE0000"
    by (rule div_nat_eqI; use assms in simp)+
  then have "unat (PML4_INDEX (heap_page k)) = 256" "unat (PDPT_INDEX (heap_page k)) = 0"
    unfolding PML4_INDEX_def PDPT_INDEX_def unat_index u by simp_all
  then show "PML4_INDEX (heap_page k) = 256" "PDPT_INDEX (heap_page k) = 0" by (auto simp: word_unat_eq_iff)
  have "(0xFFFF800000000000 + 4096 * k) div 4096 = 0xFFFF800000000 + k"
    "(0xFFFF800000000000 + 4096 * k) div 2097152 = 0x7FFFC000000 + k div 512" by auto
  moreover have "(8796025913344 + x) mod 512 = x mod 512" "(4503565267632128 + x) mod 512 = x mod 512" for x :: nat
    using mod_mult_self2 [of x 512 17179738112] mod_mult_self2 [of x 512 8796025913344]
    by (simp_all add: add.commute)
  moreover have "k div 512 < 512" using assms by simp
  ultimately show "unat (PD_INDEX (heap_page k)) = k div 512" "unat (PT_INDEX (heap_page k)) = k mod 512"
    unfolding PD_INDEX_def PT_INDEX_def unat_index u by simp_all
qed

lemma heap_page_vpage:
  assumes "j < 1024" "k < 1024" "j \<noteq> k"
  shows "vpage_of (heap_page j) \<noteq> vpage_of (heap_page k)"
proof
  assume eq: "vpage_of (heap_page j) = vpage_of (heap_page k)"
  then have "unat (PD_INDEX (heap_page j)) = unat (PD_INDEX (heap_page k))"
    "unat (PT_INDEX (heap_page j)) = unat (PT_INDEX (heap_page k))" unfolding vpage_of_def by auto
  then have "j div 512 = k div 512" "j mod 512 = k mod 512" using assms by (simp_all add: heap_page_index)
  then show False using assms(3) div_mult_mod_eq [of j 512] div_mult_mod_eq [of k 512] by simp
qed

lemma heap_page_walk:
  assumes "Suc k < 1024" "Suc k mod 512 \<noteq> 0"
  shows "walk_path (heap_page (Suc k)) = walk_path (heap_page k)"
proof -
  have "Suc k div 512 = k div 512" using assms(2) by (simp add: div_Suc)
  then have "unat (PD_INDEX (heap_page (Suc k))) = unat (PD_INDEX (heap_page k))"
    using assms(1) heap_page_index(3) [of k] heap_page_index(3) [of "Suc k"] by simp
  then have "PD_INDEX (heap_page (Suc k)) = PD_INDEX (heap_page k)" by (simp add: word_unat_eq_iff)
  then show ?thesis
    using assms(1) heap_page_index(1,2) [of k] heap_page_index(1,2) [of "Suc k"] by (simp add: walk_path_def)
qed


text \<open>The state of the address space after \<open>k\<close> heap pages have been backed.\<close>

definition heap_mapped :: "mm \<Rightarrow> nat \<Rightarrow> mm \<Rightarrow> bool" where
  "heap_mapped v0 k v \<longleftrightarrow> pt_ok v \<and> next_free_page v = next_free_page v0 + 4096 * of_nat k \<and>
     heap_start v = heap_start v0 \<and> used v \<le> used v0 + 12288 * ((k + 511) div 512) \<and>
     (\<forall>j<k. lookup_pte v (heap_page j) = Some ((next_free_page v0 + 4096 * of_nat j) OR 3))"

definition heap_backable :: "mm \<Rightarrow> bool" where
  "heap_backable v \<longleftrightarrow> pt_ok v \<and> heap_start v = 0xFFFF800000000000 \<and> used v \<le> 65536 - 9 * 4096 \<and>
     aligned (next_free_page v) \<and> next_free_page v \<noteq> NULL \<and> unat (next_free_page v) + 0x400000 < 2 ^ 64"

lemma find_pt_lookup: "lookup_pte m va = Some e \<Longrightarrow> \<exists>pt. find_pt m va = Some pt"
  by (auto simp: lookup_pte_def split: option.splits)

text \<open>The walk depends on the root and on memory only.\<close>

lemma walk_cong:
  assumes "pml4 m' = pml4 m" "phys m' = phys m"
  shows "table_at m' = table_at m" "find_pt m' = find_pt m" "lookup_pte m' = lookup_pte m"
proof -
  have rd: "rd_entry m' = rd_entry m" using assms(2) by (simp add: rd_entry_def fun_eq_iff)
  then have nt: "next_table m' = next_table m" by (simp add: next_table_def fun_eq_iff)
  have "descend m' t p = descend m t p" for t p
    by (induction p arbitrary: t) (simp_all add: nt split: option.splits)
  then show t: "table_at m' = table_at m" using assms(1) by (simp add: table_at_def fun_eq_iff)
  then show f: "find_pt m' = find_pt m" by (simp add: find_pt_table_at fun_eq_iff)
  show "lookup_pte m' = lookup_pte m" unfolding lookup_pte_def rd f ..
qed

lemma walk_upd [simp]:
  "lookup_pte (m\<lparr>next_free_page := x\<rparr>) = lookup_pte m" "find_pt (m\<lparr>next_free_page := x\<rparr>) = find_pt m"
  "lookup_pte (m\<lparr>heap_end := y\<rparr>) = lookup_pte m"
  by (rule walk_cong; simp)+

lemma pt_ok_upd [simp]: "pt_ok (m\<lparr>next_free_page := x\<rparr>) = pt_ok m" "pt_ok (m\<lparr>heap_end := y\<rparr>) = pt_ok m"
  using walk_cong(1) [of "m\<lparr>next_free_page := x\<rparr>" m] walk_cong(1) [of "m\<lparr>heap_end := y\<rparr>" m]
  by (simp_all add: pt_ok_def pool_ok_def in_free_pool_def)

lemma frame_addr:
  assumes "heap_backable v0" "k < 1024"
  shows "aligned (next_free_page v0 + 4096 * of_nat k)" "next_free_page v0 + 4096 * of_nat k \<noteq> NULL"
proof -
  have "unat (4096 * of_nat k :: u64) = 4096 * k" using assms(2) by (simp add: unat_mult_small unat_of_nat_small)
  moreover from this have u: "unat (next_free_page v0 + 4096 * of_nat k) = unat (next_free_page v0) + 4096 * k"
    using assms by (subst unat_add_small) (auto simp: heap_backable_def)
  ultimately show "aligned (next_free_page v0 + 4096 * of_nat k)"
    using assms(1) by (simp add: heap_backable_def aligned_unat)
  show "next_free_page v0 + 4096 * of_nat k \<noteq> NULL"
  proof
    assume "next_free_page v0 + 4096 * of_nat k = NULL"
    then have "unat (next_free_page v0) = 0" using u by simp
    then show False using assms(1) by (metis heap_backable_def unat_eq_0)
  qed
qed

text \<open>Mapping the next page of the heap takes at most the three tables of a new gigabyte, and none within a table.\<close>

lemma map_next_heap_page:
  assumes b: "heap_backable v0" and m: "heap_mapped v0 k v" and k: "k < 1024" and v1: "v1 = v\<lparr>next_free_page := x\<rparr>"
  shows "fst (map_page (heap_page k) f 3 v1) = 0 \<and> used (snd (map_page (heap_page k) f 3 v1)) \<le> used v0 + 12288 * ((Suc k + 511) div 512)"
proof (cases "k mod 512 = 0")
  case True
  have ok: "pt_ok v1" and u: "used v1 \<le> used v0 + 12288 * ((k + 511) div 512)" using m by (simp_all add: heap_mapped_def v1)
  have "k div 512 = 0 \<or> k div 512 = 1" using k by linarith
  then have "k = 0 \<or> k = 512" using True div_mult_mod_eq [of k 512] by auto
  then have ku: "used v1 \<le> 65536 - 6 * 4096" "(Suc k + 511) div 512 = Suc ((k + 511) div 512)"
    using u b by (auto simp: heap_backable_def)
  then have "fst (map_page (heap_page k) f 3 v1) = 0" by (intro map_page_used(1) [OF ok]) simp
  moreover from this have "used (snd (map_page (heap_page k) f 3 v1)) \<le> used v1 + 3 * 4096" by (rule map_page_used(2) [OF ok])
  ultimately show ?thesis using u ku(2) by simp
next
  case False
  have u: "used v1 \<le> used v0 + 12288 * ((k + 511) div 512)" using m by (simp add: heap_mapped_def v1)
  obtain k' where k': "k = Suc k'" using False by (cases k) auto
  have "lookup_pte v (heap_page k') \<noteq> None" using m k' by (simp add: heap_mapped_def)
  then obtain pt where "find_pt v (heap_page k') = Some pt" using find_pt_lookup by fastforce
  moreover have "walk_path (heap_page k) = walk_path (heap_page k')" using heap_page_walk [of k'] k False unfolding k' by simp
  ultimately have "find_pt v1 (heap_page k) = Some pt" unfolding v1 walk_upd(2) by (simp only: find_pt_table_at)
  then have "fst (map_page (heap_page k) f 3 v1) = 0" "used (snd (map_page (heap_page k) f 3 v1)) = used v1" by (rule map_page_present)+
  moreover have "(k + 511) div 512 \<le> (Suc k + 511) div 512" by (rule div_le_mono) simp
  ultimately show ?thesis using u by linarith
qed

lemma back_page_step:
  assumes b: "heap_backable v0" and m: "heap_mapped v0 k (vm s)" and k: "k < 1024"
  obtains s' where "back_page m1 m2 (heap_page k) s = (True, s')" "heap_mapped v0 (Suc k) (vm s')"
proof -
  let ?f = "next_free_page v0 + 4096 * of_nat k"
  let ?v1 = "(vm s)\<lparr>next_free_page := ?f + 4096\<rparr>"
  let ?r = "map_page (heap_page k) ?f 3 ?v1"
  note fa = frame_addr [OF b k]
  have nf: "next_free_page (vm s) = ?f" and ok: "pt_ok ?v1" using m by (simp_all add: heap_mapped_def)
  have al: "alloc_physical_page (vm s) = (?f, ?v1)" using alloc_physical_page_aligned [of "vm s"] fa nf by simp
  have r: "fst ?r = 0 \<and> used (snd ?r) \<le> used v0 + 12288 * ((Suc k + 511) div 512)" by (rule map_next_heap_page [OF b m k refl])
  have "PAGE_PRESENT OR PAGE_WRITABLE = 3" by simp
  then have "back_page m1 m2 (heap_page k) s = (True, s\<lparr>vm := snd ?r\<rparr>)"
    using r fa(2) al by (auto simp: back_page_def Let_def split_beta)
  moreover have "lookup_pte (snd ?r) (heap_page j) = Some ((next_free_page v0 + 4096 * of_nat j) OR 3)" if "j < Suc k" for j
  proof (cases "j = k")
    case True
    have "?f OR 3 OR PAGE_PRESENT = ?f OR 3" by (simp add: or.assoc)
    then show ?thesis using True map_page_lookup [OF ok] r fa(1) by (simp add: page_base_aligned or.assoc)
  next
    case False
    then have "lookup_pte (snd ?r) (heap_page j) = lookup_pte ?v1 (heap_page j)"
      using that k by (intro map_page_other [OF ok] heap_page_vpage) auto
    then show ?thesis using False that m by (simp add: heap_mapped_def)
  qed
  then have "heap_mapped v0 (Suc k) (snd ?r)"
    using m r map_page_ok [OF ok] by (simp add: heap_mapped_def algebra_simps)
  ultimately show thesis using that by fastforce
qed


lemma heap_init_loop_steps:
  assumes b: "heap_backable v0" and m: "heap_mapped v0 k (vm s)" and k: "k \<le> 1024"
  shows "\<exists>s'. heap_init_loop (heap_page k) s = Some (True, s') \<and> same_heap s s' \<and> heap_mapped v0 1024 (vm s')"
  using m k
proof (induction "1024 - k" arbitrary: k s)
  case 0
  then have "k = 1024" by simp
  then have "\<not> heap_page k < heap_start (vm s) + 0x400000"
    using 0 b by (simp add: heap_mapped_def heap_backable_def)
  then show ?case using 0 \<open>k = 1024\<close> by (subst heap_init_loop.simps) (auto simp: same_heap_def)
next
  case (Suc r)
  then have k: "k < 1024" by simp
  obtain s1 where s1: "back_page ''ERROR: Failed to allocate physical page for heap\<newline>''
      ''ERROR: Failed to map page for heap\<newline>'' (heap_page k) s = (True, s1)" "heap_mapped v0 (Suc k) (vm s1)"
    by (rule back_page_step [OF b Suc.prems(1) k])
  have lt: "heap_page k < heap_start (vm s) + 0x400000"
  proof -
    have "heap_start (vm s) + 0x400000 = heap_page 1024"
      using Suc.prems(1) b by (simp add: heap_mapped_def heap_backable_def)
    then show ?thesis using k unat_heap_page [of k] unat_heap_page [of 1024] by (simp only: word_less_nat_alt)
  qed
  have "heap_init_loop (heap_page k) s = heap_init_loop (heap_page (Suc k)) s1"
    using lt s1(1) by (subst heap_init_loop.simps) (simp add: algebra_simps)
  then show ?case
    using Suc.hyps(1) [of "Suc k" s1] Suc.hyps(2) s1 k back_page_same [OF s1(1)] same_heap_trans by fastforce
qed

lemma heap_init_ok:
  assumes b: "heap_backable (vm s)"
  obtains s' where "heap_init s = Some (True, s')" "heap_ok s' [(0x400000 - 24, True)]"
    "heap_mapped (vm s) 1024 (vm s')" "heap_base s' = 0xFFFF800000000000"
proof -
  let ?H = "0xFFFF800000000000 :: u64"
  have st: "heap_start (vm s) = ?H" "pt_ok (vm s)" using b by (auto simp: heap_backable_def)
  have "heap_mapped (vm s) 0 (vm s)" using st by (simp add: heap_mapped_def)
  then obtain s1 where s1: "heap_init_loop ?H s = Some (True, s1)" "same_heap s s1" "heap_mapped (vm s) 1024 (vm s1)"
    using heap_init_loop_steps [OF b, of 0 s] by auto
  let ?m = "set_block ?H (0x400000 - 24) NULL 1 (heap_mem s1)"
  let ?s2 = "s1\<lparr>heap_first_block := ?H, heap_mem := ?m, vm := (vm s1)\<lparr>heap_end := ?H + 0x400000\<rparr>\<rparr>"
  have h1: "heap_start (vm s1) = ?H" using s1(2) st by (simp add: same_heap_def)
  have eq: "heap_init s = Some (True, ?s2)" using s1(1) h1 st by (simp add: heap_init_def Let_def)
  have H: "of_nat 0xFFFF800000000000 = ?H" by simp
  have "hdr ?m 0xFFFF800000000000 (0x400000 - 24) 0 True"
    using set_block_hdr(1) [of "0xFFFF800000000000" "0x400000 - 24" NULL 1 "heap_mem s1"] by (simp add: H)
  then have "heap_ok ?s2 [(0x400000 - 24, True)]"
    using h1 by (simp add: heap_ok_def heap_wf_def)
  moreover have "heap_mapped (vm s) 1024 (vm ?s2)" using s1(3) by (simp add: heap_mapped_def)
  ultimately show thesis using that eq h1 by simp
qed

section \<open>Allocation around a use\<close>

text \<open>
  A block that a free block can hold is taken without growing the heap, and giving it back
  restores the list of blocks, whatever was done to the bytes that are not headers in between.
\<close>

lemma live_hdr_bytes: "(p, k) \<in> live a bs \<Longrightarrow> hdr_bytes a bs \<inter> {p..<p + k} = {}"
proof (induction a bs rule: live.induct)
  case (2 a sz fr bs)
  show ?case
  proof (cases "(p, k) \<in> live (a + 24 + sz) bs")
    case True
    then show ?thesis using 2(1) live_range [OF True] by auto
  next
    case False
    then have "p = a + 24" "k = sz" using 2(2) by (auto split: if_splits)
    then show ?thesis using hdr_bytes_range [of "a + 24 + sz" bs] by auto
  qed
qed simp

lemma heap_live_bound: "heap_ok s bs \<Longrightarrow> (p, n) \<in> live (heap_base s) bs \<Longrightarrow> p + n < 2 ^ 64"
  using heap_wf_bounds(1) [of s bs] live_range [of p n "heap_base s" bs] by (simp add: heap_ok_def)

text \<open>Writing into a live allocation does not disturb the heap.\<close>

lemma heap_ok_client_write:
  assumes "heap_ok s bs" "(p, k) \<in> live (heap_base s) bs" "agree (- {p..<p + k}) (heap_mem s) m'"
  shows "heap_ok (s\<lparr>heap_mem := m'\<rparr>) bs"
proof -
  have "agree (hdr_bytes (heap_base s) bs) (heap_mem s) m'"
    using live_hdr_bytes [OF assms(2)] by (intro agree_sub [OF assms(3)]) auto
  then have "seg m' (heap_base s) bs 0"
    using assms(1) seg_agree [OF _ order_refl, of "heap_base s" bs "heap_mem s" m' 0] heap_wf_bounds(1) [of s bs]
    by (simp add: heap_ok_def heap_wf_def)
  then show ?thesis using assms(1) by (simp add: heap_ok_def heap_wf_def)
qed

lemma release_carve:
  assumes "coalesced (xs @ (sz, True) # ys)" "n \<le> sz"
  shows "\<exists>k zs. carve n sz @ ys = (k, False) # zs \<and> n \<le> k \<and> release xs k zs = xs @ (sz, True) # ys"
proof -
  have x: "\<not> (xs \<noteq> [] \<and> snd (last xs))" and y: "ys = [] \<or> \<not> snd (hd ys)"
    using assms(1) by (auto simp: coalesced_append [of xs] coalesced_snoc coalesced_Cons)
  have "merge_head ((sz, True) # ys) = (sz, True) # ys"
    using y by (cases ys; cases "hd ys") auto
  then show ?thesis using x assms(2) by (auto simp: carve_def release_def Let_def)
qed

lemma kfree_only_memory: "kfree p s = Some s' \<Longrightarrow> \<exists>m. s' = s\<lparr>heap_mem := m\<rparr>"
proof (cases "p = NULL")
  case True
  moreover assume "kfree p s = Some s'"
  ultimately show ?thesis by (intro exI [of _ "heap_mem s"]) (simp add: kfree_def)
qed (auto simp: kfree_def Let_def split: if_splits option.splits)

lemma alloc_bytes_live: "(p, k) \<in> live a bs \<Longrightarrow> {p..<p + k} \<subseteq> alloc_bytes a bs"
  by (induction a bs rule: live.induct) (auto split: if_splits)

lemma alloc_bytes_carve: "n \<le> sz \<Longrightarrow> alloc_bytes a (xs @ (sz, True) # ys) \<subseteq> alloc_bytes a (xs @ carve n sz @ ys)"
  by (auto simp: alloc_bytes_append carve_def add.assoc)

text \<open>
  A loan: the block \<open>p\<close> of \<open>k\<close> bytes, allocated for a request of \<open>n\<close> bytes, after which the heap has the blocks \<open>bs1\<close>. It lies
  apart from everything that was kept before; a request that fits with 64 bytes to spare beside \<open>n\<close> still fits; and giving it back restores \<open>bs\<close>.
\<close>

definition loan :: "'a kmem_scheme \<Rightarrow> blocks \<Rightarrow> nat \<Rightarrow> u64 \<Rightarrow> nat \<Rightarrow> blocks \<Rightarrow> bool" where
  "loan s bs n p k bs1 \<longleftrightarrow> p \<noteq> NULL \<and> (unat p, k) \<in> live (heap_base s) bs1 \<and>
     kept_bytes (heap_base s) bs \<subseteq> kept_bytes (heap_base s) bs1 \<and> kept_bytes (heap_base s) bs \<inter> {unat p..<unat p + k} = {} \<and>
     (\<forall>F. (\<exists>b\<in>set bs. fits (n + 64 + F) b) \<longrightarrow> (\<exists>b\<in>set bs1. fits F b)) \<and>
     (\<forall>t :: 'a kmem_scheme. heap_ok t bs1 \<longrightarrow> heap_base t = heap_base s \<longrightarrow>
        (\<exists>m. kfree p t = Some (t\<lparr>heap_mem := m\<rparr>) \<and> heap_ok (t\<lparr>heap_mem := m\<rparr>) bs \<and> agree (kept_bytes (heap_base s) bs1) (heap_mem t) m))"

lemma loan_block:
  assumes "loan s bs n p k bs1"
  shows "p \<noteq> NULL" "(unat p, k) \<in> live (heap_base s) bs1" "kept_bytes (heap_base s) bs \<subseteq> kept_bytes (heap_base s) bs1"
    "kept_bytes (heap_base s) bs \<inter> {unat p..<unat p + k} = {}" "(\<exists>b\<in>set bs. fits (n + 64 + F) b) \<Longrightarrow> \<exists>b\<in>set bs1. fits F b"
  using assms unfolding loan_def by blast+

lemma loan_written:
  assumes "heap_ok (s\<lparr>heap_mem := m\<rparr>) bs1" "loan s bs n p k bs1" "agree (- {unat p..<unat p + k}) m m'"
  shows "heap_ok (s\<lparr>heap_mem := m'\<rparr>) bs1"
  using heap_ok_client_write [OF assms(1), of "unat p" k m'] loan_block(2) [OF assms(2)] assms(3) by simp

lemma loan_return:
  fixes s t :: "'a kmem_scheme"
  assumes "loan s bs n p k bs1" "heap_ok t bs1" "heap_base t = heap_base s"
  obtains m where "kfree p t = Some (t\<lparr>heap_mem := m\<rparr>)" "heap_ok (t\<lparr>heap_mem := m\<rparr>) bs"
    "agree (kept_bytes (heap_base s) bs1) (heap_mem t) m"
  using assms unfolding loan_def by blast

text \<open>Splitting the free block \<open>(z, True)\<close> for the request is such a loan.\<close>

lemma carve_loan:
  fixes s :: "'a kmem_scheme"
  assumes bs: "bs = xs @ (z, True) # ys" "n \<le> z" and k: "carve n z @ ys = (k, False) # zs" "release xs k zs = bs"
    and bnd: "heap_base s + extent (xs @ carve n z @ ys) < 2 ^ 64"
  shows "loan s bs n (of_nat (heap_base s + extent xs + 24)) k (xs @ carve n z @ ys)"
proof -
  let ?A = "heap_base s" and ?bs1 = "xs @ (k, False) # zs"
  let ?p = "?A + extent xs + 24"
  have "?A + extent ?bs1 < 2 ^ 64" using bnd unfolding k(1) .
  then have p: "unat (of_nat ?p :: u64) = ?p" "(of_nat ?p :: u64) \<noteq> NULL"
    using unat_of_nat_small [of ?p, where 'a = 64] of_nat_neq_0 [of ?p] by simp_all
  have "k \<le> z" using k(1) bs(2) by (auto simp: carve_def split: if_splits)
  moreover have "alloc_bytes ?A bs \<subseteq> {..<?A + extent xs} \<union> {?p + z..}"
    unfolding bs(1) alloc_bytes_append using alloc_bytes_range [of ?A xs] alloc_bytes_range [of "?p + z" ys]
    by (auto simp: add.assoc)
  ultimately have new: "kept_bytes ?A bs \<inter> {?p..<?p + k} = {}" unfolding kept_bytes_def by fastforce
  have kept: "kept_bytes ?A bs \<subseteq> kept_bytes ?A ?bs1"
    using alloc_bytes_carve [OF bs(2), of ?A xs ys] unfolding kept_bytes_def bs(1) k(1) by auto
  have room: "\<exists>b\<in>set (xs @ carve n z @ ys). fits F b" if "\<exists>b\<in>set bs. fits (n + 64 + F) b" for F
  proof -
    from that obtain b where b: "b \<in> set bs" "fits (n + 64 + F) b" by blast
    then have "fits F b" by (auto simp: fits_def)
    with b consider "b \<in> set xs \<union> set ys" "fits F b" | "n + 64 + F \<le> z" unfolding bs(1) by (auto simp: fits_def)
    then show ?thesis
    proof cases
      case 2
      then have "(z - n - 24, True) \<in> set (xs @ carve n z @ ys)" "fits F (z - n - 24, True)" by (auto simp: carve_def fits_def)
      then show ?thesis by blast
    qed auto
  qed
  have "\<exists>m. kfree (of_nat ?p) t = Some (t\<lparr>heap_mem := m\<rparr>) \<and> heap_ok (t\<lparr>heap_mem := m\<rparr>) bs \<and> agree (kept_bytes ?A ?bs1) (heap_mem t) m"
    if t: "heap_ok t ?bs1" "heap_base t = ?A" for t :: "'a kmem_scheme"
  proof -
    obtain t' where t': "kfree (of_nat ?p) t = Some t'" "heap_ok t' bs" "agree (kept_bytes ?A ?bs1) (heap_mem t) (heap_mem t')"
      using kfree_heap [OF t(1)] unfolding t(2) k(2) by blast
    moreover obtain m where "t' = t\<lparr>heap_mem := m\<rparr>" using kfree_only_memory [OF t'(1)] by blast
    ultimately show ?thesis by auto
  qed
  then show ?thesis using p new kept room unfolding loan_def k(1) p(1) by (auto simp: live_append)
qed

lemma alloc_loan:
  fixes s :: "'a kmem_scheme"
  assumes ok: "heap_ok s bs" and sz: "unat sz + 3 < 2 ^ 64" "n = (unat sz + 3) div 4 * 4" and fit: "\<exists>b\<in>set bs. fits n b"
  obtains p k m bs1 where "kmalloc sz s = Some (p, s\<lparr>heap_mem := m\<rparr>)" "unat sz \<le> k" "heap_ok (s\<lparr>heap_mem := m\<rparr>) bs1"
    "agree (kept_bytes (heap_base s) bs) (heap_mem s) m" "loan s bs n p k bs1"
proof -
  have "unat (round4 sz) = n" unfolding round4_def sz(2) using sz(1) by (intro unat_round4) simp_all
  then have n: "round4 sz = of_nat n" by (rule unat_eqD)
  have nlt: "n < 2 ^ 64" "unat sz \<le> n" unfolding sz(2) using sz(1) by simp_all
  obtain xs z ys m where f: "best_split n bs xs z ys"
    "kmalloc sz s = Some (of_nat (heap_base s + extent xs + 24), s\<lparr>heap_mem := m\<rparr>)"
    "heap_ok (s\<lparr>heap_mem := m\<rparr>) (xs @ carve n z @ ys)" "agree (kept_bytes (heap_base s) bs) (heap_mem s) m"
    using kmalloc_fit [OF ok n nlt(1) fit] by blast
  then have bs: "bs = xs @ (z, True) # ys" "n \<le> z" by (auto simp: best_split_def)
  obtain k zs where k: "carve n z @ ys = (k, False) # zs" "n \<le> k" "release xs k zs = bs"
    using release_carve [of xs z ys n] ok bs by (auto simp: heap_ok_def)
  have "heap_base s + extent (xs @ carve n z @ ys) < 2 ^ 64"
    using heap_wf_bounds(1) [of "s\<lparr>heap_mem := m\<rparr>" "xs @ carve n z @ ys"] f(3) by (simp add: heap_ok_def add.assoc)
  from carve_loan [OF bs k(1,3) this] show thesis by (rule that [OF f(2) order_trans [OF nlt(2) k(2)] f(3,4)])
qed

section \<open>Properties\<close>

text \<open>A heap of three blocks at address 4096: 64 bytes in use, 100 free, 32 in use.\<close>

definition sample_blocks :: blocks where
  "sample_blocks = [(64, False), (100, True), (32, False)]"

definition sample_heap :: kmem where
  "sample_heap = sample_kmem\<lparr>heap_first_block := 0x1000,
     vm := sample_mm\<lparr>heap_start := 0x1000, heap_end := 0x110C\<rparr>,
     heap_mem := set_block 0x10D4 32 NULL 0 (set_block 0x1058 100 0x10D4 1 (set_block 0x1000 64 0x1058 0 (\<lambda>_. 0)))\<rparr>"

lemma sample_heap_ok: "heap_ok sample_heap sample_blocks" "heap_base sample_heap = 0x1000"
proof -
  let ?m1 = "set_block (of_nat 0x1000) 64 0x1058 0 (\<lambda>_. 0)"
  let ?m2 = "set_block (of_nat 0x1058) 100 0x10D4 1 ?m1"
  let ?m3 = "set_block (of_nat 0x10D4) 32 NULL 0 ?m2"
  have w1: "hdr ?m1 0x1000 64 0x1058 False" using set_block_hdr(1) [of "0x1000" 64 "0x1058" 0] by simp
  have w2: "hdr ?m2 0x1058 100 0x10D4 True" "agree (- {0x1058..<0x1058 + 20}) ?m1 ?m2"
    using set_block_hdr [where a = "0x1058" and sz = 100 and nx = "0x10D4" and fr = 1 and m = ?m1] by simp_all
  have w3: "hdr ?m3 0x10D4 32 0 False" "agree (- {0x10D4..<0x10D4 + 20}) ?m2 ?m3"
    using set_block_hdr [where a = "0x10D4" and sz = 32 and nx = NULL and fr = 0 and m = ?m2] by simp_all
  have "hdr ?m3 0x1058 100 0x10D4 True" by (rule hdr_keep [OF w2(1) w3(2)]) simp_all
  moreover have "hdr ?m3 0x1000 64 0x1058 False" by (rule hdr_keep [OF hdr_keep [OF w1 w2(2)] w3(2)]) simp_all
  ultimately have "seg ?m3 0x1000 sample_blocks 0" using w3(1) by (simp add: sample_blocks_def)
  moreover have "heap_mem sample_heap = ?m3" by (simp add: sample_heap_def)
  ultimately have s: "seg (heap_mem sample_heap) 0x1000 sample_blocks 0" by (simp only:)
  show "heap_base sample_heap = 0x1000" by (simp add: sample_heap_def)
  then show "heap_ok sample_heap sample_blocks"
    using s by (simp add: heap_ok_def heap_wf_def) (simp add: sample_blocks_def sample_heap_def)
qed

text \<open>
  C3. \<open>kmalloc\<close> on a well-formed heap returns, for every size that fits the address space: it
  takes the smallest sufficient free block (the first one among equals), splitting off the
  rest if more than 40 bytes would be left, or grows the heap by whole pages when none fits,
  and hands out the bytes behind the header. The blocks keep tiling the heap, no two free
  ones are adjacent, and no byte of an allocated block changes. The null result, which only
  a failed growth gives, leaves the list as it was.
\<close>

theorem kmalloc_best_fit:
  assumes "heap_ok s bs" and "n = (unat sz + 3) div 4 * 4" and "unat (heap_end (vm s)) + unat sz + 5010 < 2 ^ 64"
  shows "\<exists>p s'. kmalloc sz s = Some (p, s') \<and>
    (p = NULL \<and> (\<forall>b\<in>set bs. \<not> fits n b) \<and> heap_ok s' bs \<and> heap_mem s' = heap_mem s \<or>
     (\<exists>off bs'. p = of_nat (heap_base s + off + 24) \<and> alloc_step n bs off bs' \<and> heap_ok s' bs' \<and>
        heap_base s' = heap_base s \<and> agree (kept_bytes (heap_base s) bs) (heap_mem s) (heap_mem s')))"
proof -
  have e: "unat (heap_end (vm s)) = heap_base s + extent bs" using assms(1) by (simp add: heap_ok_def heap_wf_def)
  have "n \<le> unat sz + 3" unfolding assms(2) by simp
  then have sz: "unat sz + 3 < 2 ^ 64" "heap_base s + extent bs + n + 5000 < 2 ^ 64" using assms(3) e by auto
  from assms(1) sz(1) assms(2) sz(2) show ?thesis
  proof (cases rule: kmalloc_heap)
    case (null s')
    then show ?thesis by blast
  next
    case (allocated s' off bs')
    then show ?thesis by blast
  qed
qed

text \<open>In the sample, 90 bytes go into the free block of 100, which is used whole.\<close>

theorem kmalloc_best_fit_witness:
  "\<exists>s'. kmalloc 90 sample_heap = Some (0x1070, s') \<and> heap_ok s' [(64, False), (100, False), (32, False)]"
proof -
  have "\<exists>p s'. kmalloc 90 sample_heap = Some (p, s') \<and>
    (p = NULL \<and> (\<forall>b\<in>set sample_blocks. \<not> fits 92 b) \<and> heap_ok s' sample_blocks \<and> heap_mem s' = heap_mem sample_heap \<or>
     (\<exists>off bs'. p = of_nat (heap_base sample_heap + off + 24) \<and> alloc_step 92 sample_blocks off bs' \<and> heap_ok s' bs' \<and>
        heap_base s' = heap_base sample_heap \<and>
        agree (kept_bytes (heap_base sample_heap) sample_blocks) (heap_mem sample_heap) (heap_mem s')))"
    by (rule kmalloc_best_fit [OF sample_heap_ok(1)]) (simp_all add: sample_heap_def)
  moreover have "\<not> (\<forall>b\<in>set sample_blocks. \<not> fits 92 b)" by (simp add: sample_blocks_def fits_def)
  ultimately obtain s' off bs' where s': "kmalloc 90 sample_heap = Some (of_nat (0x1000 + off + 24), s')"
    "alloc_step 92 sample_blocks off bs'" "heap_ok s' bs'" unfolding sample_heap_ok(2) by blast
  from s'(2) have "off = 88 \<and> bs' = [(64, False), (100, False), (32, False)]"
  proof cases
    case (fit xs sz ys)
    have "\<exists>b\<in>set sample_blocks. fits 92 b \<and> fst b = 100" by (simp add: sample_blocks_def fits_def)
    have "xs = [(64, False)] \<and> sz = 100 \<and> ys = [(32, False)]"
      using fit(3) by (auto simp: best_split_def sample_blocks_def Cons_eq_append_conv)
    then show ?thesis using fit by (simp add: carve_def)
  next
    case extend
    then show ?thesis by (simp add: sample_blocks_def fits_def)
  qed
  then show ?thesis using s' by simp
qed

text \<open>
  C4. \<open>kfree\<close> of a live allocation returns: the block becomes free and is merged with its free
  neighbours, the heap stays well formed with no two adjacent free blocks, exactly that one
  allocation disappears, and no byte of any allocated block (the released one included)
  changes.
\<close>

theorem kfree_releases:
  assumes "heap_ok s bs" and "(unat p, n) \<in> live (heap_base s) bs"
  shows "\<exists>s' xs ys. kfree p s = Some s' \<and> bs = xs @ (n, False) # ys \<and> heap_ok s' (release xs n ys) \<and>
    live (heap_base s') (release xs n ys) = live (heap_base s) bs - {(unat p, n)} \<and>
    agree (kept_bytes (heap_base s) bs) (heap_mem s) (heap_mem s')"
proof -
  obtain xs ys where x: "bs = xs @ (n, False) # ys" "unat p = heap_base s + extent xs + 24"
    using live_split [OF assms(2)] by blast
  obtain s' where s': "kfree (of_nat (heap_base s + extent xs + 24)) s = Some s'" "heap_ok s' (release xs n ys)"
    "heap_base s' = heap_base s" "agree (kept_bytes (heap_base s) bs) (heap_mem s) (heap_mem s')"
    using kfree_heap assms(1) x(1) by metis
  have "p = of_nat (heap_base s + extent xs + 24)" by (rule unat_eqD [OF x(2)])
  moreover have "live (heap_base s) (release xs n ys) = live (heap_base s) bs - {(unat p, n)}"
    unfolding live_release x(1) live_middle [OF x(2)] ..
  ultimately show ?thesis using s' x(1) by auto
qed

theorem kfree_releases_witness:
  "\<exists>s'. kfree 0x1018 sample_heap = Some s' \<and> heap_ok s' [(188, True), (32, False)]"
proof -
  have "(unat (0x1018 :: u64), 64) \<in> live (heap_base sample_heap) sample_blocks"
    by (simp add: sample_heap_ok(2) sample_blocks_def)
  from kfree_releases [OF sample_heap_ok(1) this] obtain s' xs ys where s':
    "kfree 0x1018 sample_heap = Some s'" "sample_blocks = xs @ (64, False) # ys" "heap_ok s' (release xs 64 ys)" by blast
  have "xs = [] \<and> ys = [(100, True), (32, False)]"
    using s'(2) by (auto simp: sample_blocks_def Cons_eq_append_conv)
  then show ?thesis using s'(1,3) by (simp add: release_def)
qed

text \<open>
  C5. Round trip: allocating a block that some free block can hold, writing anything into the
  bytes that were handed out, and releasing it gives back the very list of blocks the heap
  had before.
\<close>

theorem kmalloc_write_kfree_roundtrip:
  assumes "heap_ok s bs" and "unat sz + 3 < 2 ^ 64"
    and "\<exists>b\<in>set bs. fits ((unat sz + 3) div 4 * 4) b"
  shows "\<exists>p s1. kmalloc sz s = Some (p, s1) \<and> p \<noteq> NULL \<and>
    (\<forall>m'. agree (- {unat p..<unat p + unat sz}) (heap_mem s1) m' \<longrightarrow>
       (\<exists>s2. kfree p (s1\<lparr>heap_mem := m'\<rparr>) = Some s2 \<and> heap_ok s2 bs \<and> heap_base s2 = heap_base s))"
proof -
  from alloc_loan [OF assms(1,2) refl assms(3)] obtain p k m bs1 where al: "kmalloc sz s = Some (p, s\<lparr>heap_mem := m\<rparr>)" "unat sz \<le> k"
    "heap_ok (s\<lparr>heap_mem := m\<rparr>) bs1" "loan s bs ((unat sz + 3) div 4 * 4) p k bs1" by metis
  have "\<exists>s2. kfree p (s\<lparr>heap_mem := m'\<rparr>) = Some s2 \<and> heap_ok s2 bs \<and> heap_base s2 = heap_base s"
    if "agree (- {unat p..<unat p + unat sz}) m m'" for m'
  proof -
    have "agree (- {unat p..<unat p + k}) m m'" using al(2) by (intro agree_sub [OF that]) auto
    from loan_written [OF al(3,4) this] show ?thesis by (rule loan_return [OF al(4)]) auto
  qed
  then show ?thesis using al(1) loan_block(1) [OF al(4)] by auto
qed

theorem kmalloc_write_kfree_roundtrip_witness:
  "\<exists>p s1 s2. kmalloc 20 sample_heap = Some (p, s1) \<and> kfree p s1 = Some s2 \<and> heap_ok s2 sample_blocks"
proof -
  have "\<exists>p s1. kmalloc 20 sample_heap = Some (p, s1) \<and> p \<noteq> NULL \<and>
    (\<forall>m'. agree (- {unat p..<unat p + unat (20 :: u64)}) (heap_mem s1) m' \<longrightarrow>
       (\<exists>s2. kfree p (s1\<lparr>heap_mem := m'\<rparr>) = Some s2 \<and> heap_ok s2 sample_blocks \<and> heap_base s2 = heap_base sample_heap))"
    by (rule kmalloc_write_kfree_roundtrip [OF sample_heap_ok(1)])
      (simp_all add: sample_heap_def sample_blocks_def fits_def)
  then obtain p s1 where p: "kmalloc 20 sample_heap = Some (p, s1)"
    "\<forall>m'. agree (- {unat p..<unat p + unat (20 :: u64)}) (heap_mem s1) m' \<longrightarrow>
       (\<exists>s2. kfree p (s1\<lparr>heap_mem := m'\<rparr>) = Some s2 \<and> heap_ok s2 sample_blocks \<and> heap_base s2 = heap_base sample_heap)"
    by blast
  from p(2) [rule_format, of "heap_mem s1"] have "\<exists>s2. kfree p s1 = Some s2 \<and> heap_ok s2 sample_blocks" by auto
  then show ?thesis using p(1) by blast
qed

text \<open>
  C26. Two allocations do not overlap: as long as the end of the heap, each request and 5010 bytes for rounding and growth stay together below 2 to the
  64, the bytes of a second successful \<open>kmalloc\<close> lie entirely before or entirely behind those of the first. (Requests near the top of the size
  range are left out: rounding wraps for them, see \<open>kmalloc_size_wraps\<close>.)
\<close>

theorem kmalloc_twice_apart:
  assumes "heap_ok s bs" and "kmalloc sz s = Some (p, s1)" and "p \<noteq> NULL"
    and "kmalloc sz' s1 = Some (q, s2)" and "q \<noteq> NULL"
    and "unat (heap_end (vm s)) + unat sz + 5010 < 2 ^ 64" and "unat (heap_end (vm s1)) + unat sz' + 5010 < 2 ^ 64"
  shows "unat p + unat sz \<le> unat q \<or> unat q + unat sz' \<le> unat p"
proof -
  have room: "heap_room z t cs" if "heap_ok t cs" "unat (heap_end (vm t)) + unat z + 5010 < 2 ^ 64"
    for z and t :: "'a kmem_scheme" and cs
    using that by (simp add: heap_room_def heap_ok_def heap_wf_def)
  show ?thesis
    by (rule kheap.alloc_twice_apart [OF assms(1) room [OF assms(1,6)] assms(2,3) _ assms(4,5)])
      (rule room [OF _ assms(7)])
qed

lemma sample_fit:
  assumes "heap_ok s (xs @ (z, True) # ys)" "round4 sz = of_nat n" "n < 2 ^ 64" "n \<le> z"
    "\<forall>b\<in>set (xs @ ys). \<not> snd b"
  shows "\<exists>s'. kmalloc sz s = Some (of_nat (heap_base s + extent xs + 24), s') \<and> vm s' = vm s \<and>
    heap_ok s' (xs @ carve n z @ ys)"
proof -
  have ex: "\<exists>b\<in>set (xs @ (z, True) # ys). fits n b" using assms(4) by (auto simp: fits_def)
  obtain xs' z' ys' m where f: "best_split n (xs @ (z, True) # ys) xs' z' ys'"
    "kmalloc sz s = Some (of_nat (heap_base s + extent xs' + 24), s\<lparr>heap_mem := m\<rparr>)"
    "heap_ok (s\<lparr>heap_mem := m\<rparr>) (xs' @ carve n z' @ ys')"
    by (rule kmalloc_fit [OF assms(1-3) ex])
  have "xs' = xs \<and> z' = z \<and> ys' = ys"
    using f(1) assms(5) by (auto simp: best_split_def append_eq_append_conv2 Cons_eq_append_conv append_eq_Cons_conv)
  then show ?thesis using f(2,3) by auto
qed

theorem kmalloc_twice_apart_witness:
  "\<exists>p s1 q s2. kmalloc 8 sample_heap = Some (p, s1) \<and> kmalloc 8 s1 = Some (q, s2) \<and>
     (unat p + 8 \<le> unat q \<or> unat q + 8 \<le> unat p)"
proof -
  have r: "round4 8 = of_nat 8" by (simp add: round4_def)
  obtain s1 where s1: "kmalloc 8 sample_heap = Some (0x1070, s1)" "vm s1 = vm sample_heap"
    "heap_ok s1 [(64, False), (8, False), (68, True), (32, False)]"
    using sample_fit [of sample_heap "[(64, False)]" 100 "[(32, False)]" 8 8] sample_heap_ok r
    by (auto simp: sample_blocks_def carve_def)
  obtain q s2 where s2: "kmalloc 8 s1 = Some (q, s2)" "q = 0x1090"
    using sample_fit [of s1 "[(64, False), (8, False)]" 68 "[(32, False)]" 8 8] s1(2,3) sample_heap_ok(2) r
    by (auto simp: carve_def)
  have "unat (heap_end (vm sample_heap)) = 0x110C" by (simp add: sample_heap_def)
  then have "unat (0x1070 :: u64) + unat (8 :: u64) \<le> unat q \<or> unat q + unat (8 :: u64) \<le> unat (0x1070 :: u64)"
    using s1(2) s2(2) by (intro kmalloc_twice_apart [OF sample_heap_ok(1) s1(1) _ s2(1)]) simp_all
  then show ?thesis using s1(1) s2(1) by (intro exI [of _ "0x1070"] exI [of _ s1] exI [of _ q] exI [of _ s2]) simp
qed

text \<open>
  First use: on a fresh heap (no block list yet) with well-formed page tables, room in the
  bootstrap pool and physical memory left, the first \<open>kmalloc\<close> maps the whole 4 MB heap, each
  page to its own new frame, present and writable, and continues on a heap that is one
  free block.
\<close>

theorem kmalloc_first_use:
  assumes "heap_first_block s = NULL" and "heap_backable (vm s)"
  shows "\<exists>s1. kmalloc sz s = kmalloc sz s1 \<and> heap_ok s1 [(0x400000 - 24, True)] \<and> pt_ok (vm s1) \<and>
    (\<forall>k<1024. lookup_pte (vm s1) (0xFFFF800000000000 + 4096 * of_nat k) =
       Some ((next_free_page (vm s) + 4096 * of_nat k) OR PAGE_PRESENT OR PAGE_WRITABLE))"
proof -
  obtain s1 where s1: "heap_init s = Some (True, s1)" "heap_ok s1 [(0x400000 - 24, True)]"
    "heap_mapped (vm s) 1024 (vm s1)" "heap_base s1 = 0xFFFF800000000000"
    by (rule heap_init_ok [OF assms(2)])
  have "heap_first_block s1 \<noteq> NULL"
    using s1(2) heap_wf_bounds(2,4) [of s1] by (auto simp: heap_ok_def)
  then have "kmalloc sz s = kmalloc sz s1" using assms(1) s1(1) by (simp add: kmalloc_def)
  moreover have "x OR PAGE_PRESENT OR PAGE_WRITABLE = x OR 3" for x :: u64 by (simp add: or.assoc)
  ultimately show ?thesis using s1(2,3) by (auto simp: heap_mapped_def)
qed

theorem kmalloc_first_use_witness:
  "\<exists>s1. kmalloc 128 sample_kmem = kmalloc 128 s1 \<and> heap_ok s1 [(0x400000 - 24, True)]"
proof -
  have "heap_first_block sample_kmem = NULL" by (simp add: sample_kmem_def kkbd.defs)
  moreover have "heap_backable (vm sample_kmem)"
    using sample_mm_ok(1) by (simp add: heap_backable_def sample_kmem_def kkbd.defs sample_mm_def aligned_def)
  ultimately show ?thesis using kmalloc_first_use [of sample_kmem 128] by blast
qed

text \<open>
  Requests near the top of the size range wrap: rounding \<open>SIZE_MAX\<close> up to a multiple of
  four gives zero, so \<open>kmalloc (SIZE_MAX)\<close> succeeds with a block that can hold no byte at all.
\<close>

theorem kmalloc_size_wraps:
  "\<exists>s'. kmalloc (- 1) sample_heap = Some (0x1070, s') \<and> (0x1070, 0) \<in> live 0x1000 [(64, False), (0, False), (76, True), (32, False)] \<and>
     heap_ok s' [(64, False), (0, False), (76, True), (32, False)]"
proof -
  have "round4 (- 1) = of_nat 0" by (simp add: round4_def)
  then show ?thesis
    using sample_fit [of sample_heap "[(64, False)]" 100 "[(32, False)]" "- 1" 0] sample_heap_ok
    by (auto simp: sample_blocks_def carve_def)
qed

lemma pattern_reads_back: "pattern_ok p 128 (write_pattern p 128 m)"
proof -
  have "fold (\<lambda>i m. m(p + of_nat i := of_nat (i mod 256))) [0..<n] m (p + of_nat j) = of_nat (j mod 256)"
    if "j < n" "n \<le> 128" for j n
    using that by (induction n) (auto simp: of_nat_u64_inj less_Suc_eq)
  then show ?thesis by (simp add: pattern_ok_def write_pattern_def list_all_iff)
qed

lemma write_pattern_agree:
  assumes "unat p + n \<le> 2 ^ 64"
  shows "agree (- {unat p..<unat p + n}) m (write_pattern p n m)"
proof -
  have "unat (p + of_nat i) = unat p + i" if "i < n" for i
    using that assms by (simp add: unat_add_small unat_of_nat_small)
  then have "agree (- {unat p..<unat p + n}) m (fold (\<lambda>i m. m(p + of_nat i := of_nat (i mod 256))) [0..<k] m)" if "k \<le> n" for k
    using that by (induction k) (auto simp: agree_def)
  then show ?thesis by (simp add: write_pattern_def)
qed

lemma swap_updates: "s\<lparr>io := c, heap_mem := m\<rparr> = s\<lparr>heap_mem := m, io := c\<rparr>"
  by simp

text \<open>A request that some free block can hold, used and released.\<close>

lemma heap_ok_io [simp]: "heap_ok (s\<lparr>io := c\<rparr>) bs = heap_ok s bs" "heap_ok (s\<lparr>heap_mem := m, io := c\<rparr>) bs = heap_ok (s\<lparr>heap_mem := m\<rparr>) bs"
  "heap_ok (kprint msg s) bs = heap_ok s bs"
  by (simp_all add: heap_ok_def heap_wf_def)

lemma kmalloc_use_kfree:
  fixes s :: "'a kmem_scheme"
  assumes ok: "heap_ok s bs" and sz: "unat sz + 3 < 2 ^ 64" and fit: "\<exists>b\<in>set bs. fits ((unat sz + 3) div 4 * 4) b"
  obtains p m where "kmalloc sz s = Some (p, s\<lparr>heap_mem := m\<rparr>)" "p \<noteq> NULL" "unat p + unat sz \<le> 2 ^ 64"
    "\<forall>c m'. agree (- {unat p..<unat p + unat sz}) m m' \<longrightarrow>
       (\<exists>m2. kfree p (s\<lparr>heap_mem := m', io := c\<rparr>) = Some (s\<lparr>heap_mem := m2, io := c\<rparr>) \<and> heap_ok (s\<lparr>heap_mem := m2, io := c\<rparr>) bs)"
proof -
  from alloc_loan [OF ok sz refl fit] obtain p k m bs1 where al: "kmalloc sz s = Some (p, s\<lparr>heap_mem := m\<rparr>)" "unat sz \<le> k"
    "heap_ok (s\<lparr>heap_mem := m\<rparr>) bs1" "loan s bs ((unat sz + 3) div 4 * 4) p k bs1" by metis
  have "\<exists>m2. kfree p (s\<lparr>heap_mem := m', io := c\<rparr>) = Some (s\<lparr>heap_mem := m2, io := c\<rparr>) \<and> heap_ok (s\<lparr>heap_mem := m2, io := c\<rparr>) bs"
    if "agree (- {unat p..<unat p + unat sz}) m m'" for c m'
  proof -
    have "agree (- {unat p..<unat p + k}) m m'" using al(2) by (intro agree_sub [OF that]) auto
    from loan_written [OF al(3,4) this] have "heap_ok (s\<lparr>heap_mem := m', io := c\<rparr>) bs1" by simp
    then show ?thesis by (rule loan_return [OF al(4)]) (auto simp: swap_updates)
  qed
  moreover have "unat p + unat sz \<le> 2 ^ 64" using heap_live_bound [OF al(3)] loan_block(2) [OF al(4)] al(2) by fastforce
  ultimately show thesis using that [OF al(1) loan_block(1) [OF al(4)]] by blast
qed

lemma test_first_ok:
  assumes "heap_ok s bs" "\<exists>b\<in>set bs. fits 128 b"
  obtains p m m2 where "kmalloc 128 s = Some (p, s\<lparr>heap_mem := m\<rparr>)" "heap_ok (s\<lparr>heap_mem := m2\<rparr>) bs"
    "test_first p (s\<lparr>heap_mem := m\<rparr>) = Some (s\<lparr>heap_mem := m2,
       io := fold console_write [''kmalloc(128) successful\<newline>'', ''Memory read/write test passed\<newline>'',
         ''kfree() successful\<newline>''] (io s)\<rparr>)"
proof -
  have r: "unat (128 :: u64) + 3 < 2 ^ 64" "\<exists>b\<in>set bs. fits ((unat (128 :: u64) + 3) div 4 * 4) b" using assms(2) by simp_all
  obtain p m where p: "kmalloc 128 s = Some (p, s\<lparr>heap_mem := m\<rparr>)" "p \<noteq> NULL" "unat p + unat (128 :: u64) \<le> 2 ^ 64"
    "\<forall>c m'. agree (- {unat p..<unat p + unat (128 :: u64)}) m m' \<longrightarrow>
       (\<exists>m2. kfree p (s\<lparr>heap_mem := m', io := c\<rparr>) = Some (s\<lparr>heap_mem := m2, io := c\<rparr>) \<and> heap_ok (s\<lparr>heap_mem := m2, io := c\<rparr>) bs)"
    by (rule kmalloc_use_kfree [OF assms(1) r])
  let ?c = "console_write ''Memory read/write test passed\<newline>'' (console_write ''kmalloc(128) successful\<newline>'' (io s))"
  have "agree (- {unat p..<unat p + unat (128 :: u64)}) m (write_pattern p 128 m)"
    using write_pattern_agree [of p 128 m] p(3) by simp
  from p(4) [rule_format, OF this] obtain m2 where m2:
    "kfree p (s\<lparr>heap_mem := write_pattern p 128 m, io := ?c\<rparr>) = Some (s\<lparr>heap_mem := m2, io := ?c\<rparr>)"
    "heap_ok (s\<lparr>heap_mem := m2, io := ?c\<rparr>) bs" by blast
  have "test_first p (s\<lparr>heap_mem := m\<rparr>) = Some (s\<lparr>heap_mem := m2, io := console_write ''kfree() successful\<newline>'' ?c\<rparr>)"
    using p(2) m2(1) pattern_reads_back by (simp add: test_first_def Let_def kprint_def)
  moreover have "heap_ok (s\<lparr>heap_mem := m2\<rparr>) bs" using m2(2) by (simp add: heap_ok_def heap_wf_def)
  ultimately show thesis using that [OF p(1)] by simp
qed

lemma test_second_ok:
  assumes "heap_ok s bs" "\<exists>b\<in>set bs. fits 256 b"
  obtains p m m2 where "kmalloc 256 s = Some (p, s\<lparr>heap_mem := m\<rparr>)" "heap_ok (s\<lparr>heap_mem := m2\<rparr>) bs"
    "test_second p (s\<lparr>heap_mem := m\<rparr>) = Some (s\<lparr>heap_mem := m2,
       io := fold console_write [''kmalloc(256) successful\<newline>'', ''kfree() successful\<newline>''] (io s)\<rparr>)"
proof -
  have r: "unat (256 :: u64) + 3 < 2 ^ 64" "\<exists>b\<in>set bs. fits ((unat (256 :: u64) + 3) div 4 * 4) b" using assms(2) by simp_all
  obtain p m where p: "kmalloc 256 s = Some (p, s\<lparr>heap_mem := m\<rparr>)" "p \<noteq> NULL" "unat p + unat (256 :: u64) \<le> 2 ^ 64"
    "\<forall>c m'. agree (- {unat p..<unat p + unat (256 :: u64)}) m m' \<longrightarrow>
       (\<exists>m2. kfree p (s\<lparr>heap_mem := m', io := c\<rparr>) = Some (s\<lparr>heap_mem := m2, io := c\<rparr>) \<and> heap_ok (s\<lparr>heap_mem := m2, io := c\<rparr>) bs)"
    by (rule kmalloc_use_kfree [OF assms(1) r])
  let ?c = "console_write ''kmalloc(256) successful\<newline>'' (io s)"
  from p(4) [rule_format, OF agree_refl] obtain m2 where m2: "kfree p (s\<lparr>heap_mem := m, io := ?c\<rparr>) = Some (s\<lparr>heap_mem := m2, io := ?c\<rparr>)"
    "heap_ok (s\<lparr>heap_mem := m2, io := ?c\<rparr>) bs" by blast
  have "test_second p (s\<lparr>heap_mem := m\<rparr>) = Some (s\<lparr>heap_mem := m2, io := console_write ''kfree() successful\<newline>'' ?c\<rparr>)"
    using p(2) m2(1) by (simp add: test_second_def kprint_def)
  moreover have "heap_ok (s\<lparr>heap_mem := m2\<rparr>) bs" using m2(2) by (simp add: heap_ok_def heap_wf_def)
  ultimately show thesis using that [OF p(1)] by simp
qed

text \<open>
  The boot-time self test passes on every well-formed heap with a free block of 256 bytes:
  it returns, prints the five success messages between its first and last line and no
  failure message, and leaves the list of blocks as it was.
\<close>

theorem memory_self_test_passes:
  assumes "heap_ok s bs" and "\<exists>b\<in>set bs. fits 256 b"
  shows "\<exists>m. test_memory_management s = Some (s\<lparr>heap_mem := m,
      io := fold console_write [''Testing memory management...\<newline>'', ''kmalloc(128) successful\<newline>'',
        ''Memory read/write test passed\<newline>'', ''kfree() successful\<newline>'', ''kmalloc(256) successful\<newline>'',
        ''kfree() successful\<newline>'', ''Memory management test completed.\<newline>''] (io s)\<rparr>) \<and>
    heap_ok (s\<lparr>heap_mem := m\<rparr>) bs"
proof -
  let ?s0 = "kprint ''Testing memory management...\<newline>'' s"
  have ok0: "heap_ok ?s0 bs" and fit: "\<exists>b\<in>set bs. fits 128 b" using assms by (auto simp: fits_def)
  obtain p m m2 where p: "kmalloc 128 ?s0 = Some (p, ?s0\<lparr>heap_mem := m\<rparr>)" "heap_ok (?s0\<lparr>heap_mem := m2\<rparr>) bs"
    "test_first p (?s0\<lparr>heap_mem := m\<rparr>) = Some (?s0\<lparr>heap_mem := m2,
       io := fold console_write [''kmalloc(128) successful\<newline>'', ''Memory read/write test passed\<newline>'',
         ''kfree() successful\<newline>''] (io ?s0)\<rparr>)"
    by (rule test_first_ok [OF ok0 fit])
  let ?s2 = "?s0\<lparr>heap_mem := m2, io := fold console_write [''kmalloc(128) successful\<newline>'',
    ''Memory read/write test passed\<newline>'', ''kfree() successful\<newline>''] (io ?s0)\<rparr>"
  have ok2: "heap_ok ?s2 bs" using p(2) by (simp only: heap_ok_io)
  obtain q m3 m4 where q: "kmalloc 256 ?s2 = Some (q, ?s2\<lparr>heap_mem := m3\<rparr>)" "heap_ok (?s2\<lparr>heap_mem := m4\<rparr>) bs"
    "test_second q (?s2\<lparr>heap_mem := m3\<rparr>) = Some (?s2\<lparr>heap_mem := m4,
       io := fold console_write [''kmalloc(256) successful\<newline>'', ''kfree() successful\<newline>''] (io ?s2)\<rparr>)"
    by (rule test_second_ok [OF ok2 assms(2)])
  have "heap_ok (s\<lparr>heap_mem := m4\<rparr>) bs" using q(2) by (simp add: heap_ok_def heap_wf_def)
  moreover have "test_memory_management s = Some (kprint ''Memory management test completed.\<newline>'' (?s2\<lparr>heap_mem := m4,
       io := fold console_write [''kmalloc(256) successful\<newline>'', ''kfree() successful\<newline>''] (io ?s2)\<rparr>))"
    unfolding test_memory_management_def p(1) option.case prod.case p(3) q(1) q(3) ..
  ultimately show ?thesis by (intro exI [of _ m4]) (simp add: kprint_def)
qed

theorem memory_self_test_passes_witness:
  "\<exists>s'. test_memory_management (sample_heap\<lparr>vm := sample_mm\<lparr>heap_start := 0x1000, heap_end := 0x2000\<rparr>,
     heap_mem := set_block 0x1000 4072 NULL 1 (\<lambda>_. 0)\<rparr>) = Some s'"
proof -
  let ?s = "sample_heap\<lparr>vm := sample_mm\<lparr>heap_start := 0x1000, heap_end := 0x2000\<rparr>,
     heap_mem := set_block 0x1000 4072 NULL 1 (\<lambda>_. 0)\<rparr>"
  have "hdr (set_block (of_nat 0x1000) 4072 NULL 1 (\<lambda>_. 0)) 0x1000 4072 0 True"
    using set_block_hdr(1) [of "0x1000" 4072 NULL 1 "\<lambda>_. 0"] by simp
  then have "heap_ok ?s [(4072, True)]" by (simp add: heap_ok_def heap_wf_def sample_heap_def)
  from memory_self_test_passes [OF this] show ?thesis by (auto simp: fits_def)
qed

end
