(* ===== verification/Context_Switch.thy ===== *)
theory Context_Switch
  imports Kaviz_Prelude
begin

text \<open>
  The context switch of \<open>kernel/context_switch.asm\<close> on the 24 quadwords it reads and writes behind each of its two pointers, with the
  checks that the processor makes when segment registers are loaded.
\<close>

section \<open>State and operations\<close>

text \<open>
  The registers that \<open>save_context\<close> and \<open>restore_context\<close> move, and what the processor makes of a selector that is loaded into a data or
  into the code segment register: \<open>None\<close> if it accepts it at the current privilege level, otherwise the exception. The descriptor table is the one
  the boot loader has left. \<open>c_status\<close> tells whether the processor goes on, has raised an exception, or has left for an outer privilege level; in that
  case \<open>rsp\<close> and \<open>ss\<close> come from the stack, whose contents are not part of the model.
\<close>

datatype cpu_status = Running | Faulted u32 | Outer_ring

record cpu_regs =
  c_rsp :: u64
  c_r15 :: u64
  c_r14 :: u64
  c_r13 :: u64
  c_r12 :: u64
  c_r11 :: u64
  c_r10 :: u64
  c_r9 :: u64
  c_r8 :: u64
  c_rbp :: u64
  c_rdi :: u64
  c_rsi :: u64
  c_rdx :: u64
  c_rcx :: u64
  c_rbx :: u64
  c_rax :: u64
  c_cs :: u16
  c_ds :: u16
  c_es :: u16
  c_fs :: u16
  c_gs :: u16
  c_ss :: u16
  c_rflags :: u64
  c_rip :: u64
  c_data_check :: "u16 \<Rightarrow> u32 option"
  c_code_check :: "u16 \<Rightarrow> u32 option"
  c_status :: cpu_status

text \<open>
  \<open>save_context\<close> on the 24 quadwords at \<open>rdi\<close>. Storing a segment register writes its 16 bits and
  leaves the rest of the quadword; the last quadword gets the return address on the stack.
\<close>

definition store_seg :: "u16 \<Rightarrow> u64 \<Rightarrow> u64" where
  "store_seg v w = (w AND NOT 0xFFFF) OR ucast v"

definition save_context :: "u64 \<Rightarrow> cpu_regs \<Rightarrow> u64 list \<Rightarrow> u64 list" where
  "save_context ra c w =
     [c_rsp c, c_r15 c, c_r14 c, c_r13 c, c_r12 c, c_r11 c, c_r10 c, c_r9 c, c_r8 c, c_rbp c,
      c_rdi c, c_rsi c, c_rdx c, c_rcx c, c_rbx c, c_rax c,
      store_seg (c_cs c) (w ! 16), store_seg (c_ds c) (w ! 17), store_seg (c_es c) (w ! 18),
      store_seg (c_fs c) (w ! 19), store_seg (c_gs c) (w ! 20), store_seg (c_ss c) (w ! 21),
      c_rflags c, ra]"

text \<open>
  The instructions of \<open>restore_context\<close> that the processor checks. A null selector, whatever its privilege bits, may be loaded into a data segment
  register but not into \<open>cs\<close>: \<open>retfq\<close> then raises a general protection exception (13) and loads neither \<open>cs\<close> nor \<open>rip\<close>. After an exception
  nothing else of the routine is executed.
\<close>

definition null_selector :: "u16 \<Rightarrow> bool" where
  "null_selector v \<longleftrightarrow> v AND 0xFFFC = 0"

definition load_seg :: "u16 \<Rightarrow> (cpu_regs \<Rightarrow> cpu_regs) \<Rightarrow> cpu_regs \<Rightarrow> cpu_regs" where
  "load_seg v upd c =
     (if c_status c \<noteq> Running then c
      else if null_selector v then upd c
      else case c_data_check c v of None \<Rightarrow> upd c | Some e \<Rightarrow> c\<lparr>c_status := Faulted e\<rparr>)"

definition far_return :: "u16 \<Rightarrow> u64 \<Rightarrow> cpu_regs \<Rightarrow> cpu_regs" where
  "far_return cs rip c =
     (if null_selector cs then c\<lparr>c_status := Faulted 13\<rparr>
      else case c_code_check c cs of
             Some e \<Rightarrow> c\<lparr>c_status := Faulted e\<rparr>
           | None \<Rightarrow> c\<lparr>c_cs := cs, c_rip := rip,
               c_status := (if c_cs c AND 3 < cs AND 3 then Outer_ring else Running)\<rparr>)"

text \<open>
  \<open>restore_context\<close>: \<open>rdi\<close> and \<open>ss\<close> are not loaded; \<open>retfq\<close> takes \<open>rip\<close> and \<open>cs\<close> from the two
  quadwords pushed before it, which leaves \<open>rsp\<close> as it was loaded. The stack pushed to is taken to be mapped.
\<close>

definition load_registers :: "u64 list \<Rightarrow> cpu_regs \<Rightarrow> cpu_regs" where
  "load_registers w c =
     c\<lparr>c_status := Running,
       c_rsp := w ! 0, c_r15 := w ! 1, c_r14 := w ! 2, c_r13 := w ! 3, c_r12 := w ! 4,
       c_r11 := w ! 5, c_r10 := w ! 6, c_r9 := w ! 7, c_r8 := w ! 8, c_rbp := w ! 9,
       c_rsi := w ! 11, c_rdx := w ! 12, c_rcx := w ! 13, c_rbx := w ! 14, c_rax := w ! 15\<rparr>"

definition restore_context :: "u64 list \<Rightarrow> cpu_regs \<Rightarrow> cpu_regs" where
  "restore_context w c =
     (let c0 = load_registers w c;
          c1 = load_seg (ucast (w ! 17)) (\<lambda>c. c\<lparr>c_ds := ucast (w ! 17)\<rparr>) c0;
          c2 = load_seg (ucast (w ! 18)) (\<lambda>c. c\<lparr>c_es := ucast (w ! 18)\<rparr>) c1;
          c3 = load_seg (ucast (w ! 19)) (\<lambda>c. c\<lparr>c_fs := ucast (w ! 19)\<rparr>) c2;
          c4 = load_seg (ucast (w ! 20)) (\<lambda>c. c\<lparr>c_gs := ucast (w ! 20)\<rparr>) c3
      in if c_status c4 = Running then far_return (ucast (w ! 16)) (w ! 23) (c4\<lparr>c_rflags := w ! 22\<rparr>) else c4)"

text \<open>
  \<open>context_switch\<close>, from the state of the registers at its entry: the call of \<open>save_context\<close> has
  pushed a return address, and \<open>rdi\<close> is then the pointer to the next task.
\<close>

definition context_switch :: "u64 \<Rightarrow> cpu_regs \<Rightarrow> u64 list \<Rightarrow> u64 list \<Rightarrow> u64 list \<times> cpu_regs" where
  "context_switch ra c cur nxt =
     (save_context ra (c\<lparr>c_rsp := c_rsp c - 8\<rparr>) cur, restore_context nxt (c\<lparr>c_rdi := c_rsi c\<rparr>))"

text \<open>The register file in a task structure, as the assembly code lays it out.\<close>

lemma store_seg_ucast [simp]: "ucast (store_seg v w) = v"
proof (rule bit_word_eqI)
  fix n
  assume "n < LENGTH(16)"
  have m: "(0xFFFF :: u64) = mask 16" by (simp add: mask_eq_exp_minus_1)
  show "bit (ucast (store_seg v w) :: u16) n = bit v n"
    using \<open>n < LENGTH(16)\<close> unfolding store_seg_def m by (simp add: bit_simps)
qed

section \<open>Which context goes on\<close>

text \<open>The exception that loading a selector into a data segment register raises.\<close>

definition seg_fault :: "cpu_regs \<Rightarrow> u16 \<Rightarrow> u32 option" where
  "seg_fault c v = (if null_selector v then None else c_data_check c v)"

lemma load_seg_cases:
  "c_status c = Running \<Longrightarrow> load_seg v upd c = (case seg_fault c v of None \<Rightarrow> upd c | Some e \<Rightarrow> c\<lparr>c_status := Faulted e\<rparr>)"
  "c_status c \<noteq> Running \<Longrightarrow> load_seg v upd c = c"
  by (simp_all add: load_seg_def seg_fault_def)

text \<open>What the loads of the four data segments have in common.\<close>

definition only_seg :: "(cpu_regs \<Rightarrow> cpu_regs) \<Rightarrow> bool" where
  "only_seg upd \<longleftrightarrow> (\<forall>c. c_status (upd c) = c_status c \<and> c_data_check (upd c) = c_data_check c \<and> c_rsp (upd c) = c_rsp c \<and>
     c_r15 (upd c) = c_r15 c \<and> c_rip (upd c) = c_rip c \<and> c_cs (upd c) = c_cs c)"

lemma only_segs:
  "only_seg (\<lambda>c. c\<lparr>c_ds := x\<rparr>)" "only_seg (\<lambda>c. c\<lparr>c_es := x\<rparr>)" "only_seg (\<lambda>c. c\<lparr>c_fs := x\<rparr>)" "only_seg (\<lambda>c. c\<lparr>c_gs := x\<rparr>)"
  by (simp_all add: only_seg_def)

lemma load_seg_frame:
  assumes "only_seg upd"
  shows "c_data_check (load_seg v upd c) = c_data_check c" "c_rsp (load_seg v upd c) = c_rsp c" "c_r15 (load_seg v upd c) = c_r15 c"
    "c_rip (load_seg v upd c) = c_rip c" "c_cs (load_seg v upd c) = c_cs c" "seg_fault (load_seg v upd c) = seg_fault c"
    "c_status (load_seg v upd c) = (if c_status c \<noteq> Running then c_status c else case seg_fault c v of None \<Rightarrow> Running | Some e \<Rightarrow> Faulted e)"
  using assms by (auto simp: load_seg_def only_seg_def seg_fault_def fun_eq_iff split: option.split)

lemmas load_segs_frame = load_seg_frame [OF only_segs(1)] load_seg_frame [OF only_segs(2)] load_seg_frame [OF only_segs(3)] load_seg_frame [OF only_segs(4)]

lemma load_registers_simps:
  "c_status (load_registers w c) = Running" "c_rsp (load_registers w c) = w ! 0" "c_r15 (load_registers w c) = w ! 1"
  "c_rip (load_registers w c) = c_rip c" "c_cs (load_registers w c) = c_cs c" "seg_fault (load_registers w c) = seg_fault c"
  by (simp_all add: load_registers_def seg_fault_def fun_eq_iff)

lemma far_return_frame:
  "c_rsp (far_return v x c) = c_rsp c" "c_r15 (far_return v x c) = c_r15 c"
  "null_selector v \<Longrightarrow> far_return v x c = c\<lparr>c_status := Faulted 13\<rparr>"
  by (simp_all add: far_return_def split: option.split)

lemma restore_rsp: "c_rsp (restore_context w c) = w ! 0" "c_r15 (restore_context w c) = w ! 1"
  by (simp_all add: restore_context_def Let_def load_segs_frame load_registers_simps far_return_frame)

text \<open>A refused data segment, and a null code selector: the first exception counts, and \<open>rip\<close> is not loaded.\<close>

lemma restore_bad_ds:
  "seg_fault c (ucast (w ! 17)) = Some e \<Longrightarrow> c_status (restore_context w c) = Faulted e \<and> c_rip (restore_context w c) = c_rip c"
  by (simp add: restore_context_def Let_def load_segs_frame load_registers_simps)

lemma restore_null_cs:
  assumes "null_selector (ucast (w ! 16))"
  shows "c_status (restore_context w c) =
      (case seg_fault c (ucast (w ! 17)) of Some e \<Rightarrow> Faulted e | None \<Rightarrow>
       case seg_fault c (ucast (w ! 18)) of Some e \<Rightarrow> Faulted e | None \<Rightarrow>
       case seg_fault c (ucast (w ! 19)) of Some e \<Rightarrow> Faulted e | None \<Rightarrow>
       case seg_fault c (ucast (w ! 20)) of Some e \<Rightarrow> Faulted e | None \<Rightarrow> Faulted 13) \<and>
    c_rip (restore_context w c) = c_rip c \<and> c_cs (restore_context w c) = c_cs c \<and> c_r15 (restore_context w c) = w ! 1"
  using assms by (simp add: restore_context_def Let_def load_segs_frame load_registers_simps far_return_frame split: option.split)

text \<open>The segments of a context that the processor accepts, as it does those it is running with.\<close>

definition segs_accepted :: "cpu_regs \<Rightarrow> cpu_regs \<Rightarrow> bool" where
  "segs_accepted c c' \<longleftrightarrow> \<not> null_selector (c_cs c) \<and> c_code_check c' (c_cs c) = None \<and> \<not> c_cs c' AND 3 < c_cs c AND 3 \<and>
     (\<forall>v\<in>{c_ds c, c_es c, c_fs c, c_gs c}. seg_fault c' v = None)"

text \<open>
  Saving and restoring a context is the identity on every register it moves: what
  \<open>save_context\<close> stored, \<open>restore_context\<close> loads back, and execution continues at the saved
  return address. Only \<open>rdi\<close> and \<open>ss\<close> keep the values of the interrupted context. The processor must accept the saved selectors.
\<close>

lemma load_seg_ok: "c_status c = Running \<Longrightarrow> seg_fault c v = None \<Longrightarrow> load_seg v upd c = upd c"
  by (simp add: load_seg_cases)

lemma seg_fault_upd:
  "seg_fault (c\<lparr>c_ds := x\<rparr>) = seg_fault c" "seg_fault (c\<lparr>c_es := x\<rparr>) = seg_fault c" "seg_fault (c\<lparr>c_fs := x\<rparr>) = seg_fault c"
  by (simp_all add: seg_fault_def fun_eq_iff)

theorem save_restore_context:
  assumes "segs_accepted c c'"
  shows "restore_context (save_context ra c w) c' =
    c\<lparr>c_rdi := c_rdi c', c_ss := c_ss c', c_rip := ra, c_data_check := c_data_check c', c_code_check := c_code_check c', c_status := Running\<rparr>"
proof -
  let ?w = "save_context ra c w"
  have s: "(ucast (?w ! 16) :: u16) = c_cs c" "(ucast (?w ! 17) :: u16) = c_ds c" "(ucast (?w ! 18) :: u16) = c_es c" "(ucast (?w ! 19) :: u16) = c_fs c"
    "(ucast (?w ! 20) :: u16) = c_gs c" "?w ! 22 = c_rflags c" "?w ! 23 = ra"
    by (simp_all add: save_context_def)
  let ?r = "load_registers ?w c'"
  have r: "?r = c\<lparr>c_rdi := c_rdi c', c_cs := c_cs c', c_ds := c_ds c', c_es := c_es c', c_fs := c_fs c', c_gs := c_gs c', c_ss := c_ss c',
      c_rflags := c_rflags c', c_rip := c_rip c', c_data_check := c_data_check c', c_code_check := c_code_check c', c_status := Running\<rparr>"
    by (simp add: load_registers_def save_context_def)
  have ok: "seg_fault ?r v = None" if "v \<in> {c_ds c, c_es c, c_fs c, c_gs c}" for v
    using that assms by (auto simp: load_registers_simps segs_accepted_def)
  have run: "c_status ?r = Running" by (rule load_registers_simps(1))
  have "restore_context ?w c' = far_return (c_cs c) ra (?r\<lparr>c_ds := c_ds c, c_es := c_es c, c_fs := c_fs c, c_gs := c_gs c, c_rflags := c_rflags c\<rparr>)"
    unfolding restore_context_def Let_def s by (simp add: load_seg_ok run ok seg_fault_upd)
  also have "\<dots> = c\<lparr>c_rdi := c_rdi c', c_ss := c_ss c', c_rip := ra, c_data_check := c_data_check c', c_code_check := c_code_check c', c_status := Running\<rparr>"
    using assms unfolding r by (simp add: far_return_def segs_accepted_def)
  finally show ?thesis .
qed

end
