(* ===== verification/Scheduler.thy ===== *)
theory Scheduler
  imports Kheap Context_Switch
begin

text \<open>
  The round-robin scheduler of \<open>kernel/scheduler.c\<close> and \<open>kernel/scheduler.h\<close>, with the
  context switch of \<open>Context_Switch\<close>, which reads and writes the task structure by
  byte offset. The choice of the next task is shown to be the first ready one in cyclic order,
  and a ready task to be chosen within one round.
\<close>

section \<open>State and operations\<close>

abbreviation TASK_READY :: u32 where "TASK_READY \<equiv> 1"
abbreviation TASK_SLEEPING :: u32 where "TASK_SLEEPING \<equiv> 3"
abbreviation TASK_ZOMBIE :: u32 where "TASK_ZOMBIE \<equiv> 4"
abbreviation MAX_TASKS :: u32 where "MAX_TASKS \<equiv> 64"

text \<open>\<open>struct task\<close>, its fields in the order of the source.\<close>

record task =
  t_rsp :: u64
  t_rip :: u64
  t_rbp :: u64
  t_rax :: u64
  t_rbx :: u64
  t_rcx :: u64
  t_rdx :: u64
  t_rsi :: u64
  t_rdi :: u64
  t_r8 :: u64
  t_r9 :: u64
  t_r10 :: u64
  t_r11 :: u64
  t_r12 :: u64
  t_r13 :: u64
  t_r14 :: u64
  t_r15 :: u64
  t_cs :: u64
  t_ds :: u64
  t_es :: u64
  t_fs :: u64
  t_gs :: u64
  t_ss :: u64
  t_rflags :: u64
  t_id :: u32
  t_state :: u32
  t_priority :: u32
  t_ticks :: u32
  t_sleep_ticks :: u32

text \<open>
  \<open>tasks_addr\<close> is the address of the array \<open>tasks\<close>, \<open>switch_resume\<close> that of the instruction after
  \<open>call save_context\<close>: both are chosen by the linker. \<open>cpu\<close> holds the registers.
\<close>

record ksched = kmem +
  tasks :: "task list"
  task_count :: u32
  current_task :: u32
  cpu :: cpu_regs
  tasks_addr :: u64
  switch_resume :: u64

text \<open>
  The 24 quadwords at the start of a task, in the order of the structure: \<open>[rdi + off]\<close> in the
  assembly code is the quadword number \<open>off / 8\<close>.
\<close>

definition tcb_words :: "task \<Rightarrow> u64 list" where
  "tcb_words t =
     [t_rsp t, t_rip t, t_rbp t, t_rax t, t_rbx t, t_rcx t, t_rdx t, t_rsi t, t_rdi t,
      t_r8 t, t_r9 t, t_r10 t, t_r11 t, t_r12 t, t_r13 t, t_r14 t, t_r15 t,
      t_cs t, t_ds t, t_es t, t_fs t, t_gs t, t_ss t, t_rflags t]"

definition tcb_put_words :: "u64 list \<Rightarrow> task \<Rightarrow> task" where
  "tcb_put_words w t =
     t\<lparr>t_rsp := w ! 0, t_rip := w ! 1, t_rbp := w ! 2, t_rax := w ! 3, t_rbx := w ! 4,
       t_rcx := w ! 5, t_rdx := w ! 6, t_rsi := w ! 7, t_rdi := w ! 8, t_r8 := w ! 9,
       t_r9 := w ! 10, t_r10 := w ! 11, t_r11 := w ! 12, t_r12 := w ! 13, t_r13 := w ! 14,
       t_r14 := w ! 15, t_r15 := w ! 16, t_cs := w ! 17, t_ds := w ! 18, t_es := w ! 19,
       t_fs := w ! 20, t_gs := w ! 21, t_ss := w ! 22, t_rflags := w ! 23\<rparr>"

definition scheduler_get_current_task :: "'a ksched_scheme \<Rightarrow> u64" where
  "scheduler_get_current_task s = tasks_addr s + 216 * ucast (current_task s)"

definition scheduler_init :: "'a ksched_scheme \<Rightarrow> 'a ksched_scheme" where
  "scheduler_init s =
     (let s1 = kprint ''Initializing scheduler...\<newline>'' s;
          s2 = s1\<lparr>tasks := fold (\<lambda>i ts. ts[i := (ts ! i)\<lparr>t_id := 0, t_state := TASK_ZOMBIE\<rparr>]) [0..<64] (tasks s1)\<rparr>;
          s3 = s2\<lparr>task_count := 0, current_task := 0\<rparr>
      in kprint ''Scheduler initialized.\<newline>'' s3)"

text \<open>
  The loop that backs a stack with pages, shared by tasks and processes. A page that cannot be
  allocated is skipped, and the result of \<open>map_page\<close> is not looked at.
\<close>

definition map_stack_page :: "u64 \<Rightarrow> u64 \<Rightarrow> mm \<Rightarrow> mm" where
  "map_stack_page flags addr m =
     (let (phys_page, m1) = alloc_physical_page m
      in if phys_page \<noteq> NULL then snd (map_page addr phys_page flags m1) else m1)"

partial_function (option) map_stack_loop :: "u64 \<Rightarrow> u64 \<Rightarrow> u64 \<Rightarrow> mm \<Rightarrow> mm option" where
  "map_stack_loop flags addr stack_end m =
     (if addr < stack_end then map_stack_loop flags (addr + 0x1000) stack_end (map_stack_page flags addr m) else Some m)"

definition init_task :: "u32 \<Rightarrow> u64 \<Rightarrow> task \<Rightarrow> task" where
  "init_task task_id entry_point t =
     t\<lparr>t_id := task_id, t_state := TASK_READY, t_priority := 1, t_ticks := 0, t_sleep_ticks := 0,
       t_rip := entry_point, t_cs := 0x08, t_rflags := 0x202,
       t_rsp := 0xFFFF800000000000 + ucast ((task_id + 1) * 0x10000), t_ss := 0x10,
       t_rax := 0, t_rbx := 0, t_rcx := 0, t_rdx := 0, t_rsi := 0, t_rdi := 0, t_rbp := 0,
       t_r8 := 0, t_r9 := 0, t_r10 := 0, t_r11 := 0, t_r12 := 0, t_r13 := 0, t_r14 := 0, t_r15 := 0,
       t_ds := 0x10, t_es := 0x10, t_fs := 0x10, t_gs := 0x10\<rparr>"

definition scheduler_add_task :: "u64 \<Rightarrow> 'a ksched_scheme \<Rightarrow> 'a ksched_scheme option" where
  "scheduler_add_task entry_point s =
     (if task_count s \<ge> MAX_TASKS then Some (kprint ''ERROR: Maximum number of tasks reached!\<newline>'' s)
      else
        (let task_id = task_count s;
             t = init_task task_id entry_point (tasks s ! unat task_id);
             s1 = s\<lparr>tasks := (tasks s)[unat task_id := t]\<rparr>
         in case map_stack_loop 0x07 (t_rsp t - 0x10000) (t_rsp t) (vm s1) of
              None \<Rightarrow> None
            | Some v \<Rightarrow>
                (let s2 = s1\<lparr>vm := v\<rparr>; s3 = s2\<lparr>task_count := task_count s2 + 1\<rparr>
                 in Some (kprint ''\<newline>'' (kprint ''Task added. Task count: '' s3)))))"

text \<open>What the loop of \<open>scheduler_schedule\<close> does to each task it passes.\<close>

definition tick_task :: "task \<Rightarrow> task" where
  "tick_task t =
     (if t_state t = TASK_SLEEPING then
        (let t1 = (if t_sleep_ticks t > 0 then t\<lparr>t_sleep_ticks := t_sleep_ticks t - 1\<rparr> else t)
         in if t_sleep_ticks t1 = 0 then t1\<lparr>t_state := TASK_READY\<rparr> else t1)
      else t)"

partial_function (option) schedule_loop :: "u32 \<Rightarrow> 'a ksched_scheme \<Rightarrow> 'a ksched_scheme option" where
  "schedule_loop old_task s =
     (let i = (current_task s + 1) mod task_count s;
          t = tick_task (tasks s ! unat i);
          s1 = s\<lparr>tasks := (tasks s)[unat i := t], current_task := i\<rparr>
      in if t_state t \<noteq> TASK_READY \<and> i \<noteq> old_task then schedule_loop old_task s1 else Some s1)"

definition switch_tasks :: "u32 \<Rightarrow> 'a ksched_scheme \<Rightarrow> 'a ksched_scheme" where
  "switch_tasks old_task s =
     (let cur = tasks s ! unat old_task; nxt = tasks s ! unat (current_task s);
          c = (cpu s)\<lparr>c_rdi := tasks_addr s + 216 * ucast old_task,
                c_rsi := tasks_addr s + 216 * ucast (current_task s)\<rparr>;
          (w, c1) = context_switch (switch_resume s) c (tcb_words cur) (tcb_words nxt)
      in s\<lparr>tasks := (tasks s)[unat old_task := tcb_put_words w cur], cpu := c1\<rparr>)"

definition scheduler_schedule :: "'a ksched_scheme \<Rightarrow> 'a ksched_scheme outcome option" where
  "scheduler_schedule s =
     (if task_count s \<le> 1 then Some (Returned s)
      else
        (let old_task = current_task s
         in case schedule_loop old_task s of
              None \<Rightarrow> None
            | Some s1 \<Rightarrow>
                if current_task s1 \<noteq> old_task then Some (Switched (switch_tasks old_task s1))
                else Some (Returned s1)))"

definition scheduler_yield :: "'a ksched_scheme \<Rightarrow> 'a ksched_scheme outcome option" where
  "scheduler_yield s = scheduler_schedule s"

definition scheduler_sleep :: "u32 \<Rightarrow> 'a ksched_scheme \<Rightarrow> 'a ksched_scheme outcome option" where
  "scheduler_sleep n s =
     (if task_count s = 0 then Some (Returned s)
      else
        (let i = unat (current_task s)
         in scheduler_schedule (s\<lparr>tasks := (tasks s)[i := (tasks s ! i)\<lparr>t_state := TASK_SLEEPING, t_sleep_ticks := n\<rparr>]\<rparr>)))"

section \<open>The choice of the next task\<close>

definition sched_ok :: "'a ksched_scheme \<Rightarrow> bool" where
  "sched_ok s \<longleftrightarrow> length (tasks s) = 64 \<and> unat (task_count s) \<le> 64 \<and>
     (if task_count s = 0 then current_task s = 0 else current_task s < task_count s)"

text \<open>The round-robin order after task \<open>cur\<close> among \<open>n\<close> tasks; it ends with \<open>cur\<close> itself.\<close>

definition rr_order :: "nat \<Rightarrow> nat \<Rightarrow> nat list" where
  "rr_order n cur = map (\<lambda>k. (cur + Suc k) mod n) [0..<n]"

definition wakes_ready :: "task list \<Rightarrow> nat \<Rightarrow> bool" where
  "wakes_ready ts i \<longleftrightarrow> t_state (tick_task (ts ! i)) = TASK_READY"

definition next_task :: "nat \<Rightarrow> nat \<Rightarrow> task list \<Rightarrow> nat" where
  "next_task n cur ts = (case find (wakes_ready ts) (rr_order n cur) of None \<Rightarrow> cur | Some i \<Rightarrow> i)"

text \<open>The tasks passed over, and the one chosen.\<close>

definition visited :: "nat list \<Rightarrow> task list \<Rightarrow> nat list" where
  "visited is ts = takeWhile (Not \<circ> wakes_ready ts) is @ take 1 (dropWhile (Not \<circ> wakes_ready ts) is)"

definition tick_all :: "nat list \<Rightarrow> task list \<Rightarrow> task list" where
  "tick_all is ts = map (\<lambda>i. if i \<in> set is then tick_task (ts ! i) else ts ! i) [0..<length ts]"

lemma visited_simps:
  "visited [] ts = []"
  "visited (i # is) ts = (if wakes_ready ts i then [i] else i # visited is ts)"
  by (simp_all add: visited_def)

lemma visited_subset: "set (visited is ts) \<subseteq> set is"
  by (induction "is") (auto simp: visited_simps)

lemma tick_all_simps:
  "tick_all [] ts = ts" "length (tick_all is ts) = length ts"
  "i < length ts \<Longrightarrow> tick_all is ts ! i = (if i \<in> set is then tick_task (ts ! i) else ts ! i)"
  by (simp_all add: tick_all_def map_nth)

lemma tick_all_Cons:
  "i \<notin> set is \<Longrightarrow> i < length ts \<Longrightarrow> tick_all is (ts[i := tick_task (ts ! i)]) = tick_all (i # is) ts"
  by (rule nth_equalityI) (auto simp: tick_all_simps nth_list_update)

lemma visited_update:
  "i \<notin> set is \<Longrightarrow> visited is (ts[i := t]) = visited is ts"
proof (induction "is")
  case (Cons j js)
  then show ?case by (auto simp: visited_simps wakes_ready_def)
qed (simp add: visited_simps)

lemma last_visited:
  "is \<noteq> [] \<Longrightarrow> last (visited is ts) = (case find (wakes_ready ts) is of None \<Rightarrow> last is | Some i \<Rightarrow> i)"
proof (induction "is")
  case (Cons j js)
  have "js \<noteq> [] \<Longrightarrow> visited js ts \<noteq> []" by (cases js) (simp_all add: visited_simps)
  with Cons show ?case
    by (cases "js = []") (auto simp: visited_simps split: option.splits)
qed simp

text \<open>The part of the order that lies \<open>d\<close> tasks ahead.\<close>

definition ahead :: "nat \<Rightarrow> nat \<Rightarrow> nat \<Rightarrow> nat list" where
  "ahead n c d = map (\<lambda>k. (c + Suc k) mod n) [0..<d]"

lemma ahead_0 [simp]: "ahead n c 0 = []"
  by (simp add: ahead_def)

lemma ahead_Suc: "ahead n c (Suc d) = (c + 1) mod n # ahead n ((c + 1) mod n) d"
proof -
  have "((c + 1) mod n + Suc k) mod n = (c + Suc (Suc k)) mod n" for k
    by (simp only: mod_add_left_eq) simp
  then show ?thesis
    by (simp add: ahead_def upt_conv_Cons map_Suc_upt [symmetric] del: upt_Suc)
qed

lemma mod_add_inj:
  assumes "i < n" "j < n" "(c + i) mod n = (c + j) mod (n :: nat)"
  shows "i = j"
proof -
  have le: "i' = j'" if "j' \<le> i'" "i' < n" "(c + i') mod n = (c + j') mod n" for i' j'
  proof -
    have "n dvd i' - j'" using that mod_eq_dvd_iff_nat [of "c + j'" "c + i'" n] by simp
    then show ?thesis using that nat_dvd_not_less [of "i' - j'" n] by linarith
  qed
  show ?thesis
  proof (cases "j \<le> i")
    case True
    then show ?thesis using le assms(1,3) by blast
  next
    case False
    then show ?thesis using le [of i j] assms(2,3) by simp
  qed
qed

lemma ahead_distinct:
  assumes "d \<le> n"
  shows "distinct (ahead n c d)"
proof -
  have "inj_on (\<lambda>k. (Suc c + k) mod n) {0..<d}"
    using assms by (intro inj_onI) (rule mod_add_inj [of _ n _ "Suc c"], auto)
  then show ?thesis by (simp add: ahead_def distinct_map)
qed

lemma unat_next:
  assumes "sched_ok s" "task_count s \<noteq> 0"
  shows "unat ((current_task s + 1) mod task_count s) = (unat (current_task s) + 1) mod unat (task_count s)"
  using assms by (simp add: sched_ok_def unat_mod unat_add_small word_less_nat_alt)

text \<open>
  One run of the loop, \<open>d\<close> tasks before it would come back to \<open>old\<close>: it visits the tasks ahead
  up to the first that is ready.
\<close>

text \<open>The search comes back to where it started after exactly the remaining distance.\<close>

lemma search_closes:
  assumes "sched_ok s" "task_count s \<noteq> 0" "Suc d \<le> unat (task_count s)"
    and old: "(unat (current_task s) + Suc d) mod unat (task_count s) = unat old"
  shows "(current_task s + 1) mod task_count s = old \<longleftrightarrow> d = 0"
proof -
  let ?n = "unat (task_count s)" and ?c = "unat (current_task s)"
  have "0 < ?n" using assms(2) by (simp add: unat_gt_0)
  then have "(?c + 1) mod ?n = (?c + Suc d) mod ?n \<longleftrightarrow> d = 0"
    using mod_add_inj [of 0 ?n d "?c + 1"] assms(3) by auto
  then show ?thesis using old unat_next [OF assms(1,2)] by (simp add: word_unat_eq_iff)
qed

lemma schedule_loop_run:
  assumes "sched_ok s" "task_count s \<noteq> 0" "0 < d" "d \<le> unat (task_count s)"
    and old: "unat old < unat (task_count s)" "(unat (current_task s) + d) mod unat (task_count s) = unat old"
  shows "schedule_loop old s =
    (let vs = visited (ahead (unat (task_count s)) (unat (current_task s)) d) (tasks s)
     in Some (s\<lparr>tasks := tick_all vs (tasks s), current_task := of_nat (last vs)\<rparr>))"
  using assms
proof (induction d arbitrary: s)
  case (Suc d)
  let ?n = "unat (task_count s)" and ?c = "unat (current_task s)"
  let ?i = "(current_task s + 1) mod task_count s"
  let ?t = "tick_task (tasks s ! unat ?i)"
  let ?s1 = "s\<lparr>tasks := (tasks s)[unat ?i := ?t], current_task := ?i\<rparr>"
  have i: "unat ?i = (?c + 1) mod ?n" by (rule unat_next [OF Suc.prems(1,2)])
  have n: "0 < ?n" using Suc.prems(2) by (simp add: unat_gt_0)
  then have lt: "unat ?i < ?n" unfolding i by simp
  have len: "unat ?i < length (tasks s)" using lt Suc.prems(1) by (simp add: sched_ok_def)
  have split: "ahead ?n ?c (Suc d) = unat ?i # ahead ?n (unat ?i) d" by (simp add: ahead_Suc i)
  have ok: "sched_ok ?s1" using Suc.prems(1,2) lt by (simp add: sched_ok_def word_less_nat_alt)
  have eq_old: "?i = old \<longleftrightarrow> d = 0" using search_closes [OF Suc.prems(1,2)] Suc.prems(4,6) by blast
  show ?case
  proof (cases "t_state ?t = TASK_READY \<or> d = 0")
    case True
    then have "schedule_loop old s = Some ?s1"
      using eq_old by (subst schedule_loop.simps) (auto simp: Let_def)
    moreover have "visited (ahead ?n ?c (Suc d)) (tasks s) = [unat ?i]"
      unfolding split using True by (auto simp: visited_simps wakes_ready_def)
    moreover have "tick_all [unat ?i] (tasks s) = (tasks s)[unat ?i := ?t]"
      using tick_all_Cons [of "unat ?i" "[]" "tasks s"] len by (simp add: tick_all_simps(1))
    ultimately show ?thesis by simp
  next
    case False
    then have "schedule_loop old s = schedule_loop old ?s1"
      using eq_old by (subst schedule_loop.simps) (auto simp: Let_def)
    also have "\<dots> = Some (?s1\<lparr>tasks := tick_all (visited (ahead ?n (unat ?i) d) (tasks ?s1)) (tasks ?s1),
        current_task := of_nat (last (visited (ahead ?n (unat ?i) d) (tasks ?s1)))\<rparr>)"
      using Suc.IH [OF ok] Suc.prems False by (simp add: i mod_simps Let_def)
    finally have run: "schedule_loop old s = \<dots>" .
    have fresh: "unat ?i \<notin> set (ahead ?n (unat ?i) d)"
      using ahead_distinct [OF Suc.prems(4), of ?c] by (simp add: split)
    have "visited (ahead ?n ?c (Suc d)) (tasks s) = unat ?i # visited (ahead ?n (unat ?i) d) (tasks s)"
      using False by (simp add: split visited_simps wakes_ready_def)
    moreover have "visited (ahead ?n (unat ?i) d) (tasks s) \<noteq> []"
      using False by (cases d) (auto simp: ahead_Suc visited_simps)
    moreover have "unat ?i \<notin> set (visited (ahead ?n (unat ?i) d) (tasks s))"
      using fresh visited_subset by blast
    ultimately show ?thesis
      using run len by (simp add: visited_update [OF fresh] tick_all_Cons)
  qed
qed simp

section \<open>Stacks\<close>

text \<open>The addresses the stack loop goes through, and what it does when all goes well.\<close>

definition pages_from :: "u64 \<Rightarrow> nat \<Rightarrow> u64 list" where
  "pages_from a k = map (\<lambda>i. a + 0x1000 * of_nat i) [0..<k]"

lemma pages_from_simps:
  "pages_from a 0 = []" "pages_from a (Suc k) = a # pages_from (a + 0x1000) k"
  by (simp_all add: pages_from_def upt_conv_Cons map_Suc_upt [symmetric] algebra_simps del: upt_Suc)

lemma map_stack_loop_eq:
  assumes "unat a + 4096 * k = unat e"
  shows "map_stack_loop fl a e m = Some (fold (map_stack_page fl) (pages_from a k) m)"
  using assms
proof (induction k arbitrary: a m)
  case 0
  then have "\<not> a < e" by (simp add: word_less_nat_alt)
  then show ?case by (subst map_stack_loop.simps) (simp add: pages_from_simps)
next
  case (Suc k)
  have "unat (a + 0x1000) = unat a + 4096"
    using Suc.prems unsigned_less [of e, where 'a = nat] by (subst unat_add_small) auto
  moreover have "a < e" using Suc.prems by (simp add: word_less_nat_alt)
  ultimately show ?case
    using Suc.IH [of "a + 0x1000"] Suc.prems by (subst map_stack_loop.simps) (simp add: pages_from_simps)
qed

lemma map_stack_page_ok:
  assumes "pt_ok m"
  shows "pt_ok (map_stack_page fl a m)" "tlb_coherent m \<Longrightarrow> tlb_coherent (map_stack_page fl a m)"
    "vpage_of va \<noteq> vpage_of a \<Longrightarrow> lookup_pte (map_stack_page fl a m) va = lookup_pte m va"
proof -
  let ?m1 = "snd (alloc_physical_page m)"
  have m1: "?m1 = m\<lparr>next_free_page := next_free_page ?m1\<rparr>" by (simp add: alloc_physical_page_def Let_def)
  have ok: "pt_ok ?m1" by (subst m1) (simp add: assms)
  have look: "lookup_pte ?m1 = lookup_pte m" "tlb ?m1 = tlb m" by (subst m1, simp)+
  show "pt_ok (map_stack_page fl a m)"
    using map_page_ok [OF ok] ok by (simp add: map_stack_page_def split_beta)
  show "tlb_coherent (map_stack_page fl a m)" if "tlb_coherent m"
  proof -
    have "tlb_coherent ?m1" using that look by (simp add: tlb_coherent_def)
    then show ?thesis using map_page_coherent [OF ok] by (simp add: map_stack_page_def split_beta)
  qed
  show "lookup_pte (map_stack_page fl a m) va = lookup_pte m va" if "vpage_of va \<noteq> vpage_of a"
    using map_page_other [OF ok that] look by (simp add: map_stack_page_def split_beta)
qed

lemma stack_run_ok:
  assumes "pt_ok m"
  shows "pt_ok (fold (map_stack_page fl) as m) \<and>
    (tlb_coherent m \<longrightarrow> tlb_coherent (fold (map_stack_page fl) as m)) \<and>
    (\<forall>va. vpage_of va \<notin> vpage_of ` set as \<longrightarrow> lookup_pte (fold (map_stack_page fl) as m) va = lookup_pte m va)"
  using assms
proof (induction as arbitrary: m)
  case (Cons a as)
  note one = map_stack_page_ok [where fl = fl and a = a, OF Cons.prems]
  show ?case using Cons.IH [OF one(1)] one(2,3) by auto
qed simp


definition frames_left :: "nat \<Rightarrow> mm \<Rightarrow> bool" where
  "frames_left n m \<longleftrightarrow> aligned (next_free_page m) \<and> next_free_page m \<noteq> NULL \<and>
     unat (next_free_page m) + 4096 * n < 2 ^ 64"

definition table_room :: "mm \<Rightarrow> u64 \<Rightarrow> bool" where
  "table_room m va \<longleftrightarrow> used m \<le> 65536 - 3 * 4096 \<or> find_pt m va \<noteq> None"

lemma frames_left_Suc:
  assumes "frames_left (Suc n) m"
  shows "frames_left n (m\<lparr>next_free_page := next_free_page m + 4096\<rparr>)"
proof -
  have u: "unat (next_free_page m + 4096) = unat (next_free_page m) + 4096"
    using assms by (subst unat_add_small) (auto simp: frames_left_def)
  then have "next_free_page m + 4096 \<noteq> 0" by (metis add_is_0 unat_0 zero_neq_numeral)
  then show ?thesis using assms u by (simp add: frames_left_def aligned_unat)
qed

lemma map_stack_page_maps:
  fixes fl :: u64
  assumes ok: "pt_ok m" and fr: "frames_left (Suc n) m" and room: "table_room m a"
  defines "m' \<equiv> map_stack_page fl a m"
  shows "lookup_pte m' a = Some (next_free_page m OR fl OR PAGE_PRESENT)" "find_pt m' a \<noteq> None"
    "frames_left n m'" "next_free_page m' = next_free_page m + 4096"
proof -
  let ?m1 = "m\<lparr>next_free_page := next_free_page m + 4096\<rparr>"
  have al: "aligned (next_free_page m)" "next_free_page m \<noteq> NULL" using fr by (simp_all add: frames_left_def)
  then have m': "m' = snd (map_page a (next_free_page m) fl ?m1)"
    by (simp add: m'_def map_stack_page_def alloc_physical_page_aligned)
  have ok1: "pt_ok ?m1" using ok by simp
  have mapped: "fst (map_page a (next_free_page m) fl ?m1) = 0"
    using room map_page_used(1) [OF ok1] map_page_present(1) [of ?m1 a] by (auto simp: table_room_def)
  show "lookup_pte m' a = Some (next_free_page m OR fl OR PAGE_PRESENT)"
    unfolding m' using map_page_lookup [OF ok1 mapped] al(1) by (simp add: page_base_aligned)
  show "find_pt m' a \<noteq> None" unfolding m' by (rule map_page_used(3) [OF ok1 mapped])
  show "next_free_page m' = next_free_page m + 4096" by (simp add: m')
  then show "frames_left n m'" using frames_left_Suc [OF fr] by (simp add: frames_left_def)
qed

lemma stack_run_backed:
  assumes "pt_ok m" "frames_left (length as) m" "table_room m (hd as)"
    and "distinct (map vpage_of as)" "\<forall>a\<in>set as. walk_path a = p" and "k < length as"
  shows "lookup_pte (fold (map_stack_page fl) as m) (as ! k) =
    Some ((next_free_page m + 4096 * of_nat k) OR fl OR PAGE_PRESENT)"
  using assms
proof (induction as arbitrary: m k)
  case (Cons a as)
  let ?m1 = "map_stack_page fl a m"
  have room: "table_room m a" and fr: "frames_left (Suc (length as)) m" using Cons.prems(2,3) by simp_all
  note one = map_stack_page_maps [where fl = fl, OF Cons.prems(1) fr room]
  note ok1 = map_stack_page_ok(1) [OF Cons.prems(1), of fl a]
  show ?case
  proof (cases k)
    case 0
    have "vpage_of a \<notin> vpage_of ` set as" using Cons.prems(4) by simp
    then show ?thesis using stack_run_ok [OF ok1, of fl as] one(1) 0 by simp
  next
    case (Suc k')
    have ne: "as \<noteq> []" using Suc Cons.prems(6) by auto
    then have "walk_path (hd as) = walk_path a" using Cons.prems(5) by (cases as) auto
    then have "find_pt ?m1 (hd as) \<noteq> None" using one(2) by (simp add: find_pt_table_at)
    then have "lookup_pte (fold (map_stack_page fl) as ?m1) (as ! k') =
        Some ((next_free_page ?m1 + 4096 * of_nat k') OR fl OR PAGE_PRESENT)"
      using Cons.prems Suc one(3) by (intro Cons.IH [OF ok1]) (auto simp: table_room_def)
    then show ?thesis using Suc one(4) by (simp add: algebra_simps)
  qed
qed simp

section \<open>The invariant\<close>

text \<open>Every task added is ready or asleep and carries its index.\<close>

definition task_ok :: "nat \<Rightarrow> task \<Rightarrow> bool" where
  "task_ok i t \<longleftrightarrow> t_id t = of_nat i \<and> (t_state t = TASK_READY \<or> t_state t = TASK_SLEEPING)"

definition sched_inv :: "'a ksched_scheme \<Rightarrow> bool" where
  "sched_inv s \<longleftrightarrow> sched_ok s \<and> (\<forall>i<unat (task_count s). task_ok i (tasks s ! i))"

lemma tick_task_simps [simp]: "t_id (tick_task t) = t_id t"
  by (simp add: tick_task_def Let_def)

lemma tick_task_ready: "t_state t = TASK_READY \<Longrightarrow> tick_task t = t"
  by (simp add: tick_task_def)

lemma task_ok_tick: "task_ok i t \<Longrightarrow> task_ok i (tick_task t)"
  by (auto simp: task_ok_def tick_task_def Let_def)

lemma tcb_put_words_simps [simp]:
  "t_id (tcb_put_words w t) = t_id t" "t_state (tcb_put_words w t) = t_state t"
  "t_sleep_ticks (tcb_put_words w t) = t_sleep_ticks t" "t_priority (tcb_put_words w t) = t_priority t"
  "t_ticks (tcb_put_words w t) = t_ticks t"
  by (simp_all add: tcb_put_words_def)

lemma ahead_rr: "ahead n c n = rr_order n c"
  by (simp add: ahead_def rr_order_def)

lemma rr_order_props:
  assumes "c < n"
  shows "rr_order n c \<noteq> []" "last (rr_order n c) = c" "set (rr_order n c) = {..<n}"
proof -
  show "rr_order n c \<noteq> []" using assms by (simp add: rr_order_def)
  have "last (rr_order n c) = (c + Suc (n - 1)) mod n" using assms by (simp add: rr_order_def last_map)
  also have "\<dots> = c" using assms by (simp only: Suc_diff_1 mod_add_self2 mod_less)
  finally show "last (rr_order n c) = c" .
  have "distinct (rr_order n c)" using ahead_distinct [of n n c] by (simp add: ahead_rr)
  moreover have "length (rr_order n c) = n" by (simp add: rr_order_def)
  ultimately have "card (set (rr_order n c)) = n" using distinct_card by metis
  moreover have "set (rr_order n c) \<subseteq> {..<n}" using assms by (auto simp: rr_order_def)
  ultimately show "set (rr_order n c) = {..<n}" by (simp add: card_subset_eq)
qed

abbreviation passed :: "'a ksched_scheme \<Rightarrow> nat list" where
  "passed s \<equiv> visited (rr_order (unat (task_count s)) (unat (current_task s))) (tasks s)"

abbreviation chosen :: "'a ksched_scheme \<Rightarrow> nat" where
  "chosen s \<equiv> next_task (unat (task_count s)) (unat (current_task s)) (tasks s)"

lemma sched_okD:
  assumes "sched_ok s" "1 < task_count s"
  shows "task_count s \<noteq> 0" "0 < unat (task_count s)" "unat (current_task s) < unat (task_count s)"
    "length (tasks s) = 64" "unat (task_count s) \<le> 64"
proof -
  show n: "task_count s \<noteq> 0" using assms(2) by auto
  then show "0 < unat (task_count s)" by (simp add: unat_gt_0)
  show "unat (current_task s) < unat (task_count s)" using assms(1) n by (simp add: sched_ok_def word_less_nat_alt)
  show "length (tasks s) = 64" "unat (task_count s) \<le> 64" using assms(1) by (simp_all add: sched_ok_def)
qed

lemma schedule_loop_eq:
  assumes "sched_ok s" "1 < task_count s"
  shows "schedule_loop (current_task s) s =
    Some (s\<lparr>tasks := tick_all (passed s) (tasks s), current_task := of_nat (chosen s)\<rparr>)"
proof -
  let ?n = "unat (task_count s)" and ?c = "unat (current_task s)"
  note n = sched_okD [OF assms]
  have "last (passed s) = chosen s"
    using last_visited [of "rr_order ?n ?c"] rr_order_props(1,2) [OF n(3)]
    by (simp add: next_task_def split: option.splits)
  then show ?thesis
    using schedule_loop_run [OF assms(1) n(1,2), of "current_task s"] n(3) by (simp add: ahead_rr Let_def)
qed

lemma next_task_lt: "c < n \<Longrightarrow> next_task n c ts < n"
  using rr_order_props(3) [of c n] by (auto simp: next_task_def find_Some_iff split: option.splits)

lemma next_task_ready:
  assumes "c < n" "next_task n c ts \<noteq> c"
  shows "wakes_ready ts (next_task n c ts)"
proof (cases "find (wakes_ready ts) (rr_order n c)")
  case (Some i)
  then have "wakes_ready ts i" by (auto simp: find_Some_iff)
  with Some show ?thesis by (simp add: next_task_def)
qed (use assms in \<open>simp add: next_task_def\<close>)

text \<open>The result of \<open>scheduler_schedule\<close> with at least two tasks.\<close>

definition scheduled :: "'a ksched_scheme \<Rightarrow> 'a ksched_scheme" where
  "scheduled s = s\<lparr>tasks := tick_all (passed s) (tasks s), current_task := of_nat (chosen s)\<rparr>"

lemma chosen_word:
  assumes "sched_ok s" "1 < task_count s"
  shows "unat (of_nat (chosen s) :: u32) = chosen s" "chosen s < unat (task_count s)"
    "of_nat (chosen s) = current_task s \<longleftrightarrow> chosen s = unat (current_task s)"
proof -
  show lt: "chosen s < unat (task_count s)"
    by (rule next_task_lt) (rule sched_okD [OF assms])
  then show u: "unat (of_nat (chosen s) :: u32) = chosen s"
    using assms(1) by (intro unat_of_nat_small) (simp add: sched_ok_def)
  show "of_nat (chosen s) = current_task s \<longleftrightarrow> chosen s = unat (current_task s)"
    using u by (auto simp: word_unat_eq_iff)
qed

lemma scheduler_schedule_eq:
  assumes "sched_ok s" "1 < task_count s"
  shows "scheduler_schedule s =
    Some (if chosen s = unat (current_task s) then Returned (scheduled s)
          else Switched (switch_tasks (current_task s) (scheduled s)))"
  using assms schedule_loop_eq [OF assms] chosen_word(3) [OF assms]
  by (simp add: scheduler_schedule_def scheduled_def Let_def not_le)

lemma switch_tasks_frame [simp]:
  "task_count (switch_tasks i s) = task_count s" "current_task (switch_tasks i s) = current_task s"
  "vm (switch_tasks i s) = vm s" "heap_mem (switch_tasks i s) = heap_mem s" "io (switch_tasks i s) = io s"
  "length (tasks (switch_tasks i s)) = length (tasks s)"
  by (simp_all add: switch_tasks_def Let_def split_beta)

text \<open>What the scheduler itself reads of a task.\<close>

definition sched_view :: "task \<Rightarrow> u32 \<times> u32 \<times> u32" where
  "sched_view t = (t_id t, t_state t, t_sleep_ticks t)"

lemma switch_tasks_view:
  "i < length (tasks s) \<Longrightarrow> sched_view (tasks (switch_tasks k s) ! i) = sched_view (tasks s ! i)"
  by (cases "unat k = i") (simp_all add: switch_tasks_def Let_def split_beta sched_view_def)

lemma sched_view_cong: "sched_view t = sched_view t' \<Longrightarrow> task_ok i t = task_ok i t'"
  by (simp add: sched_view_def task_ok_def)

lemma passed_lt:
  assumes "sched_ok s" "1 < task_count s" "i \<in> set (passed s)"
  shows "i < unat (task_count s)"
  using visited_subset assms(3) rr_order_props(3) [OF sched_okD(3) [OF assms(1,2)]] by blast

lemma scheduled_view:
  assumes "sched_ok s" "1 < task_count s" "i < 64"
  shows "tasks (scheduled s) ! i = (if i \<in> set (passed s) then tick_task (tasks s ! i) else tasks s ! i)"
  using sched_okD(4) [OF assms(1,2)] assms(3) by (simp add: scheduled_def tick_all_simps)

lemma scheduled_inv:
  assumes "sched_inv s" "1 < task_count s"
  shows "sched_inv (scheduled s)" "unat (current_task (scheduled s)) = chosen s"
    "task_count (scheduled s) = task_count s"
proof -
  have ok: "sched_ok s" using assms(1) by (simp add: sched_inv_def)
  note D = sched_okD [OF ok assms(2)] chosen_word [OF ok assms(2)]
  show cur: "unat (current_task (scheduled s)) = chosen s" and cnt: "task_count (scheduled s) = task_count s"
    using D(6) by (simp_all add: scheduled_def)
  have "current_task (scheduled s) < task_count s"
    using cur D(7) by (simp add: word_less_nat_alt)
  then have "sched_ok (scheduled s)"
    using D(1,4,5) cnt by (simp add: sched_ok_def) (simp add: scheduled_def tick_all_simps)
  moreover have "task_ok i (tasks (scheduled s) ! i)" if "i < unat (task_count s)" for i
    using that assms(1) D(5) scheduled_view [OF ok assms(2), of i]
    by (auto simp: sched_inv_def intro: task_ok_tick)
  ultimately show "sched_inv (scheduled s)" using cnt by (simp add: sched_inv_def)
qed

lemma switch_tasks_inv: "sched_inv s \<Longrightarrow> sched_inv (switch_tasks k s)"
  using sched_view_cong [OF switch_tasks_view [of _ s k]] by (auto simp: sched_inv_def sched_ok_def)

lemma final_state_if [simp]: "final_state ((if b then Returned else Switched) s) = s"
  by simp

text \<open>The outcome of one call, for any number of tasks.\<close>

definition picks :: "'a ksched_scheme \<Rightarrow> nat" where
  "picks s = (if task_count s \<le> 1 then unat (current_task s) else chosen s)"

lemma schedule_outcome:
  assumes "sched_inv s"
  obtains s' where
    "scheduler_schedule s = Some ((if picks s = unat (current_task s) then Returned else Switched) s')"
    "sched_inv s'" "task_count s' = task_count s" "unat (current_task s') = picks s"
    "\<And>i. i < 64 \<Longrightarrow> sched_view (tasks s' ! i) =
       sched_view (if 1 < task_count s \<and> i \<in> set (passed s) then tick_task (tasks s ! i) else tasks s ! i)"
proof (cases "1 < task_count s")
  case False
  then show thesis using assms by (intro that [of s]) (auto simp: scheduler_schedule_def picks_def)
next
  case True
  have ok: "sched_ok s" using assms by (simp add: sched_inv_def)
  let ?s' = "if chosen s = unat (current_task s) then scheduled s else switch_tasks (current_task s) (scheduled s)"
  note inv = scheduled_inv [OF assms True]
  have picks: "picks s = chosen s" using True by (auto simp: picks_def)
  have len: "length (tasks (scheduled s)) = 64" using inv(1) by (simp add: sched_inv_def sched_ok_def)
  show thesis
  proof (rule that [of ?s'])
    show "scheduler_schedule s = Some ((if picks s = unat (current_task s) then Returned else Switched) ?s')"
      by (simp add: scheduler_schedule_eq [OF ok True] picks)
    show "sched_inv ?s'" using inv(1) switch_tasks_inv [OF inv(1)] by simp
    show "task_count ?s' = task_count s" using inv(3) by simp
    show "unat (current_task ?s') = picks s" using inv(2) by (simp add: picks)
    show "sched_view (tasks ?s' ! i) =
      sched_view (if 1 < task_count s \<and> i \<in> set (passed s) then tick_task (tasks s ! i) else tasks s ! i)"
      if "i < 64" for i
      using switch_tasks_view [of i "scheduled s"] scheduled_view [OF ok True that] len that True by simp
  qed
qed

text \<open>Scheduling decisions a running task can cause.\<close>

datatype sched_event = Yield | SleepFor u32

fun sched_step :: "sched_event \<Rightarrow> 'a ksched_scheme \<Rightarrow> 'a ksched_scheme outcome option" where
  "sched_step Yield s = scheduler_yield s"
| "sched_step (SleepFor n) s = scheduler_sleep n s"

definition sched_run :: "sched_event list \<Rightarrow> 'a ksched_scheme \<Rightarrow> 'a ksched_scheme option" where
  "sched_run = run_steps (\<lambda>e s. map_option final_state (sched_step e s))"

text \<open>How far ahead task \<open>j\<close> is of task \<open>c\<close>.\<close>

definition rr_dist :: "nat \<Rightarrow> nat \<Rightarrow> nat \<Rightarrow> nat" where
  "rr_dist n c j = (j + n - c) mod n"

lemma rr_dist_spec:
  assumes "c < n" "j < n"
  shows "rr_dist n c j < n" "(c + rr_dist n c j) mod n = j"
    "d < n \<Longrightarrow> (c + d) mod n = j \<Longrightarrow> rr_dist n c j = d"
proof -
  show lt: "rr_dist n c j < n" using assms by (simp add: rr_dist_def)
  have "(c + rr_dist n c j) mod n = (c + (j + n - c)) mod n" by (simp add: rr_dist_def mod_simps)
  then show eq: "(c + rr_dist n c j) mod n = j" using assms by simp
  show "rr_dist n c j = d" if "d < n" "(c + d) mod n = j"
    using mod_add_inj [OF lt that(1), of c] eq that(2) by simp
qed

lemma rr_dist_0: "c < n \<Longrightarrow> j < n \<Longrightarrow> rr_dist n c j = 0 \<longleftrightarrow> c = j"
  using rr_dist_spec(2) [of c n j] rr_dist_spec(3) [of c n j 0] by auto

lemma next_task_closer:
  assumes "c < n" "j < n" "c \<noteq> j" "wakes_ready ts j"
  shows "rr_dist n (next_task n c ts) j < rr_dist n c j"
proof -
  let ?D = "rr_dist n c j"
  have D: "0 < ?D" "?D < n" "(c + ?D) mod n = j" using assms rr_dist_0 rr_dist_spec by auto
  have nth: "rr_order n c ! k = (c + Suc k) mod n" if "k < n" for k
    using that by (simp add: rr_order_def)
  have at: "rr_order n c ! (?D - 1) = j" using D nth [of "?D - 1"] by simp
  have len: "length (rr_order n c) = n" by (simp add: rr_order_def)
  then have "find (wakes_ready ts) (rr_order n c) \<noteq> None"
    using assms(4) at D(1,2) by (metis find_None_iff less_imp_diff_less nth_mem)
  then obtain i where i: "find (wakes_ready ts) (rr_order n c) = Some i" by auto
  then obtain k where k: "k < n" "i = rr_order n c ! k" "\<forall>l<k. \<not> wakes_ready ts (rr_order n c ! l)"
    unfolding find_Some_iff len by auto
  have le: "Suc k \<le> ?D"
  proof (rule ccontr)
    assume "\<not> Suc k \<le> ?D"
    then have "?D - 1 < k" using D(1) by linarith
    then show False using k(3) at assms(4) by auto
  qed
  have nx: "next_task n c ts = (c + Suc k) mod n" using i k(1,2) nth by (simp add: next_task_def)
  have "(next_task n c ts + (?D - Suc k)) mod n = (c + Suc k + (?D - Suc k)) mod n"
    unfolding nx by (simp only: mod_add_left_eq)
  also have "c + Suc k + (?D - Suc k) = c + ?D" using le by simp
  finally have "(next_task n c ts + (?D - Suc k)) mod n = j" using D(3) by simp
  then have "rr_dist n (next_task n c ts) j = ?D - Suc k"
    using D(2) assms(1,2) by (intro rr_dist_spec(3)) (auto simp: nx)
  then show ?thesis using D(1) by simp
qed

lemma sched_step_closer:
  assumes inv: "sched_inv s" and j: "j < unat (task_count s)" "t_state (tasks s ! j) = TASK_READY"
    and ne: "unat (current_task s) \<noteq> j"
  obtains r where "sched_step e s = Some r" "sched_inv (final_state r)" "task_count (final_state r) = task_count s"
    "t_state (tasks (final_state r) ! j) = TASK_READY"
    "rr_dist (unat (task_count s)) (unat (current_task (final_state r))) j
       < rr_dist (unat (task_count s)) (unat (current_task s)) j"
proof -
  let ?c = "unat (current_task s)"
  let ?s1 = "case e of Yield \<Rightarrow> s
    | SleepFor n \<Rightarrow> s\<lparr>tasks := (tasks s)[?c := (tasks s ! ?c)\<lparr>t_state := TASK_SLEEPING, t_sleep_ticks := n\<rparr>]\<rparr>"
  have ok: "sched_ok s" using inv by (simp add: sched_inv_def)
  have two: "1 < task_count s"
  proof (rule ccontr)
    assume "\<not> ?thesis"
    then have "unat (task_count s) \<le> 1" by (simp add: not_less word_le_nat_alt)
    then show False using ok j(1) ne by (auto simp: sched_ok_def word_less_nat_alt split: if_splits)
  qed
  note D = sched_okD [OF ok two]
  have s1: "sched_inv ?s1" "task_count ?s1 = task_count s" "current_task ?s1 = current_task s"
    "tasks ?s1 ! j = tasks s ! j"
    using inv D ne j(1) by (auto simp: sched_inv_def sched_ok_def task_ok_def nth_list_update split: sched_event.split)
  have step: "sched_step e s = scheduler_schedule ?s1"
    using D(1) by (cases e) (simp_all add: scheduler_yield_def scheduler_sleep_def Let_def)
  obtain s' where s': "scheduler_schedule ?s1 = Some ((if picks ?s1 = unat (current_task ?s1) then Returned else Switched) s')"
    "sched_inv s'" "task_count s' = task_count ?s1" "unat (current_task s') = picks ?s1"
    "\<And>i. i < 64 \<Longrightarrow> sched_view (tasks s' ! i) =
       sched_view (if 1 < task_count ?s1 \<and> i \<in> set (passed ?s1) then tick_task (tasks ?s1 ! i) else tasks ?s1 ! i)"
    by (rule schedule_outcome [OF s1(1)]) blast
  have "sched_view (tasks s' ! j) = sched_view (tasks s ! j)"
    using s'(5) [of j] j D(5) s1(4) tick_task_ready [OF j(2)] by simp
  then have ready: "t_state (tasks s' ! j) = TASK_READY" using j(2) by (simp add: sched_view_def)
  have "wakes_ready (tasks ?s1) j" using s1(4) j(2) by (simp add: wakes_ready_def tick_task_ready)
  then have closer: "rr_dist (unat (task_count s)) (unat (current_task s')) j < rr_dist (unat (task_count s)) ?c j"
    using next_task_closer [OF D(3) j(1) ne] s'(4) s1(2,3) two by (auto simp: picks_def)
  show thesis
    by (rule that [of "(if picks ?s1 = unat (current_task ?s1) then Returned else Switched) s'"])
      (use s' s1 step ready closer in simp_all)
qed

definition waiting :: "nat \<Rightarrow> 'a ksched_scheme \<Rightarrow> bool" where
  "waiting j s \<longleftrightarrow> sched_inv s \<and> j < unat (task_count s) \<and> t_state (tasks s ! j) = TASK_READY"

interpretation rr: progress "\<lambda>e s. map_option final_state (sched_step e s)" "waiting j"
  "\<lambda>s. unat (current_task s) = j" "\<lambda>s. rr_dist (unat (task_count s)) (unat (current_task s)) j"
  for j :: nat
proof
  fix s :: "'a ksched_scheme" and e
  assume "waiting j s" and "unat (current_task s) \<noteq> j"
  then have w: "sched_inv s" "j < unat (task_count s)" "t_state (tasks s ! j) = TASK_READY" "unat (current_task s) \<noteq> j"
    by (simp_all add: waiting_def)
  obtain r where "sched_step e s = Some r" "sched_inv (final_state r)" "task_count (final_state r) = task_count s"
    "t_state (tasks (final_state r) ! j) = TASK_READY"
    "rr_dist (unat (task_count s)) (unat (current_task (final_state r))) j
       < rr_dist (unat (task_count s)) (unat (current_task s)) j"
    by (rule sched_step_closer [OF w])
  then show "\<exists>s'. map_option final_state (sched_step e s) = Some s' \<and> waiting j s' \<and>
      rr_dist (unat (task_count s')) (unat (current_task s')) j < rr_dist (unat (task_count s)) (unat (current_task s)) j"
    using w(2) by (simp add: waiting_def)
qed

section \<open>Properties\<close>

definition blank_task :: task where
  "blank_task = \<lparr>t_rsp = 0, t_rip = 0, t_rbp = 0, t_rax = 0, t_rbx = 0, t_rcx = 0, t_rdx = 0, t_rsi = 0, t_rdi = 0,
     t_r8 = 0, t_r9 = 0, t_r10 = 0, t_r11 = 0, t_r12 = 0, t_r13 = 0, t_r14 = 0, t_r15 = 0,
     t_cs = 0, t_ds = 0, t_es = 0, t_fs = 0, t_gs = 0, t_ss = 0, t_rflags = 0,
     t_id = 0, t_state = 0, t_priority = 0, t_ticks = 0, t_sleep_ticks = 0\<rparr>"

definition blank_cpu :: cpu_regs where
  "blank_cpu = \<lparr>c_rsp = 0x90000, c_r15 = 0, c_r14 = 0, c_r13 = 0, c_r12 = 0, c_r11 = 0, c_r10 = 0, c_r9 = 0,
     c_r8 = 0, c_rbp = 0, c_rdi = 0, c_rsi = 0, c_rdx = 0, c_rcx = 0, c_rbx = 0, c_rax = 0,
     c_cs = 8, c_ds = 16, c_es = 16, c_fs = 16, c_gs = 16, c_ss = 16, c_rflags = 2, c_rip = 0,
     c_data_check = (\<lambda>v. if v \<in> {8, 16} then None else Some 13), c_code_check = (\<lambda>v. if v = 8 then None else Some 13),
     c_status = Running\<rparr>"

text \<open>Three tasks: the running one, one that sleeps for two more passes, one that is ready.\<close>

definition sample_sched :: ksched where
  "sample_sched = kmem.extend sample_kmem
     \<lparr>tasks = [blank_task\<lparr>t_state := TASK_READY\<rparr>, blank_task\<lparr>t_id := 1, t_state := TASK_SLEEPING, t_sleep_ticks := 2\<rparr>,
        blank_task\<lparr>t_id := 2, t_state := TASK_READY\<rparr>] @ replicate 61 (blank_task\<lparr>t_state := TASK_ZOMBIE\<rparr>),
      task_count = 3, current_task = 0, cpu = blank_cpu, tasks_addr = 0x300000, switch_resume = 0x201000\<rparr>"

lemma sample_sched_simps:
  "task_count sample_sched = 3" "current_task sample_sched = 0" "length (tasks sample_sched) = 64"
  "tasks sample_sched ! 0 = blank_task\<lparr>t_state := TASK_READY\<rparr>"
  "tasks sample_sched ! 1 = blank_task\<lparr>t_id := 1, t_state := TASK_SLEEPING, t_sleep_ticks := 2\<rparr>"
  "tasks sample_sched ! 2 = blank_task\<lparr>t_id := 2, t_state := TASK_READY\<rparr>" "vm sample_sched = sample_mm"
  by (simp_all add: sample_sched_def kmem.defs sample_kmem_def kkbd.defs)

lemma sample_sched_inv: "sched_inv sample_sched"
proof -
  have "i = 0 \<or> i = 1 \<or> i = 2" if "i < 3" for i :: nat using that by linarith
  then have "task_ok i (tasks sample_sched ! i)" if "i < 3" for i
    using that sample_sched_simps(4-6) by (fastforce simp: task_ok_def blank_task_def)
  then show ?thesis by (simp add: sched_inv_def sched_ok_def sample_sched_simps)
qed

text \<open>
  C7. Round-robin scheduling. On every well-formed scheduler state \<open>scheduler_schedule\<close> terminates,
  keeps the state well formed, and makes current the first task after the current one, in
  cyclic order, that is ready once its sleep counter has been decremented; if there is none (or
  at most one task) the current task goes on. Exactly the tasks passed on the way and the chosen one have their
  sleep counters decremented, and control leaves the caller exactly when another task is chosen.
\<close>

theorem scheduler_schedule_round_robin:
  assumes "sched_inv s"
  shows "\<exists>s'. scheduler_schedule s = Some ((if picks s = unat (current_task s) then Returned else Switched) s') \<and>
    sched_inv s' \<and> task_count s' = task_count s \<and> unat (current_task s') = picks s \<and>
    (\<forall>i<64. sched_view (tasks s' ! i) =
       sched_view (if 1 < task_count s \<and> i \<in> set (passed s) then tick_task (tasks s ! i) else tasks s ! i))"
  by (rule schedule_outcome [OF assms]) blast

lemma sample_picks: "picks sample_sched = 2" "passed sample_sched = [1, 2]"
proof -
  have order: "rr_order 3 0 = [1, 2, 0]" by (simp add: rr_order_def upt_conv_Cons)
  have w: "\<not> wakes_ready (tasks sample_sched) 1" "wakes_ready (tasks sample_sched) 2"
    using sample_sched_simps(5,6) by (simp_all add: wakes_ready_def tick_task_def blank_task_def)
  show "picks sample_sched = 2" using w by (simp add: picks_def sample_sched_simps next_task_def order word_le_nat_alt)
  show "passed sample_sched = [1, 2]" using w by (simp add: sample_sched_simps order visited_simps)
qed

theorem scheduler_schedule_round_robin_witness:
  "\<exists>s'. scheduler_schedule sample_sched = Some (Switched s') \<and> unat (current_task s') = 2 \<and>
     t_sleep_ticks (tasks s' ! 1) = 1"
proof -
  obtain s' where s': "scheduler_schedule sample_sched =
      Some ((if picks sample_sched = unat (current_task sample_sched) then Returned else Switched) s')"
    "unat (current_task s') = picks sample_sched"
    "\<forall>i<64. sched_view (tasks s' ! i) = sched_view (if 1 < task_count sample_sched \<and> i \<in> set (passed sample_sched)
       then tick_task (tasks sample_sched ! i) else tasks sample_sched ! i)"
    using scheduler_schedule_round_robin [OF sample_sched_inv] by blast
  have "sched_view (tasks s' ! 1) = sched_view (tick_task (tasks sample_sched ! 1))"
    using s'(3) unfolding sample_picks by (simp add: sample_sched_simps(1))
  then have "t_sleep_ticks (tasks s' ! 1) = 1"
    using sample_sched_simps(5) by (simp add: sched_view_def tick_task_def blank_task_def)
  then show ?thesis using s'(1,2) by (simp add: sample_picks sample_sched_simps(2))
qed

text \<open>
  C8. No starvation. A ready task becomes the current one after fewer scheduling decisions than
  there are tasks, whatever the tasks that run before it do: each may yield or go to
  sleep for any time.
\<close>

theorem ready_task_runs:
  assumes "sched_inv s" "j < unat (task_count s)" "t_state (tasks s ! j) = TASK_READY"
    and "length es = unat (task_count s) - 1"
  shows "\<exists>k s'. k < unat (task_count s) \<and> sched_run (take k es) s = Some s' \<and> unat (current_task s') = j"
proof -
  have c: "unat (current_task s) < unat (task_count s)"
    using assms(1,2) by (auto simp: sched_inv_def sched_ok_def word_less_nat_alt split: if_splits)
  have "waiting j s" using assms(1-3) by (simp add: waiting_def)
  moreover have "rr_dist (unat (task_count s)) (unat (current_task s)) j \<le> length es"
    using rr_dist_spec(1) [OF c assms(2)] assms(4) by simp
  ultimately obtain k s' where "k \<le> length es" "sched_run (take k es) s = Some s'" "unat (current_task s') = j"
    using rr.reaches [of j s es] by (auto simp: sched_run_def)
  then show ?thesis using assms(2,4) by (intro exI [of _ k] exI [of _ s']) simp
qed

theorem ready_task_runs_witness:
  "\<exists>k s'. k < 3 \<and> sched_run (take k [SleepFor 7, Yield]) sample_sched = Some s' \<and> unat (current_task s') = 2"
proof -
  have "t_state (tasks sample_sched ! 2) = TASK_READY" unfolding sample_sched_simps(6) by simp
  then show ?thesis
    using ready_task_runs [OF sample_sched_inv, of 2 "[SleepFor 7, Yield]"] by (simp add: sample_sched_simps(1))
qed

text \<open>
  The first switch to a task added by \<open>scheduler_add_task\<close> does not start it: the
  offsets in \<open>restore_context\<close> are not those of \<open>struct task\<close>, so it loads \<open>ds\<close> from the field \<open>cs\<close> (8), the
  other data segments with 16 and \<open>cs\<close> from \<open>r15\<close> (0). Whatever the descriptors allow, the processor raises an exception: that for one of the data
  selectors, or a general protection exception for the null code selector. The entry point ends up in \<open>r15\<close>.
\<close>

definition new_task_fault :: "cpu_regs \<Rightarrow> u32" where
  "new_task_fault c = (case c_data_check c 8 of Some e \<Rightarrow> e | None \<Rightarrow> (case c_data_check c 0x10 of Some e \<Rightarrow> e | None \<Rightarrow> 13))"

theorem new_task_faults:
  "let c' = snd (context_switch ra c cur (tcb_words (init_task task_id entry_point t)))
   in c_status c' = Faulted (new_task_fault c) \<and> c_rip c' = c_rip c \<and> c_cs c' = c_cs c \<and> c_r15 c' = entry_point"
proof -
  let ?w = "tcb_words (init_task task_id entry_point t)"
  have w: "?w ! 1 = entry_point" "?w ! 16 = 0" "?w ! 17 = 8" "?w ! 18 = 0x10" "?w ! 19 = 0x10" "?w ! 20 = 0x10"
    by (simp_all add: tcb_words_def init_task_def)
  have f: "seg_fault (c\<lparr>c_rdi := c_rsi c\<rparr>) (ucast (8 :: u64)) = c_data_check c 8"
    "seg_fault (c\<lparr>c_rdi := c_rsi c\<rparr>) (ucast (0x10 :: u64)) = c_data_check c 0x10"
    by (simp_all add: seg_fault_def null_selector_def)
  have null: "null_selector (ucast (?w ! 16))" by (simp add: w null_selector_def)
  show ?thesis
    using restore_null_cs [OF null, of "c\<lparr>c_rdi := c_rsi c\<rparr>", unfolded w f]
    by (simp add: context_switch_def Let_def new_task_fault_def split: option.split)
qed

lemma fold_update_all:
  "n \<le> length xs \<Longrightarrow> fold (\<lambda>i xs. xs[i := f (xs ! i)]) [0..<n] xs = map f (take n xs) @ drop n xs"
proof (induction n)
  case (Suc n)
  then have "(map f (take n xs) @ drop n xs)[n := f ((map f (take n xs) @ drop n xs) ! n)] =
      map f (take n xs) @ f (xs ! n) # drop (Suc n) xs"
    by (simp add: nth_append list_update_append Cons_nth_drop_Suc [symmetric])
  then show ?case using Suc by (simp add: take_Suc_conv_app_nth)
qed simp

lemma scheduler_init_tasks:
  assumes "length (tasks s) = 64"
  shows "tasks (scheduler_init s) = map (\<lambda>t. t\<lparr>t_id := 0, t_state := TASK_ZOMBIE\<rparr>) (tasks s)"
    "sched_inv (scheduler_init s)"
proof -
  show t: "tasks (scheduler_init s) = map (\<lambda>t. t\<lparr>t_id := 0, t_state := TASK_ZOMBIE\<rparr>) (tasks s)"
    using assms fold_update_all [of 64 "tasks s" "\<lambda>t. t\<lparr>t_id := 0, t_state := TASK_ZOMBIE\<rparr>"]
    by (simp add: scheduler_init_def Let_def kprint_def)
  show "sched_inv (scheduler_init s)" unfolding sched_inv_def sched_ok_def t
    using assms by (simp add: scheduler_init_def Let_def kprint_def)
qed

lemma kprint_sched_frame [simp]:
  "tasks (kprint msg s) = tasks s" "task_count (kprint msg s) = task_count s"
  "current_task (kprint msg s) = current_task s" "cpu (kprint msg s) = cpu s"
  by (simp_all add: kprint_def)

text \<open>The stack of task \<open>id\<close> is the sixteen pages from page \<open>16 * id\<close> of the kernel heap.\<close>

lemma task_stack_top:
  assumes "unat (task_id :: u32) < 64"
  shows "(0xFFFF800000000000 :: u64) + ucast ((task_id + 1) * 0x10000) = heap_page (16 * (unat task_id + 1))"
proof -
  have "unat ((task_id + 1) * 0x10000) = (unat task_id + 1) * 0x10000"
    using assms by (simp add: unat_mult_small unat_add_small)
  then have "(ucast ((task_id + 1) * 0x10000) :: u64) = of_nat ((unat task_id + 1) * 0x10000)"
    by (metis of_nat_unat)
  also have "\<dots> = 4096 * of_nat (16 * (unat task_id + 1))" by simp
  finally show ?thesis by simp
qed

lemma pages_from_heap: "pages_from (heap_page k) n = map (\<lambda>i. heap_page (k + i)) [0..<n]"
  by (simp add: pages_from_def algebra_simps)

lemma task_stack_walk:
  assumes "j < 64" "i < 16"
  shows "walk_path (heap_page (16 * j + i)) = walk_path (heap_page (16 * j))"
  using assms(2)
proof (induction i)
  case (Suc i)
  have "Suc (16 * j + i) mod 512 mod 16 = (16 * j + Suc i) mod 16" by (simp add: mod_mod_cancel)
  also have "\<dots> = Suc i" using Suc.prems by simp
  finally have "Suc (16 * j + i) mod 512 \<noteq> 0" by (intro notI) simp
  then show ?case using Suc heap_page_walk [of "16 * j + i"] assms(1) by simp
qed simp

text \<open>A task that sleeps is not suspended when no other task is ready.\<close>

lemma sleep_alone_returns:
  assumes "task_count s = 1" "current_task s = 0" "length (tasks s) = 64"
  shows "\<exists>s'. scheduler_sleep n s = Some (Returned s') \<and> t_state (tasks s' ! 0) = TASK_SLEEPING"
  using assms by (simp add: scheduler_sleep_def scheduler_schedule_def Let_def)

definition stack_page :: "nat \<Rightarrow> nat \<Rightarrow> u64" where
  "stack_page k i = heap_page (16 * k + i)"

definition stack_pages :: "nat \<Rightarrow> u64 list" where
  "stack_pages k = map (stack_page k) [0..<16]"

lemma sched_inv_print [simp]: "sched_inv (kprint msg s) = sched_inv s"
  by (simp add: sched_inv_def sched_ok_def)

lemma add_task_eq:
  assumes "unat (task_count s) < 64"
  shows "scheduler_add_task ep s =
    Some (kprint ''\<newline>'' (kprint ''Task added. Task count: ''
      (s\<lparr>tasks := (tasks s)[unat (task_count s) := init_task (task_count s) ep (tasks s ! unat (task_count s))],
         vm := fold (map_stack_page 7) (stack_pages (unat (task_count s))) (vm s),
         task_count := task_count s + 1\<rparr>)))"
proof -
  let ?k = "unat (task_count s)"
  let ?t = "init_task (task_count s) ep (tasks s ! ?k)"
  have rsp: "t_rsp ?t = heap_page (16 * (?k + 1))"
    unfolding task_stack_top [OF assms, symmetric] by (simp add: init_task_def)
  have low: "t_rsp ?t - 0x10000 = heap_page (16 * ?k)" unfolding rsp by simp
  have e: "unat (heap_page (16 * ?k)) = 0xFFFF800000000000 + 4096 * (16 * ?k)"
    "unat (heap_page (16 * (?k + 1))) = 0xFFFF800000000000 + 4096 * (16 * (?k + 1))"
    by (rule unat_heap_page; use assms in simp)+
  have "unat (heap_page (16 * ?k)) + 4096 * 16 = unat (heap_page (16 * (?k + 1)))"
    unfolding e by (simp only: distrib_left mult_1_right add.assoc)
  note loop = map_stack_loop_eq [OF this, of 7 "vm s"]
  have "map_stack_loop 7 (t_rsp ?t - 0x10000) (t_rsp ?t) (vm s) =
      Some (fold (map_stack_page 7) (stack_pages ?k) (vm s))"
    unfolding low unfolding rsp loop pages_from_heap stack_pages_def stack_page_def ..
  then show ?thesis
    using assms by (simp add: scheduler_add_task_def Let_def word_le_nat_alt not_le)
qed

lemma add_task_inv:
  assumes "sched_inv s" and k: "unat (task_count s) < 64"
  shows "sched_inv (s\<lparr>tasks := (tasks s)[unat (task_count s) := init_task (task_count s) ep (tasks s ! unat (task_count s))],
    vm := v, task_count := task_count s + 1\<rparr>)"
proof -
  let ?k = "unat (task_count s)"
  let ?t = "init_task (task_count s) ep (tasks s ! ?k)"
  have cnt: "unat (task_count s + 1) = Suc ?k" using k by (simp add: unat_add_small)
  have "task_count s + 1 \<noteq> 0" using cnt by auto
  moreover have "current_task s < task_count s + 1"
    using assms(1) cnt by (auto simp: sched_inv_def sched_ok_def word_less_nat_alt split: if_splits)
  moreover have "task_ok i ((tasks s)[?k := ?t] ! i)" if "i < Suc ?k" for i
    using that assms(1) k
    by (cases "i = ?k") (auto simp: sched_inv_def sched_ok_def task_ok_def init_task_def)
  ultimately show ?thesis
    using assms(1) cnt k by (simp add: sched_inv_def sched_ok_def)
qed

lemma stack_pages_backed:
  assumes "pt_ok m" "k < 64" "frames_left 16 m" "table_room m (stack_page k 0)" "i < 16"
  shows "lookup_pte (fold (map_stack_page 7) (stack_pages k) m) (stack_page k i) =
    Some ((next_free_page m + 4096 * of_nat i) OR 7)"
proof -
  have "distinct (map vpage_of (stack_pages k))"
    unfolding stack_pages_def map_map distinct_map
  proof (intro conjI inj_onI)
    fix x y
    assume "x \<in> set [0..<16]" "y \<in> set [0..<16]" "(vpage_of \<circ> stack_page k) x = (vpage_of \<circ> stack_page k) y"
    then show "x = y" using heap_page_vpage [of "16 * k + x" "16 * k + y"] assms(2) unfolding stack_page_def o_def by force
  qed simp
  moreover have "\<forall>a\<in>set (stack_pages k). walk_path a = walk_path (stack_page k 0)"
    using task_stack_walk [OF assms(2)] unfolding stack_pages_def stack_page_def set_map by fastforce
  moreover have "hd (stack_pages k) = stack_page k 0" "length (stack_pages k) = 16" "stack_pages k ! i = stack_page k i"
    using assms(5) by (simp_all add: stack_pages_def hd_map)
  ultimately have "lookup_pte (fold (map_stack_page 7) (stack_pages k) m) (stack_page k i) =
      Some ((next_free_page m + 4096 * of_nat i) OR 7 OR PAGE_PRESENT)"
    using stack_run_backed [OF assms(1), of "stack_pages k" _ i 7] assms(3-5) by metis
  then show ?thesis by (simp add: or.assoc)
qed

text \<open>
  C30. \<open>scheduler_add_task\<close> refuses a sixty-fifth task; otherwise it returns with one more task,
  initialised in the next slot and ready, all other tasks untouched, well-formed page tables, and
  no translation changed outside the sixteen pages of the new stack, which are mapped to fresh
  frames whenever a page table for them exists or can be allocated.
\<close>

theorem scheduler_add_task_outcome:
  assumes "sched_inv s" "pt_ok (vm s)"
  shows "if task_count s \<ge> 64
    then scheduler_add_task ep s = Some (kprint ''ERROR: Maximum number of tasks reached!\<newline>'' s)
    else \<exists>s'. scheduler_add_task ep s = Some s' \<and> sched_inv s' \<and> pt_ok (vm s') \<and>
      task_count s' = task_count s + 1 \<and>
      tasks s' = (tasks s)[unat (task_count s) := init_task (task_count s) ep (tasks s ! unat (task_count s))] \<and>
      (\<forall>va. vpage_of va \<notin> vpage_of ` set (stack_pages (unat (task_count s))) \<longrightarrow>
         lookup_pte (vm s') va = lookup_pte (vm s) va) \<and>
      (frames_left 16 (vm s) \<and> table_room (vm s) (stack_page (unat (task_count s)) 0) \<longrightarrow>
         (\<forall>i<16. lookup_pte (vm s') (stack_page (unat (task_count s)) i) =
            Some ((next_free_page (vm s) + 4096 * of_nat i) OR 7)))"
proof (cases "task_count s \<ge> 64")
  case True
  then show ?thesis by (simp add: scheduler_add_task_def)
next
  case False
  let ?k = "unat (task_count s)"
  let ?v = "fold (map_stack_page 7) (stack_pages ?k) (vm s)"
  have k: "?k < 64" using False by (simp add: word_le_nat_alt)
  note inv = add_task_inv [OF assms(1) k, of ?v ep]
  note run = stack_run_ok [OF assms(2), of 7 "stack_pages ?k"]
  show ?thesis
    unfolding add_task_eq [OF k] using inv run stack_pages_backed [OF assms(2) k] False
    by simp
qed

theorem scheduler_add_task_outcome_witness:
  "\<exists>s'. scheduler_add_task 0x201000 sample_sched = Some s' \<and> task_count s' = 4 \<and>
     lookup_pte (vm s') (stack_page 3 5) = Some 0x205007"
proof -
  have fits: "frames_left 16 (vm sample_sched)" "table_room (vm sample_sched) (stack_page 3 0)"
    by (simp_all add: frames_left_def table_room_def sample_sched_simps sample_mm_def aligned_def)
  have ok: "pt_ok (vm sample_sched)" using sample_mm_ok(1) by (simp add: sample_sched_simps)
  obtain s' where s': "scheduler_add_task 0x201000 sample_sched = Some s'" "task_count s' = task_count sample_sched + 1"
    "\<forall>i<16. lookup_pte (vm s') (stack_page 3 i) = Some ((next_free_page (vm sample_sched) + 4096 * of_nat i) OR 7)"
    using scheduler_add_task_outcome [OF sample_sched_inv ok, of "0x201000"] fits by (auto simp: sample_sched_simps(1) word_le_nat_alt)
  then show ?thesis by (simp add: sample_sched_simps sample_mm_def)
qed

text \<open>
  C33. The stacks of the tasks lie in the kernel heap. With the 4 MB heap in place (as the first
  \<open>kmalloc\<close> leaves it), adding any task replaces the frames behind sixteen heap pages by new ones: the
  heap blocks stored there, and their contents, are no longer what the heap's addresses show.
\<close>

theorem task_stack_replaces_heap_pages:
  assumes "heap_backable v0" "heap_mapped v0 1024 (vm s)" "sched_inv s" "task_count s < 64"
    and "unat (next_free_page (vm s)) + 65536 < 2 ^ 64" "next_free_page (vm s) \<noteq> NULL" and "i < 16"
  shows "\<exists>s' f f'. scheduler_add_task ep s = Some s' \<and> f \<noteq> f' \<and> aligned f \<and> aligned f' \<and>
    lookup_pte (vm s) (0xFFFF800000000000 + 4096 * of_nat (16 * unat (task_count s) + i)) = Some (f OR 3) \<and>
    lookup_pte (vm s') (0xFFFF800000000000 + 4096 * of_nat (16 * unat (task_count s) + i)) = Some (f' OR 7)"
proof -
  let ?k = "unat (task_count s)" and ?nf = "next_free_page v0"
  have k: "?k < 64" using assms(4) by (simp add: word_less_nat_alt)
  have j: "16 * ?k + i < 1024" using k assms(7) by linarith
  have ok: "pt_ok (vm s)" and nf: "next_free_page (vm s) = ?nf + 4096 * of_nat 1024"
    and old: "lookup_pte (vm s) (heap_page (16 * ?k + i)) = Some ((?nf + 4096 * of_nat (16 * ?k + i)) OR 3)"
    "lookup_pte (vm s) (heap_page (16 * ?k)) \<noteq> None"
    using assms(2) j by (simp_all add: heap_mapped_def del: of_nat_add of_nat_mult)
  have al0: "aligned ?nf" using assms(1) by (simp add: heap_backable_def)
  have al: "aligned (?nf + 4096 * of_nat n)" for n
  proof -
    have "4096 * of_nat n = (push_bit 12 (of_nat n) :: u64)" by (simp add: push_bit_eq_mult mult.commute)
    then have "aligned (4096 * of_nat n)" by (simp only: aligned_iff_bits) (simp add: bit_simps)
    then show ?thesis using al0 aligned_add by blast
  qed
  have fl: "frames_left 16 (vm s)" using assms(5,6) al [of 1024] unfolding nf by (simp add: frames_left_def nf)
  have "table_room (vm s) (stack_page ?k 0)"
    using old(2) find_pt_lookup unfolding table_room_def stack_page_def by fastforce
  then obtain s' where s': "scheduler_add_task ep s = Some s'"
    "lookup_pte (vm s') (stack_page ?k i) = Some ((next_free_page (vm s) + 4096 * of_nat i) OR 7)"
    using scheduler_add_task_outcome [OF assms(3) ok, of ep] fl assms(4,7) by (auto simp: not_le [symmetric])
  have f': "next_free_page (vm s) + 4096 * of_nat i = ?nf + 4096 * of_nat (1024 + i)"
    unfolding nf by (simp add: algebra_simps)
  have "?nf + 4096 * of_nat (16 * ?k + i) \<noteq> ?nf + 4096 * of_nat (1024 + i)"
  proof
    assume "?nf + 4096 * of_nat (16 * ?k + i) = ?nf + 4096 * of_nat (1024 + i)"
    then have "(of_nat (4096 * (16 * ?k + i)) :: u64) = of_nat (4096 * (1024 + i))"
      by (simp only: add_left_cancel of_nat_mult of_nat_numeral)
    then have "4096 * (16 * ?k + i) = 4096 * (1024 + i)"
      using j assms(7) by (subst (asm) of_nat_u64_inj) simp_all
    then show False using j by simp
  qed
  then show ?thesis using s' old(1) al unfolding f' stack_page_def by blast
qed

theorem task_stack_replaces_heap_pages_witness:
  "\<exists>(s :: ksched) s' f f'. heap_mapped sample_mm 1024 (vm s) \<and> scheduler_add_task 0x201000 s = Some s' \<and> f \<noteq> f' \<and>
     lookup_pte (vm s) (0xFFFF800000000000 + 4096 * of_nat 48) = Some (f OR 3) \<and>
     lookup_pte (vm s') (0xFFFF800000000000 + 4096 * of_nat 48) = Some (f' OR 7)"
proof -
  have b: "heap_backable sample_mm"
    using sample_mm_ok(1) by (simp add: heap_backable_def sample_mm_def aligned_def)
  have vm0: "vm sample_kmem = sample_mm" by (simp add: sample_kmem_def kkbd.defs)
  obtain s1 where "heap_init sample_kmem = Some (True, s1)" "heap_ok s1 [(0x400000 - 24, True)]"
    and m: "heap_mapped sample_mm 1024 (vm s1)" "heap_base s1 = 0xFFFF800000000000"
    by (rule heap_init_ok [of sample_kmem, unfolded vm0, OF b])
  let ?s = "sample_sched\<lparr>vm := vm s1\<rparr>"
  have "next_free_page (vm s1) = 0x600000" using m(1) by (simp add: heap_mapped_def sample_mm_def)
  moreover have "sched_inv ?s" using sample_sched_inv by (simp add: sched_inv_def sched_ok_def)
  ultimately obtain s' f f' where "scheduler_add_task 0x201000 ?s = Some s'" "f \<noteq> f'"
    "lookup_pte (vm s1) (0xFFFF800000000000 + 4096 * of_nat (16 * unat (task_count ?s) + 0)) = Some (f OR 3)"
    "lookup_pte (vm s') (0xFFFF800000000000 + 4096 * of_nat (16 * unat (task_count ?s) + 0)) = Some (f' OR 7)"
    using task_stack_replaces_heap_pages [of sample_mm ?s 0 "0x201000"] b m(1) by (auto simp: sample_sched_simps(1))
  then show ?thesis using m(1) by (intro exI [of _ ?s] exI [of _ s'] exI [of _ f] exI [of _ f'])
    (simp add: sample_sched_simps(1))
qed

end
