(* ===== verification/Timer.thy ===== *)
theory Timer
  imports Scheduler
begin

text \<open>
  The tick counter and the timer devices of \<open>kernel/timer.c\<close>: the timer interrupt that drives the
  scheduler, the busy-waiting \<open>sleep\<close>, and the programming of the PIT and of the local APIC timer.
\<close>

section \<open>State and operations\<close>

abbreviation TIMER_FREQUENCY :: u32 where "TIMER_FREQUENCY \<equiv> 100"
abbreviation PIT_FREQUENCY :: u32 where "PIT_FREQUENCY \<equiv> 1193182"
abbreviation PIT_CHANNEL0_DATA :: u16 where "PIT_CHANNEL0_DATA \<equiv> 0x40"
abbreviation PIT_COMMAND :: u16 where "PIT_COMMAND \<equiv> 0x43"

record ktimer = ksched +
  tick_count :: u32

definition get_tick_count :: "'a ktimer_scheme \<Rightarrow> u32" where
  "get_tick_count s = tick_count s"

text \<open>
  \<open>hlt\<close> stops the processor until an interrupt has been served; what happens meanwhile is the
  parameter \<open>halt\<close>, \<open>None\<close> when no interrupt comes.
\<close>

partial_function (option) sleep_loop ::
  "('a ktimer_scheme \<Rightarrow> 'a ktimer_scheme option) \<Rightarrow> u32 \<Rightarrow> u32 \<Rightarrow> 'a ktimer_scheme \<Rightarrow> 'a ktimer_scheme option" where
  "sleep_loop halt start n s =
     (if get_tick_count s - start < n then
        (case halt s of None \<Rightarrow> None | Some s1 \<Rightarrow> sleep_loop halt start n s1)
      else Some s)"

definition sleep :: "('a ktimer_scheme \<Rightarrow> 'a ktimer_scheme option) \<Rightarrow> u32 \<Rightarrow> 'a ktimer_scheme \<Rightarrow> 'a ktimer_scheme option" where
  "sleep halt milliseconds s =
     (let start = get_tick_count s; n = milliseconds div (1000 div TIMER_FREQUENCY) in sleep_loop halt start n s)"

definition timer_callback :: "'a ktimer_scheme \<Rightarrow> 'a ktimer_scheme outcome option" where
  "timer_callback s =
     (let s1 = s\<lparr>tick_count := tick_count s + 1\<rparr>
      in case (if tick_count s1 mod 5 = 0 then scheduler_schedule s1 else Some (Returned s1)) of
           None \<Rightarrow> None
         | Some r \<Rightarrow> Some (and_then r apic_eoi))"

definition pit_init :: "'a kio_scheme \<Rightarrow> 'a kio_scheme" where
  "pit_init s =
     (let s1 = kprint ''Initializing PIT...\<newline>'' s;
          divisor = PIT_FREQUENCY div TIMER_FREQUENCY;
          s2 = koutb PIT_COMMAND 0x36 s1;
          s3 = koutb PIT_CHANNEL0_DATA (ucast (divisor AND 0xFF)) s2;
          s4 = koutb PIT_CHANNEL0_DATA (ucast (drop_bit 8 divisor AND 0xFF)) s3
      in kprint ''PIT initialized.\<newline>'' s4)"

definition apic_timer_init :: "'a kapic_scheme \<Rightarrow> 'a kapic_scheme" where
  "apic_timer_init s =
     (let s1 = kprint ''Initializing APIC timer...\<newline>'' s;
          divisor = 1000000;
          s2 = apic_write APIC_TIMER_INITIAL divisor s1;
          s3 = apic_write APIC_TIMER_DIVIDE 0x03 s2;
          s4 = apic_write APIC_LVT_TIMER (32 OR 0x20000) s3
      in kprint ''APIC timer initialized.\<newline>'' s4)"

definition timer_init :: "'a kapic_scheme \<Rightarrow> 'a kapic_scheme" where
  "timer_init s =
     (let s1 = kprint ''Initializing timer...\<newline>'' s;
          s2 = pit_init s1;
          s3 = apic_timer_init s2
      in kprint ''Timer initialization complete.\<newline>'' s3)"

section \<open>The timer interrupt\<close>

text \<open>A scheduling decision changes the tasks, the current task and the registers, nothing else.\<close>

lemma schedule_only:
  assumes "sched_inv s" "scheduler_schedule s = Some r"
  obtains ts j c where "final_state r = s\<lparr>tasks := ts, current_task := j, cpu := c\<rparr>"
proof (cases "1 < task_count s")
  case False
  then show thesis using assms(2) that [where ts = "tasks s" and j = "current_task s" and c = "cpu s"] by (auto simp: scheduler_schedule_def not_less)
next
  case True
  have ok: "sched_ok s" using assms(1) by (simp add: sched_inv_def)
  have "\<exists>ts j c. scheduled s = s\<lparr>tasks := ts, current_task := j, cpu := c\<rparr>"
    by (intro exI [of _ "tasks (scheduled s)"] exI [of _ "current_task (scheduled s)"] exI [of _ "cpu s"])
      (simp add: scheduled_def)
  moreover have "\<exists>ts j c. switch_tasks k (scheduled s) = s\<lparr>tasks := ts, current_task := j, cpu := c\<rparr>" for k
    by (intro exI [of _ "tasks (switch_tasks k (scheduled s))"] exI [of _ "current_task (scheduled s)"]
        exI [of _ "cpu (switch_tasks k (scheduled s))"])
      (simp add: scheduled_def switch_tasks_def Let_def split_beta)
  moreover have "final_state r = scheduled s \<or> final_state r = switch_tasks (current_task s) (scheduled s)"
    using assms(2) unfolding scheduler_schedule_eq [OF ok True] by (auto split: if_splits)
  ultimately show thesis using that by metis
qed

lemma tick_irrelevant [simp]:
  "picks (s\<lparr>tick_count := n\<rparr>) = picks s" "sched_inv (s\<lparr>tick_count := n\<rparr>) = sched_inv s"
  by (simp_all add: picks_def sched_inv_def sched_ok_def)

lemma apic_eoi_frame [simp]:
  "tick_count (apic_eoi s) = tick_count s" "sched_inv (apic_eoi s') = sched_inv s'"
  "current_task (apic_eoi s') = current_task s'"
  "dev_log (apic_eoi s'') = MmioWrite (lapic_base s'' + 0xB0) 0 # dev_log s''"
  by (simp_all add: apic_eoi_def apic_write_def kmmio_write_def mmio_write_def sched_inv_def sched_ok_def)

lemma timer_callback_eq:
  assumes "sched_inv s"
  obtains r where "timer_callback s = Some r" "tick_count (final_state r) = tick_count s + 1" "sched_inv (final_state r)"
    "unat (current_task (final_state r)) = (if (tick_count s + 1) mod 5 = 0 then picks s else unat (current_task s))"
    "if unat (current_task (final_state r)) = unat (current_task s)
     then r = Returned (final_state r) \<and> dev_log (final_state r) = MmioWrite (lapic_base s + 0xB0) 0 # dev_log s
     else r = Switched (final_state r) \<and> dev_log (final_state r) = dev_log s"
proof (cases "(tick_count s + 1) mod 5 = 0")
  case False
  let ?s1 = "s\<lparr>tick_count := tick_count s + 1\<rparr>"
  have "timer_callback s = Some (Returned (apic_eoi ?s1))" using False by (simp add: timer_callback_def Let_def)
  then show thesis using False assms by (intro that [of "Returned (apic_eoi ?s1)"]) simp_all
next
  case True
  let ?s1 = "s\<lparr>tick_count := tick_count s + 1\<rparr>"
  have inv: "sched_inv ?s1" using assms by simp
  obtain s' where s': "scheduler_schedule ?s1 = Some ((if picks ?s1 = unat (current_task ?s1) then Returned else Switched) s')"
    "sched_inv s'" "task_count s' = task_count ?s1" "unat (current_task s') = picks ?s1"
    "\<And>i. i < 64 \<Longrightarrow> sched_view (tasks s' ! i) =
       sched_view (if 1 < task_count ?s1 \<and> i \<in> set (passed ?s1) then tick_task (tasks ?s1 ! i) else tasks ?s1 ! i)"
    by (rule schedule_outcome [OF inv]) blast
  obtain ts j c where "s' = ?s1\<lparr>tasks := ts, current_task := j, cpu := c\<rparr>"
    using schedule_only [OF inv s'(1)] unfolding final_state_if by blast
  then have fr: "tick_count s' = tick_count s + 1" "io s' = io s" "lapic_base s' = lapic_base s" by simp_all
  have run: "timer_callback s = Some (and_then ((if picks s = unat (current_task s) then Returned else Switched) s') apic_eoi)"
    using True s'(1) by (simp add: timer_callback_def Let_def)
  show thesis
  proof (cases "picks s = unat (current_task s)")
    case same: True
    then show thesis using run s'(2,4) fr True by (intro that [of "Returned (apic_eoi s')"]) simp_all
  next
    case False
    then show thesis using run s'(2,4) fr True by (intro that [of "Switched s'"]) simp_all
  qed
qed

section \<open>Waiting\<close>

lemma sleep_loop_returns:
  assumes "\<And>s. P s \<Longrightarrow> \<exists>s'. halt s = Some s' \<and> P s' \<and> tick_count s' = tick_count s + 1"
    and "P s" "unat (tick_count s - start) + d = unat n"
  shows "\<exists>s'. sleep_loop halt start n s = Some s' \<and> P s' \<and> tick_count s' = start + n"
  using assms(2,3)
proof (induction d arbitrary: s)
  case 0
  then have eq: "tick_count s - start = n" by (simp add: word_unat_eq_iff)
  then have "sleep_loop halt start n s = Some s" by (subst sleep_loop.simps) (simp add: get_tick_count_def)
  then show ?case using 0(1) eq by (auto simp: algebra_simps)
next
  case (Suc d)
  obtain s1 where s1: "halt s = Some s1" "P s1" "tick_count s1 = tick_count s + 1" using assms(1) Suc.prems(1) by blast
  have lt: "tick_count s - start < n" using Suc.prems(2) by (simp add: word_less_nat_alt)
  have "unat (tick_count s1 - start) = unat (tick_count s - start) + 1"
  proof -
    have "tick_count s1 - start = (tick_count s - start) + 1" by (simp add: s1(3))
    moreover have "unat (tick_count s - start) + 1 < 2 ^ 32"
      using Suc.prems(2) unsigned_less [of n, where 'a = nat] by simp
    ultimately show ?thesis by (simp only:) (subst unat_add_small, simp_all)
  qed
  then have "unat (tick_count s1 - start) + d = unat n" using Suc.prems(2) by simp
  from Suc.IH [OF s1(2) this] show ?case
    using lt s1(1) by (subst sleep_loop.simps) (simp add: get_tick_count_def)
qed

section \<open>Properties\<close>

definition sample_timer :: ktimer where
  "sample_timer = ksched.extend sample_sched \<lparr>tick_count = 0xFFFFFFFE\<rparr>"

lemma sample_timer_inv: "sched_inv sample_timer"
  using sample_sched_inv by (simp add: sample_timer_def ksched.defs sched_inv_def sched_ok_def)

text \<open>
  C11. The timer interrupt. Every call counts one tick (modulo 2 to the 32); on every fifth tick
  it runs the scheduler. When the current task stays, the interrupt is acknowledged to
  the local APIC and the call returns; when another task is chosen, control leaves for
  that task before the acknowledgement has been sent.
\<close>

theorem timer_callback_outcome:
  assumes "sched_inv s"
  shows "\<exists>r. timer_callback s = Some r \<and> tick_count (final_state r) = tick_count s + 1 \<and> sched_inv (final_state r) \<and>
    unat (current_task (final_state r)) = (if (tick_count s + 1) mod 5 = 0 then picks s else unat (current_task s)) \<and>
    (if unat (current_task (final_state r)) = unat (current_task s)
     then r = Returned (final_state r) \<and> dev_log (final_state r) = MmioWrite (lapic_base s + 0xB0) 0 # dev_log s
     else r = Switched (final_state r) \<and> dev_log (final_state r) = dev_log s)"
  using assms by (rule timer_callback_eq) blast

theorem timer_callback_outcome_witness:
  "\<exists>r. timer_callback (sample_timer\<lparr>tick_count := 4\<rparr>) = Some r \<and> unat (current_task (final_state r)) = 2 \<and>
     r = Switched (final_state r)"
proof -
  have "picks (sample_timer\<lparr>tick_count := 4\<rparr>) = picks sample_sched"
    by (simp add: picks_def sample_timer_def ksched.defs)
  then have p: "picks (sample_timer\<lparr>tick_count := 4\<rparr>) = 2" "current_task sample_timer = 0"
    using sample_picks(1) sample_sched_simps(2) by (simp_all add: sample_timer_def ksched.defs)
  have "sched_inv (sample_timer\<lparr>tick_count := 4\<rparr>)" using sample_timer_inv by simp
  from timer_callback_outcome [OF this] show ?thesis using p by (auto split: if_splits)
qed

text \<open>
  C32. \<open>sleep\<close> waits for the right number of ticks also when the counter wraps around: if every
  \<open>hlt\<close> ends with one served timer interrupt, \<open>sleep (ms)\<close> returns, and exactly \<open>ms / 10\<close> ticks
  have passed.
\<close>

theorem sleep_waits:
  assumes "\<And>s. P s \<Longrightarrow> \<exists>s'. halt s = Some s' \<and> P s' \<and> tick_count s' = tick_count s + 1" and "P s"
  shows "\<exists>s'. sleep halt ms s = Some s' \<and> P s' \<and> tick_count s' = tick_count s + ms div 10"
  using sleep_loop_returns [OF assms, of "tick_count s" "unat (ms div 10)" "ms div 10"]
  by (simp add: sleep_def get_tick_count_def Let_def)

theorem sleep_waits_witness:
  "\<exists>s'. sleep (\<lambda>s. map_option final_state (timer_callback s)) 70 sample_timer = Some s' \<and> tick_count s' = 5"
proof -
  let ?halt = "\<lambda>s :: ktimer. map_option final_state (timer_callback s)"
  have "\<exists>s'. ?halt s = Some s' \<and> sched_inv s' \<and> tick_count s' = tick_count s + 1" if "sched_inv s" for s
    using that by (rule timer_callback_eq) simp
  from sleep_waits [where P = sched_inv and halt = ?halt, OF this sample_timer_inv, of 70]
  show ?thesis by (auto simp: sample_timer_def ksched.defs)
qed

text \<open>
  \<open>timer_init\<close> programs channel 0 of the PIT with the two bytes of 1193182 / 100 in mode 3,
  and the local APIC timer for periodic interrupts on vector 32, with exactly these accesses.
\<close>

theorem timer_init_programs:
  "dev_log (timer_init s) =
    [MmioWrite (lapic_base s + 0x320) 0x20020, MmioWrite (lapic_base s + 0x3E0) 3,
     MmioWrite (lapic_base s + 0x380) 1000000,
     OutB 0x40 (of_nat (1193182 div 100 div 256)), OutB 0x40 (of_nat (1193182 div 100 mod 256)), OutB 0x43 0x36] @
    dev_log s"
  by (simp add: timer_init_def pit_init_def apic_timer_init_def apic_write_def koutb_def kmmio_write_def
      outb_def mmio_write_def Let_def)

end
