(* ===== verification/Interrupt.thy ===== *)
theory Interrupt
  imports Timer
begin

text \<open>
  Interrupts: the descriptor table, the legacy interrupt controller and the C handlers of
  \<open>kernel/interrupt.c\<close> and \<open>kernel/interrupt.h\<close>, and the choice of the handler by the stubs in
  \<open>kernel/interrupts.asm\<close> and \<open>kernel/apic_isr_stubs.asm\<close>.
\<close>

section \<open>State and operations\<close>

record idt_entry =
  offset_low :: u16
  selector :: u16
  ist :: u8
  type_attr :: u8
  offset_mid :: u16
  offset_high :: u32
  reserved :: u32

record idt_ptr =
  limit :: u16
  base :: u64

text \<open>\<open>struct registers\<close>: what the stubs and the processor leave on the stack.\<close>

record registers =
  i_r15 :: u64
  i_r14 :: u64
  i_r13 :: u64
  i_r12 :: u64
  i_r11 :: u64
  i_r10 :: u64
  i_r9 :: u64
  i_r8 :: u64
  i_rbp :: u64
  i_rdi :: u64
  i_rsi :: u64
  i_rdx :: u64
  i_rcx :: u64
  i_rbx :: u64
  i_rax :: u64
  int_no :: u64
  err_code :: u64
  i_rip :: u64
  i_cs :: u64
  i_rflags :: u64
  i_useresp :: u64
  i_ss :: u64

text \<open>
  \<open>idt_addr\<close> is the address of \<open>idt\<close> and \<open>isr_addr n\<close> that of the stub for vector \<open>n\<close> (\<open>isr0\<close> to
  \<open>isr31\<close> and \<open>apic_isr32\<close> to \<open>apic_isr47\<close>), as the linker places them; \<open>idtr\<close> is the register that
  \<open>lidt\<close> loads and \<open>int_flag\<close> the flag that \<open>sti\<close> sets.
\<close>

record kidt = ktimer +
  idt :: "idt_entry list"
  idtp :: idt_ptr
  idtr :: idt_ptr
  int_flag :: bool
  idt_addr :: u64
  isr_addr :: "nat \<Rightarrow> u64"

abbreviation PIC1_COMMAND :: u16 where "PIC1_COMMAND \<equiv> 0x20"
abbreviation PIC1_DATA :: u16 where "PIC1_DATA \<equiv> 0x21"
abbreviation PIC2_COMMAND :: u16 where "PIC2_COMMAND \<equiv> 0xA0"
abbreviation PIC2_DATA :: u16 where "PIC2_DATA \<equiv> 0xA1"

definition exception_messages :: "string list" where
  "exception_messages =
     [''Division By Zero'', ''Debug'', ''Non-Maskable Interrupt'', ''Breakpoint'', ''Overflow'',
      ''Bound Range Exceeded'', ''Invalid Opcode'', ''Device Not Available'', ''Double Fault'',
      ''Coprocessor Segment Overrun'', ''Invalid TSS'', ''Segment Not Present'', ''Stack Fault'',
      ''General Protection Fault'', ''Page Fault'', ''Reserved'', ''x87 Floating Point Exception'',
      ''Alignment Check'', ''Machine Check'', ''SIMD Floating Point Exception'',
      ''Virtualization Exception'', ''Reserved'', ''Reserved'', ''Reserved'', ''Reserved'', ''Reserved'',
      ''Reserved'', ''Reserved'', ''Reserved'', ''Reserved'', ''Reserved'', ''Reserved'']"

definition setup_pic :: "'a kio_scheme \<Rightarrow> 'a kio_scheme" where
  "setup_pic s =
     (let (mask1, s1) = kinb PIC1_DATA s;
          (mask2, s2) = kinb PIC2_DATA s1
      in fold (\<lambda>(port, v). koutb port v)
           [(PIC1_COMMAND, 0x11), (PIC2_COMMAND, 0x11), (PIC1_DATA, 0x20), (PIC2_DATA, 0x28),
            (PIC1_DATA, 0x04), (PIC2_DATA, 0x02), (PIC1_DATA, 0x01), (PIC2_DATA, 0x01),
            (PIC1_DATA, mask1), (PIC2_DATA, mask2), (PIC1_DATA, 0xFF), (PIC2_DATA, 0xFF)] s2)"

definition idt_set_gate :: "u8 \<Rightarrow> u64 \<Rightarrow> u16 \<Rightarrow> u8 \<Rightarrow> 'a kidt_scheme \<Rightarrow> 'a kidt_scheme" where
  "idt_set_gate num addr sel flags s =
     s\<lparr>idt := (idt s)[unat num :=
          \<lparr>offset_low = ucast (addr AND 0xFFFF), selector = sel, ist = 0, type_attr = flags,
           offset_mid = ucast (drop_bit 16 addr AND 0xFFFF),
           offset_high = ucast (drop_bit 32 addr AND 0xFFFFFFFF), reserved = 0\<rparr>]\<rparr>"

text \<open>
  The calls of \<open>setup_idt\<close> in their order: all 256 gates cleared, then the 32 exception stubs,
  then the 16 stubs of the external interrupts.
\<close>

definition setup_idt :: "'a kidt_scheme \<Rightarrow> 'a kidt_scheme" where
  "setup_idt s =
     (let s1 = s\<lparr>idtp := \<lparr>limit = 16 * 256 - 1, base = idt_addr s\<rparr>\<rparr>;
          s2 = fold (\<lambda>i. idt_set_gate (of_nat i) 0 0 0) [0..<256] s1;
          s3 = fold (\<lambda>i. idt_set_gate (of_nat i) (isr_addr s i) 0x08 0x8E) [0..<32] s2;
          s4 = fold (\<lambda>i. idt_set_gate (of_nat i) (isr_addr s i) 0x08 0x8E) [32..<48] s3
      in s4\<lparr>idtr := idtp s4\<rparr>)"

definition isr_handler :: "registers \<Rightarrow> 'a kio_scheme \<Rightarrow> 'a kio_scheme outcome" where
  "isr_handler regs s =
     (if int_no regs < 32 then
        (let s1 = fold kprint [''Exception: '', exception_messages ! unat (int_no regs), ''\<newline>System Halted!\<newline>''] s;
             s2 = (if err_code regs \<noteq> 0 then kprint ''\<newline>'' (kprint ''Error code: 0x'' s1) else s1)
         in Halted s2)
      else Returned s)"

definition apic_isr_handler :: "registers \<Rightarrow> 'a ktimer_scheme \<Rightarrow> 'a ktimer_scheme outcome option" where
  "apic_isr_handler regs s =
     (if int_no regs = 32 then timer_callback s
      else if int_no regs \<ge> 32 then Some (Returned (apic_eoi s))
      else Some (isr_handler regs s))"

definition enable_interrupts :: "'a kidt_scheme \<Rightarrow> 'a kidt_scheme" where
  "enable_interrupts s = s\<lparr>int_flag := True\<rparr>"

definition idt_init :: "'a kidt_scheme \<Rightarrow> 'a kidt_scheme" where
  "idt_init s =
     (let s1 = setup_idt s;
          s2 = setup_pic s1;
          s3 = apic_init s2
      in enable_interrupts s3)"

text \<open>The C function that the stub of a vector calls.\<close>

definition run_stub :: "nat \<Rightarrow> registers \<Rightarrow> 'a ktimer_scheme \<Rightarrow> 'a ktimer_scheme outcome option" where
  "run_stub n regs s =
     (if n < 32 then Some (isr_handler (regs\<lparr>int_no := of_nat n\<rparr>) s)
      else if n = 32 then timer_callback s
      else if n = 33 then Some (Returned (keyboard_handler s))
      else apic_isr_handler (regs\<lparr>int_no := of_nat n\<rparr>) s)"

section \<open>Gates\<close>

definition gate :: "u64 \<Rightarrow> u16 \<Rightarrow> u8 \<Rightarrow> idt_entry" where
  "gate addr sel flags =
     \<lparr>offset_low = ucast (addr AND 0xFFFF), selector = sel, ist = 0, type_attr = flags,
      offset_mid = ucast (drop_bit 16 addr AND 0xFFFF),
      offset_high = ucast (drop_bit 32 addr AND 0xFFFFFFFF), reserved = 0\<rparr>"

text \<open>The handler address as the processor reads it from a gate.\<close>

definition gate_offset :: "idt_entry \<Rightarrow> u64" where
  "gate_offset e =
     ucast (offset_low e) OR push_bit 16 (ucast (offset_mid e)) OR push_bit 32 (ucast (offset_high e))"

lemma gate_offset_gate: "gate_offset (gate addr sel flags) = addr"
proof (rule bit_word_eqI)
  fix n
  assume "n < LENGTH(64)"
  have m: "(0xFFFF :: u64) = mask 16" "(0xFFFFFFFF :: u64) = mask 32" by (simp_all add: mask_eq_exp_minus_1)
  show "bit (gate_offset (gate addr sel flags)) n = bit addr n"
    using \<open>n < LENGTH(64)\<close> unfolding gate_offset_def gate_def m
    by (cases "n < 16"; cases "n < 32") (auto simp: bit_simps)
qed

lemma set_gate_eq: "idt_set_gate num addr sel flags s = s\<lparr>idt := (idt s)[unat num := gate addr sel flags]\<rparr>"
  by (simp add: idt_set_gate_def gate_def)

definition present :: "idt_entry \<Rightarrow> bool" where
  "present e \<longleftrightarrow> bit (type_attr e) 7"

lemma set_gates:
  assumes "b \<le> 256" "length (idt s) = 256"
  shows "\<exists>t. fold (\<lambda>i. idt_set_gate (of_nat i) (f i) sel fl) [a..<b] s = s\<lparr>idt := t\<rparr> \<and> length t = 256 \<and>
    (\<forall>v<256. t ! v = (if a \<le> v \<and> v < b then gate (f v) sel fl else idt s ! v))"
  using assms(1)
proof (induction b)
  case 0
  then show ?case using assms(2) by (intro exI [of _ "idt s"]) simp
next
  case (Suc b)
  then obtain t where t: "fold (\<lambda>i. idt_set_gate (of_nat i) (f i) sel fl) [a..<b] s = s\<lparr>idt := t\<rparr>" "length t = 256"
    "\<forall>v<256. t ! v = (if a \<le> v \<and> v < b then gate (f v) sel fl else idt s ! v)"
    by auto
  have u: "unat (of_nat b :: u8) = b" using Suc.prems by (intro unat_of_nat_small) simp
  show ?case
  proof (cases "a \<le> b")
    case True
    have "fold (\<lambda>i. idt_set_gate (of_nat i) (f i) sel fl) [a..<Suc b] s = idt_set_gate (of_nat b) (f b) sel fl (s\<lparr>idt := t\<rparr>)"
      using t(1) True by simp
    also have "\<dots> = s\<lparr>idt := t[b := gate (f b) sel fl]\<rparr>" by (simp add: set_gate_eq u)
    finally show ?thesis using t(2,3) True Suc.prems
      by (intro exI [of _ "t[b := gate (f b) sel fl]"]) (auto simp: nth_list_update)
  next
    case False
    then show ?thesis using assms(2) by (intro exI [of _ "idt s"]) auto
  qed
qed

lemma setup_idt_table:
  assumes "length (idt s) = 256"
  obtains t where "setup_idt s = s\<lparr>idt := t, idtp := \<lparr>limit = 0xFFF, base = idt_addr s\<rparr>,
      idtr := \<lparr>limit = 0xFFF, base = idt_addr s\<rparr>\<rparr>" "length t = 256"
    "\<forall>v<48. t ! v = gate (isr_addr s v) 0x08 0x8E" "\<forall>v. 48 \<le> v \<and> v < 256 \<longrightarrow> t ! v = gate 0 0 0"
proof -
  let ?s1 = "s\<lparr>idtp := \<lparr>limit = 16 * 256 - 1, base = idt_addr s\<rparr>\<rparr>"
  obtain t1 where t1: "fold (\<lambda>i. idt_set_gate (of_nat i) 0 0 0) [0..<256] ?s1 = ?s1\<lparr>idt := t1\<rparr>" "length t1 = 256"
    "\<forall>v<256. t1 ! v = gate 0 0 0"
    using set_gates [of 256 ?s1 "\<lambda>_. 0" 0 0 0] assms by auto
  obtain t2 where t2: "fold (\<lambda>i. idt_set_gate (of_nat i) (isr_addr s i) 0x08 0x8E) [0..<32] (?s1\<lparr>idt := t1\<rparr>) = ?s1\<lparr>idt := t2\<rparr>"
    "length t2 = 256" "\<forall>v<256. t2 ! v = (if v < 32 then gate (isr_addr s v) 0x08 0x8E else t1 ! v)"
    using set_gates [of 32 "?s1\<lparr>idt := t1\<rparr>" "isr_addr s" "0x08" "0x8E" 0] t1(2) by auto
  obtain t3 where t3: "fold (\<lambda>i. idt_set_gate (of_nat i) (isr_addr s i) 0x08 0x8E) [32..<48] (?s1\<lparr>idt := t2\<rparr>) = ?s1\<lparr>idt := t3\<rparr>"
    "length t3 = 256" "\<forall>v<256. t3 ! v = (if 32 \<le> v \<and> v < 48 then gate (isr_addr s v) 0x08 0x8E else t2 ! v)"
    using set_gates [of 48 "?s1\<lparr>idt := t2\<rparr>" "isr_addr s" "0x08" "0x8E" 32] t2(2) by auto
  show thesis
  proof (rule that [of t3])
    show "setup_idt s = s\<lparr>idt := t3, idtp := \<lparr>limit = 0xFFF, base = idt_addr s\<rparr>,
      idtr := \<lparr>limit = 0xFFF, base = idt_addr s\<rparr>\<rparr>"
      using t1(1) t2(1) t3(1) by (simp add: setup_idt_def Let_def)
    show "\<forall>v<48. t3 ! v = gate (isr_addr s v) 0x08 0x8E" using t2(3) t3(3) by auto
    show "\<forall>v. 48 \<le> v \<and> v < 256 \<longrightarrow> t3 ! v = gate 0 0 0" using t1(3) t2(3) t3(3) by auto
  qed (rule t3(2))
qed

section \<open>The legacy interrupt controllers\<close>

text \<open>
  One 8259 controller: a write with bit 4 set to its command port starts the initialisation,
  which takes the vector base, the cascade lines and the mode from the next three writes to the data
  port; afterwards writes to the data port set the interrupt mask.
\<close>

datatype pic_stage = Operating | AwaitVector | AwaitCascade | AwaitMode

record pic =
  stage :: pic_stage
  vector_base :: u8
  cascade :: u8
  mode :: u8
  int_mask :: u8

fun pic_data :: "u8 \<Rightarrow> pic \<Rightarrow> pic" where
  "pic_data v p =
     (case stage p of
        AwaitVector \<Rightarrow> p\<lparr>vector_base := v, stage := AwaitCascade\<rparr>
      | AwaitCascade \<Rightarrow> p\<lparr>cascade := v, stage := AwaitMode\<rparr>
      | AwaitMode \<Rightarrow> p\<lparr>mode := v, stage := Operating\<rparr>
      | Operating \<Rightarrow> p\<lparr>int_mask := v\<rparr>)"

definition pic_command :: "u8 \<Rightarrow> pic \<Rightarrow> pic" where
  "pic_command v p = (if bit v 4 then p\<lparr>stage := AwaitVector, int_mask := 0\<rparr> else p)"

text \<open>The controller with its command port at \<open>cmd\<close>, after a history (newest access first).\<close>

fun pic_state :: "u16 \<Rightarrow> pic \<Rightarrow> io_op list \<Rightarrow> pic" where
  "pic_state cmd p [] = p"
| "pic_state cmd p (OutB port v # l) =
     (if port = cmd then pic_command v (pic_state cmd p l)
      else if port = cmd + 1 then pic_data v (pic_state cmd p l) else pic_state cmd p l)"
| "pic_state cmd p (_ # l) = pic_state cmd p l"

lemma setup_pic_log:
  "\<exists>m1 m2. dev_log (setup_pic s) =
    [OutB 0xA1 0xFF, OutB 0x21 0xFF, OutB 0xA1 m2, OutB 0x21 m1, OutB 0xA1 1, OutB 0x21 1, OutB 0xA1 2, OutB 0x21 4,
     OutB 0xA1 0x28, OutB 0x21 0x20, OutB 0xA0 0x11, OutB 0x20 0x11, InB 0xA1, InB 0x21] @ dev_log s"
  by (simp add: setup_pic_def kinb_def koutb_def inb_def outb_def Let_def split_beta)

lemma setup_pic_only: "\<exists>c. setup_pic s = s\<lparr>io := c\<rparr> \<and> mmio_env c = mmio_env (io s)"
  by (simp add: setup_pic_def kinb_def koutb_def inb_def outb_def Let_def split_beta) (rule exI, rule conjI, rule refl, simp)

abbreviation remapped :: "u8 \<Rightarrow> u8 \<Rightarrow> pic" where
  "remapped v c \<equiv> \<lparr>stage = Operating, vector_base = v, cascade = c, mode = 1, int_mask = 0xFF\<rparr>"

lemma setup_pic_state:
  "pic_state 0x20 p (dev_log (setup_pic s)) = remapped 0x20 4"
  "pic_state 0xA0 p (dev_log (setup_pic s)) = remapped 0x28 2"
proof -
  obtain m1 m2 where "dev_log (setup_pic s) =
    [OutB 0xA1 0xFF, OutB 0x21 0xFF, OutB 0xA1 m2, OutB 0x21 m1, OutB 0xA1 1, OutB 0x21 1, OutB 0xA1 2, OutB 0x21 4,
     OutB 0xA1 0x28, OutB 0x21 0x20, OutB 0xA0 0x11, OutB 0x20 0x11, InB 0xA1, InB 0x21] @ dev_log s"
    using setup_pic_log by blast
  then show "pic_state 0x20 p (dev_log (setup_pic s)) = remapped 0x20 4"
    "pic_state 0xA0 p (dev_log (setup_pic s)) = remapped 0x28 2"
    by (simp_all add: pic_command_def bit_simps)
qed

text \<open>The APIC driver uses no ports.\<close>

lemma pic_state_dev_ops: "pic_state cmd p (dev_ops l) = pic_state cmd p l" if "cmd \<in> {0x20, 0xA0}"
proof (induction l)
  case (Cons x l)
  then show ?case using that by (cases x) auto
qed simp

lemma redirect_pic:
  "pic_state cmd p (dev_log (ioapic_set_irq_redirect irq v fl s)) = pic_state cmd p (dev_log s)"
  by (simp add: ioapic_set_irq_redirect_def ioapic_read_def ioapic_write_def kmmio_read_def
      kmmio_write_def mmio_read_def mmio_write_def Let_def)

lemma apic_init_pic: "pic_state cmd p (dev_log (apic_init s)) = pic_state cmd p (dev_log s)"
proof -
  have l: "pic_state cmd p (dev_log (lapic_init s)) = pic_state cmd p (dev_log s)" for s :: "'a kapic_scheme"
    using lapic_init_dev(4) [of s] by auto
  show ?thesis by (simp add: apic_init_def Let_def redirect_pic ioapic_init_dev(4) l)
qed

lemma kprint_idt_frame [simp]:
  "idt (kprint msg s) = idt s" "idtr (kprint msg s) = idtr s" "isr_addr (kprint msg s) = isr_addr s"
  "int_flag (kprint msg s) = int_flag s"
  by (simp_all add: kprint_def)

lemma apic_init_idt_frame:
  "idt (apic_init s) = idt s" "idtr (apic_init s) = idtr s"
proof -
  have "idt (ioapic_set_irq_redirect irq v fl s) = idt s" "idtr (ioapic_set_irq_redirect irq v fl s) = idtr s"
    for irq v fl and s :: "'a kidt_scheme"
    by (simp_all add: ioapic_set_irq_redirect_def ioapic_read_def ioapic_write_def kmmio_read_def
        kmmio_write_def Let_def split_beta)
  moreover have "idt (lapic_init s) = idt s" "idtr (lapic_init s) = idtr s" for s :: "'a kidt_scheme"
    by (simp_all add: lapic_init_def apic_read_def apic_write_def kmmio_read_def kmmio_write_def Let_def split_beta)
  moreover have "idt (ioapic_init s) = idt s" "idtr (ioapic_init s) = idtr s" for s :: "'a kidt_scheme"
    by (simp_all add: ioapic_init_def Let_def)
  ultimately show "idt (apic_init s) = idt s" "idtr (apic_init s) = idtr s"
    by (simp_all add: apic_init_def Let_def)
qed

section \<open>Properties\<close>

definition sample_idt :: kidt where
  "sample_idt = ktimer.extend sample_timer
     \<lparr>idt = replicate 256 (gate 0 0 0), idtp = \<lparr>limit = 0, base = 0\<rparr>, idtr = \<lparr>limit = 0, base = 0\<rparr>,
      int_flag = False, idt_addr = 0x210000, isr_addr = (\<lambda>n. 0xFFFFFFFF80100000 + 16 * of_nat n)\<rparr>"

lemma sample_idt_simps:
  "length (idt sample_idt) = 256" "idt_addr sample_idt = 0x210000"
  "isr_addr sample_idt n = 0xFFFFFFFF80100000 + 16 * of_nat n"
  by (simp_all add: sample_idt_def ktimer.defs)

text \<open>
  C10. Interrupt set-up. After \<open>idt_init\<close> the processor's table register describes the 4096-byte table; the
  gate of each vector below 48 is present, an interrupt gate in the kernel's code segment, and the
  address the processor assembles from its three parts is that of the stub for that vector; all other
  gates are not present; both legacy controllers are moved to vectors 0x20 and 0x28 and fully masked,
  whatever state the firmware left them in; and interrupts are enabled.
\<close>

theorem idt_init_installs_handlers:
  assumes "length (idt s) = 256"
  shows "let s' = idt_init s
    in idtr s' = \<lparr>limit = 0xFFF, base = idt_addr s\<rparr> \<and> length (idt s') = 256 \<and> int_flag s' \<and>
       (\<forall>v<48. gate_offset (idt s' ! v) = isr_addr s v \<and> present (idt s' ! v) \<and>
          selector (idt s' ! v) = 0x08 \<and> type_attr (idt s' ! v) = 0x8E) \<and>
       (\<forall>v. 48 \<le> v \<and> v < 256 \<longrightarrow> \<not> present (idt s' ! v)) \<and>
       pic_state 0x20 p (dev_log s') = remapped 0x20 4 \<and> pic_state 0xA0 q (dev_log s') = remapped 0x28 2"
proof -
  obtain t where t: "setup_idt s = s\<lparr>idt := t, idtp := \<lparr>limit = 0xFFF, base = idt_addr s\<rparr>,
      idtr := \<lparr>limit = 0xFFF, base = idt_addr s\<rparr>\<rparr>" "length t = 256"
    "\<forall>v<48. t ! v = gate (isr_addr s v) 0x08 0x8E" "\<forall>v. 48 \<le> v \<and> v < 256 \<longrightarrow> t ! v = gate 0 0 0"
    by (rule setup_idt_table [OF assms])
  obtain c where c: "setup_pic (setup_idt s) = (setup_idt s)\<lparr>io := c\<rparr>" using setup_pic_only by blast
  have "idt (idt_init s) = t" "idtr (idt_init s) = \<lparr>limit = 0xFFF, base = idt_addr s\<rparr>" "int_flag (idt_init s)"
    "dev_log (idt_init s) = dev_log (apic_init (setup_pic (setup_idt s)))"
    by (simp_all add: idt_init_def enable_interrupts_def Let_def apic_init_idt_frame c [unfolded t(1)] t(1))
  moreover have "present (gate a 8 0x8E)" "\<not> present (gate 0 0 0)" for a
    by (simp_all add: present_def gate_def bit_simps)
  ultimately show ?thesis
    using t by (simp add: Let_def gate_offset_gate apic_init_pic setup_pic_state) (simp add: gate_def)
qed

theorem idt_init_installs_handlers_witness:
  "gate_offset (idt (idt_init sample_idt) ! 33) = 0xFFFFFFFF80100210"
proof -
  have "gate_offset (idt (idt_init sample_idt) ! 33) = isr_addr sample_idt 33"
    using idt_init_installs_handlers [OF sample_idt_simps(1)] by (simp add: Let_def)
  then show ?thesis by (simp add: sample_idt_simps(3))
qed

text \<open>
  Exceptions stop the machine. For each of the 32 exception vectors the handler prints the
  message of that vector (no access outside the message table) and halts, touching no device but the
  console; it returns only for other vectors, and then without any effect.
\<close>

theorem isr_handler_halts:
  "if int_no regs < 32
   then unat (int_no regs) < length exception_messages \<and>
     isr_handler regs s = Halted (fold kprint
       ([''Exception: '', exception_messages ! unat (int_no regs), ''\<newline>System Halted!\<newline>''] @
        (if err_code regs \<noteq> 0 then [''Error code: 0x'', ''\<newline>''] else [])) s) \<and>
     dev_log (final_state (isr_handler regs s)) = dev_log s
   else isr_handler regs s = Returned s"
  by (simp add: isr_handler_def Let_def exception_messages_def word_less_nat_alt)

text \<open>
  Every external interrupt is acknowledged exactly once, unless the timer switches tasks. The
  stub of each vector from 32 to 47 returns with one write to the end-of-interrupt register as the last access
  to a device; the timer's stub does so on every call in which the current task stays.
\<close>

theorem external_interrupts_acknowledged:
  assumes "sched_inv s" "32 \<le> n" "n < 48"
  shows "\<exists>r. run_stub n regs s = Some r \<and>
    (n = 32 \<and> r = Switched (final_state r) \<and> dev_log (final_state r) = dev_log s \<or>
     r = Returned (final_state r) \<and>
     dev_log (final_state r) =
       MmioWrite (lapic_base s + 0xB0) 0 # (if n = 33 then InB 0x60 # dev_log s else dev_log s))"
proof -
  consider "n = 32" | "n = 33" | "33 < n" using assms(2) by linarith
  then show ?thesis
  proof cases
    case 1
    obtain r where "timer_callback s = Some r" "tick_count (final_state r) = tick_count s + 1" "sched_inv (final_state r)"
      "unat (current_task (final_state r)) = (if (tick_count s + 1) mod 5 = 0 then picks s else unat (current_task s))"
      "if unat (current_task (final_state r)) = unat (current_task s)
       then r = Returned (final_state r) \<and> dev_log (final_state r) = MmioWrite (lapic_base s + 0xB0) 0 # dev_log s
       else r = Switched (final_state r) \<and> dev_log (final_state r) = dev_log s"
      by (rule timer_callback_eq [OF assms(1)])
    then show ?thesis using 1 by (auto simp: run_stub_def split: if_splits)
  next
    case 2
    then show ?thesis by (simp add: run_stub_def handler_io)
  next
    case 3
    have "(of_nat n :: u64) \<noteq> 32" "(of_nat n :: u64) \<ge> 32"
      using 3 assms(3) unat_of_nat_small [of n, where 'a = 64] by (auto simp: word_le_nat_alt)
    then show ?thesis using 3 by (simp add: run_stub_def apic_isr_handler_def)
  qed
qed

definition sample_regs :: registers where
  "sample_regs = \<lparr>i_r15 = 0, i_r14 = 0, i_r13 = 0, i_r12 = 0, i_r11 = 0, i_r10 = 0, i_r9 = 0, i_r8 = 0, i_rbp = 0,
     i_rdi = 0, i_rsi = 0, i_rdx = 0, i_rcx = 0, i_rbx = 0, i_rax = 0, int_no = 0, err_code = 0,
     i_rip = 0, i_cs = 8, i_rflags = 2, i_useresp = 0, i_ss = 16\<rparr>"

theorem external_interrupts_acknowledged_witness:
  "\<exists>r. run_stub 33 sample_regs sample_timer = Some r \<and> r = Returned (final_state r) \<and>
     dev_log (final_state r) = MmioWrite (lapic_base sample_timer + 0xB0) 0 # InB 0x60 # dev_log sample_timer"
  using external_interrupts_acknowledged [OF sample_timer_inv, of 33 sample_regs] by auto

end
