(* ===== verification/Process.thy ===== *)
theory Process
  imports Interrupt
begin

text \<open>
  Processes: the table, the creation and the termination of processes and the switch between them,
  as in \<open>kernel/process.c\<close>, \<open>kernel/process.h\<close> and \<open>kernel/registers.h\<close>. A pointer to a process is the
  index of its slot.
\<close>

section \<open>State and operations\<close>

abbreviation PROCESS_READY :: u32 where "PROCESS_READY \<equiv> 1"
abbreviation PROCESS_TERMINATED :: u32 where "PROCESS_TERMINATED \<equiv> 3"
abbreviation MAX_PROCESSES :: u32 where "MAX_PROCESSES \<equiv> 64"
abbreviation USER_CODE_SEGMENT :: u64 where "USER_CODE_SEGMENT \<equiv> 0x18"
abbreviation USER_DATA_SEGMENT :: u64 where "USER_DATA_SEGMENT \<equiv> 0x20"
abbreviation RPL_USER :: u64 where "RPL_USER \<equiv> 0x03"

text \<open>\<open>struct registers\<close> of \<open>registers.h\<close>, its fields in the order of the source.\<close>

record proc_context =
  x_r15 :: u64
  x_r14 :: u64
  x_r13 :: u64
  x_r12 :: u64
  x_r11 :: u64
  x_r10 :: u64
  x_r9 :: u64
  x_r8 :: u64
  x_rdi :: u64
  x_rsi :: u64
  x_rbp :: u64
  x_rdx :: u64
  x_rcx :: u64
  x_rbx :: u64
  x_rax :: u64
  x_rip :: u64
  x_cs :: u64
  x_rflags :: u64
  x_rsp :: u64
  x_ss :: u64

record process =
  pid :: u32
  p_state :: u32
  p_cr3 :: u64
  user_stack :: u64
  kernel_stack :: u64
  p_context :: proc_context
  p_entry :: u64
  p_heap_start :: u64
  p_heap_end :: u64
  p_heap_max :: u64
  p_name :: "char list"
  parent_pid :: u32
  child_count :: u32

text \<open>\<open>processes_addr\<close> is the address of the array, as the linker places it.\<close>

record kproc = kidt +
  processes :: "process list"
  process_count :: u32
  current_pid :: u32
  processes_addr :: u64

text \<open>The address of the field \<open>context\<close> of a slot: \<open>struct process\<close> has 264 bytes.\<close>

definition context_addr :: "'a kproc_scheme \<Rightarrow> nat \<Rightarrow> u64" where
  "context_addr s i = processes_addr s + 264 * of_nat i + 32"

definition process_init :: "'a kproc_scheme \<Rightarrow> 'a kproc_scheme" where
  "process_init s =
     (let s1 = kprint ''Initializing process management...\<newline>'' s;
          s2 = s1\<lparr>processes := fold (\<lambda>i ps. ps[i := (ps ! i)\<lparr>pid := 0, p_state := PROCESS_TERMINATED\<rparr>])
                 [0..<64] (processes s1)\<rparr>;
          s3 = s2\<lparr>process_count := 0, current_pid := 0\<rparr>
      in kprint ''Process management initialized.\<newline>'' s3)"

definition process_get_current :: "'a kproc_scheme \<Rightarrow> nat" where
  "process_get_current s = unat (current_pid s)"

definition process_get_by_pid :: "u32 \<Rightarrow> 'a kproc_scheme \<Rightarrow> nat option" where
  "process_get_by_pid n s =
     (if n \<ge> MAX_PROCESSES then None
      else if p_state (processes s ! unat n) = PROCESS_TERMINATED then None
      else Some (unat n))"

text \<open>The first free slot from 1 on; 0 if there is none.\<close>

definition find_slot :: "process list \<Rightarrow> u32" where
  "find_slot ps =
     (case find (\<lambda>i. p_state (ps ! i) = PROCESS_TERMINATED) [1..<64] of None \<Rightarrow> 0 | Some i \<Rightarrow> of_nat i)"

function copy_name :: "nat \<Rightarrow> string \<Rightarrow> char list \<Rightarrow> char list" where
  "copy_name i name buf =
     (if i < 31 \<and> i < length name \<and> name ! i \<noteq> CHR 0x00 then copy_name (i + 1) name (buf[i := name ! i])
      else buf[i := CHR 0x00])"
  by auto
termination by (relation "measure (\<lambda>(i, name, buf). 31 - i)") auto

text \<open>The assignments to the fields of the new process, apart from its stacks.\<close>

definition init_process :: "u32 \<Rightarrow> u64 \<Rightarrow> string \<Rightarrow> u32 \<Rightarrow> process \<Rightarrow> process" where
  "init_process n entry name parent p =
     p\<lparr>pid := n, p_state := PROCESS_READY, p_entry := entry, parent_pid := parent, child_count := 0,
       p_name := copy_name 0 name (p_name p)\<rparr>"

definition init_context :: "u64 \<Rightarrow> u64 \<Rightarrow> proc_context \<Rightarrow> proc_context" where
  "init_context entry stack c =
     c\<lparr>x_rax := 0, x_rbx := 0, x_rcx := 0, x_rdx := 0, x_rsi := 0, x_rdi := 0, x_rbp := 0,
       x_r8 := 0, x_r9 := 0, x_r10 := 0, x_r11 := 0, x_r12 := 0, x_r13 := 0, x_r14 := 0, x_r15 := 0,
       x_rip := entry, x_cs := USER_CODE_SEGMENT OR RPL_USER, x_rflags := 0x202, x_rsp := stack,
       x_ss := USER_DATA_SEGMENT OR RPL_USER\<rparr>"

definition kernel_stack_top :: "u32 \<Rightarrow> u64" where
  "kernel_stack_top n = 0xFFFF800000000000 + ucast ((n + 1) * 0x100000)"

definition user_stack_top :: "u32 \<Rightarrow> u64" where
  "user_stack_top n = 0x100000000 + ucast (n * 0x100000)"

text \<open>The last assignment: the parent's number of children.\<close>

definition add_child :: "u32 \<Rightarrow> process list \<Rightarrow> process list" where
  "add_child c ps =
     (if c \<noteq> 0 then ps[unat c := (ps ! unat c)\<lparr>child_count := child_count (ps ! unat c) + 1\<rparr>] else ps)"

definition process_create :: "u64 \<Rightarrow> string \<Rightarrow> 'a kproc_scheme \<Rightarrow> (u32 \<times> 'a kproc_scheme) option" where
  "process_create entry name s =
     (if process_count s \<ge> MAX_PROCESSES then
        Some (0, kprint ''ERROR: Maximum number of processes reached!\<newline>'' s)
      else
        (let n = find_slot (processes s)
         in if n = 0 then Some (0, kprint ''ERROR: No free process slots!\<newline>'' s)
            else
              (let p1 = init_process n entry name (current_pid s) (processes s ! unat n);
                   p2 = p1\<lparr>kernel_stack := kernel_stack_top n\<rparr>
               in case map_stack_loop 0x07 (kernel_stack p2 - 8192) (kernel_stack p2) (vm s) of
                    None \<Rightarrow> None
                  | Some v1 \<Rightarrow>
                      (let p3 = p2\<lparr>user_stack := user_stack_top n\<rparr>
                       in case map_stack_loop (0x07 OR PAGE_USER) (user_stack p3 - 8192) (user_stack p3) v1 of
                            None \<Rightarrow> None
                          | Some v2 \<Rightarrow>
                              (let p4 = p3\<lparr>p_context := init_context entry (user_stack p3) (p_context p3)\<rparr>;
                                   s1 = s\<lparr>vm := v2,
                                     processes := add_child (current_pid s) ((processes s)[unat n := p4]),
                                     process_count := process_count s + 1\<rparr>
                               in Some (n, fold kprint [''Process created. PID: '', '', Name: '', name, ''\<newline>''] s1))))))"

definition process_exit :: "u32 \<Rightarrow> 'a kproc_scheme \<Rightarrow> 'a kproc_scheme" where
  "process_exit n s =
     (if n \<ge> MAX_PROCESSES \<or> p_state (processes s ! unat n) = PROCESS_TERMINATED then s
      else
        (let s1 = s\<lparr>processes := (processes s)[unat n := (processes s ! unat n)\<lparr>p_state := PROCESS_TERMINATED\<rparr>],
                    process_count := process_count s - 1\<rparr>
         in kprint ''\<newline>'' (kprint ''Process exited. PID: '' s1)))"

text \<open>
  The 24 quadwords that \<open>context_switch\<close> reads and writes from the field \<open>context\<close> on: the 20 of the
  register structure and the next four fields of the process. In \<open>process_switch\<close> the two halves of
  \<open>context_switch\<close> act on the table one after the other, as the two processes may be the same.
\<close>

definition proc_words :: "process \<Rightarrow> u64 list" where
  "proc_words p =
     (let c = p_context p
      in [x_r15 c, x_r14 c, x_r13 c, x_r12 c, x_r11 c, x_r10 c, x_r9 c, x_r8 c, x_rdi c, x_rsi c, x_rbp c,
          x_rdx c, x_rcx c, x_rbx c, x_rax c, x_rip c, x_cs c, x_rflags c, x_rsp c, x_ss c,
          p_entry p, p_heap_start p, p_heap_end p, p_heap_max p])"

definition proc_put_words :: "u64 list \<Rightarrow> process \<Rightarrow> process" where
  "proc_put_words w p =
     p\<lparr>p_context := \<lparr>x_r15 = w ! 0, x_r14 = w ! 1, x_r13 = w ! 2, x_r12 = w ! 3, x_r11 = w ! 4, x_r10 = w ! 5,
         x_r9 = w ! 6, x_r8 = w ! 7, x_rdi = w ! 8, x_rsi = w ! 9, x_rbp = w ! 10, x_rdx = w ! 11, x_rcx = w ! 12,
         x_rbx = w ! 13, x_rax = w ! 14, x_rip = w ! 15, x_cs = w ! 16, x_rflags = w ! 17, x_rsp = w ! 18,
         x_ss = w ! 19\<rparr>,
       p_entry := w ! 20, p_heap_start := w ! 21, p_heap_end := w ! 22, p_heap_max := w ! 23\<rparr>"

definition process_switch :: "nat \<Rightarrow> nat \<Rightarrow> 'a kproc_scheme \<Rightarrow> 'a kproc_scheme outcome" where
  "process_switch old_process new_process s =
     (let s1 = s\<lparr>current_pid := pid (processes s ! new_process)\<rparr>;
          old = processes s1 ! old_process;
          c = (cpu s1)\<lparr>c_rdi := context_addr s1 old_process, c_rsi := context_addr s1 new_process\<rparr>;
          w = save_context (switch_resume s1) (c\<lparr>c_rsp := c_rsp c - 8\<rparr>) (proc_words old);
          s2 = s1\<lparr>processes := (processes s1)[old_process := proc_put_words w old]\<rparr>
      in Switched (s2\<lparr>cpu := restore_context (proc_words (processes s2 ! new_process)) (c\<lparr>c_rdi := c_rsi c\<rparr>)\<rparr>))"

definition process_yield :: "'a kproc_scheme \<Rightarrow> 'a kproc_scheme" where
  "process_yield s = s"

definition process_sleep :: "u32 \<Rightarrow> 'a kproc_scheme \<Rightarrow> 'a kproc_scheme" where
  "process_sleep n s = s"

section \<open>The table\<close>

definition live_slots :: "process list \<Rightarrow> nat set" where
  "live_slots ps = {i. i < length ps \<and> p_state (ps ! i) \<noteq> PROCESS_TERMINATED}"

definition proc_ok :: "'a kproc_scheme \<Rightarrow> bool" where
  "proc_ok s \<longleftrightarrow> length (processes s) = 64 \<and> 0 \<notin> live_slots (processes s) \<and>
     unat (process_count s) = card (live_slots (processes s)) \<and> current_pid s < MAX_PROCESSES \<and>
     (\<forall>i\<in>live_slots (processes s). pid (processes s ! i) = of_nat i) \<and>
     (\<forall>i<64. pid (processes s ! i) = of_nat i \<or> pid (processes s ! i) = 0) \<and>
     (\<forall>p\<in>set (processes s). length (p_name p) = 32)"

abbreviation live_pids :: "'a kproc_scheme \<Rightarrow> nat set" where
  "live_pids s \<equiv> live_slots (processes s)"

lemma live_slots_finite [simp]: "finite (live_slots ps)"
  by (simp add: live_slots_def)

lemma live_slots_update:
  "i < length ps \<Longrightarrow> live_slots (ps[i := p]) =
     (if p_state p = PROCESS_TERMINATED then live_slots ps - {i} else insert i (live_slots ps))"
  by (auto simp: live_slots_def nth_list_update)

lemma proc_ok_print [simp]: "proc_ok (kprint m s) = proc_ok s" "proc_ok (fold kprint ms s) = proc_ok s"
  "processes (kprint m s) = processes s" "processes (fold kprint ms s) = processes s"
  "process_count (kprint m s) = process_count s" "process_count (fold kprint ms s) = process_count s"
  "current_pid (kprint m s) = current_pid s" "current_pid (fold kprint ms s) = current_pid s"
proof -
  have k: "processes (kprint m s) = processes s" "process_count (kprint m s) = process_count s"
    "current_pid (kprint m s) = current_pid s" for m and s :: "'a kproc_scheme" by (simp_all add: kprint_def)
  have f: "processes (fold kprint ms s) = processes s \<and> process_count (fold kprint ms s) = process_count s \<and>
      current_pid (fold kprint ms s) = current_pid s" for ms and s :: "'a kproc_scheme"
    by (induction ms arbitrary: s) (simp_all add: k)
  show "proc_ok (kprint m s) = proc_ok s" "proc_ok (fold kprint ms s) = proc_ok s"
    "processes (kprint m s) = processes s" "processes (fold kprint ms s) = processes s"
    "process_count (kprint m s) = process_count s" "process_count (fold kprint ms s) = process_count s"
    "current_pid (kprint m s) = current_pid s" "current_pid (fold kprint ms s) = current_pid s"
    by (simp_all add: proc_ok_def k f)
qed

text \<open>The first free slot.\<close>

lemma find_slot_cases:
  assumes "length ps = 64" "0 \<notin> live_slots ps"
  obtains (full) "find_slot ps = 0" "live_slots ps = {1..<64}"
  | (free) i where "find_slot ps = of_nat i" "unat (find_slot ps) = i" "1 \<le> i" "i < 64" "i \<notin> live_slots ps"
      "\<forall>j. 1 \<le> j \<and> j < i \<longrightarrow> j \<in> live_slots ps"
proof (cases "find (\<lambda>i. p_state (ps ! i) = PROCESS_TERMINATED) [1..<64]")
  case None
  then have "\<forall>i. 1 \<le> i \<and> i < 64 \<longrightarrow> p_state (ps ! i) \<noteq> PROCESS_TERMINATED" by (auto simp: find_None_iff)
  then have "live_slots ps = {1..<64}"
    using assms by (auto simp: live_slots_def intro!: Suc_leI gr0I)
  then show thesis using None by (intro full) (simp_all add: find_slot_def)
next
  case (Some i)
  then obtain k where k: "k < length [1..<64 :: nat]" "p_state (ps ! ([1..<64] ! k)) = PROCESS_TERMINATED"
    "i = [1..<64] ! k" "\<forall>j<k. p_state (ps ! ([1..<64] ! j)) \<noteq> PROCESS_TERMINATED"
    by (auto simp: find_Some_iff)
  then have i: "i = Suc k" "i < 64" "p_state (ps ! i) = PROCESS_TERMINATED" by simp_all
  have least: "p_state (ps ! j) \<noteq> PROCESS_TERMINATED" if "1 \<le> j" "j < i" for j
    using k(4) [rule_format, of "j - 1"] that i by simp
  have "find_slot ps = of_nat i" using Some by (simp add: find_slot_def)
  moreover have "unat (of_nat i :: u32) = i" using i by (intro unat_of_nat_small) simp
  ultimately show thesis using i assms(1) least by (intro free [of i]) (auto simp: live_slots_def)
qed

text \<open>The name.\<close>

declare copy_name.simps [simp del]

definition c_string :: "char list \<Rightarrow> string" where
  "c_string cs = takeWhile (\<lambda>c. c \<noteq> CHR 0x00) cs"

lemma c_string_prefix:
  assumes "i \<le> length (c_string name)"
  shows "take i (c_string name) = take i name" "i < length (c_string name) \<longleftrightarrow> i < length name \<and> name ! i \<noteq> CHR 0x00"
proof -
  let ?P = "\<lambda>c. c \<noteq> CHR 0x00"
  have split: "name = c_string name @ dropWhile ?P name" by (simp add: c_string_def)
  show "take i (c_string name) = take i name" using assms by (subst (2) split) simp
  have "name ! i \<noteq> CHR 0x00" if "i < length (c_string name)"
    using that nth_mem [OF that] set_takeWhileD takeWhile_nth [of i ?P name] unfolding c_string_def by metis
  moreover have "length (c_string name) \<le> length name" by (simp add: c_string_def length_takeWhile_le)
  moreover have "name ! length (c_string name) = CHR 0x00" if "length (c_string name) < length name"
    using that nth_length_takeWhile [of ?P name] by (simp add: c_string_def)
  ultimately show "i < length (c_string name) \<longleftrightarrow> i < length name \<and> name ! i \<noteq> CHR 0x00" using assms by (auto simp: order_le_less)
qed

lemma copy_name_result:
  assumes "i \<le> 31" "length buf = 32" "i \<le> length (c_string name)" "take i buf = take i name"
  shows "length (copy_name i name buf) = 32 \<and> c_string (copy_name i name buf) = take 31 (c_string name)"
  using assms
proof (induction i name buf rule: copy_name.induct)
  case (1 i name buf)
  let ?go = "i < 31 \<and> i < length name \<and> name ! i \<noteq> CHR 0x00"
  note pre = c_string_prefix [OF "1.prems"(3)]
  show ?case
  proof (cases ?go)
    case True
    then have "i < length (c_string name)" using pre(2) by blast
    moreover have "take (i + 1) (buf[i := name ! i]) = take (i + 1) name"
      using True "1.prems"(2,4) by (simp add: take_Suc_conv_app_nth)
    ultimately have "length (copy_name (i + 1) name (buf[i := name ! i])) = 32 \<and>
        c_string (copy_name (i + 1) name (buf[i := name ! i])) = take 31 (c_string name)"
      using "1.IH" [OF True] True "1.prems"(2) by simp
    then show ?thesis using True by (subst (1 2) copy_name.simps) simp
  next
    case False
    then have "i = 31 \<or> i = length (c_string name)" using pre(2) "1.prems"(1,3) by auto
    then have all: "take 31 (c_string name) = take i name" using pre(1) "1.prems"(1) by auto
    have nz: "\<forall>c\<in>set (take i name). c \<noteq> CHR 0x00"
      using pre(1) set_takeWhileD in_set_takeD unfolding c_string_def by metis
    have "buf[i := CHR 0x00] = take i name @ CHR 0x00 # drop (Suc i) buf"
      using "1.prems"(1,2,4) by (simp add: upd_conv_take_nth_drop)
    then have "c_string (buf[i := CHR 0x00]) = take i name"
      using nz by (simp add: c_string_def takeWhile_append)
    moreover have "copy_name i name buf = buf[i := CHR 0x00]" using False by (subst copy_name.simps) auto
    ultimately show ?thesis using all "1.prems"(2) by simp
  qed
qed

section \<open>Creation\<close>

lemma stack_top_unat:
  assumes "1 \<le> i" "i < 64"
  shows "unat (kernel_stack_top (of_nat i)) = 0xFFFF800000000000 + (i + 1) * 0x100000"
    "unat (user_stack_top (of_nat i)) = 0x100000000 + i * 0x100000"
proof -
  have i: "unat (of_nat i :: u32) = i" using assms by (intro unat_of_nat_small) simp
  have "unat ((of_nat i + 1) * 0x100000 :: u32) = (i + 1) * 0x100000" "unat (of_nat i * 0x100000 :: u32) = i * 0x100000"
    using i assms by (simp_all add: unat_mult_small unat_add_small)
  then have "unat (ucast ((of_nat i + 1) * 0x100000 :: u32) :: u64) = (i + 1) * 0x100000"
    "unat (ucast (of_nat i * 0x100000 :: u32) :: u64) = i * 0x100000"
    using assms by (simp_all add: unsigned_ucast_eq take_bit_nat_eq_self)
  then show "unat (kernel_stack_top (of_nat i)) = 0xFFFF800000000000 + (i + 1) * 0x100000"
    "unat (user_stack_top (of_nat i)) = 0x100000000 + i * 0x100000"
    unfolding kernel_stack_top_def user_stack_top_def using assms by (subst unat_add_small; simp)+
qed

definition two_pages :: "u64 \<Rightarrow> u64 list" where
  "two_pages e = pages_from (e - 8192) 2"

lemma two_pages_loop:
  assumes "8192 \<le> unat e"
  shows "map_stack_loop fl (e - 8192) e m = Some (fold (map_stack_page fl) (two_pages e) m)"
proof -
  have "unat (e - 8192) + 4096 * 2 = unat e"
    using assms by (simp add: unat_sub word_le_nat_alt)
  from map_stack_loop_eq [OF this] show ?thesis by (simp add: two_pages_def)
qed

text \<open>The new process, and the state after its creation.\<close>

definition new_process :: "nat \<Rightarrow> u64 \<Rightarrow> string \<Rightarrow> u32 \<Rightarrow> process \<Rightarrow> process" where
  "new_process i entry name parent p =
     (let p1 = init_process (of_nat i) entry name parent p;
          p2 = p1\<lparr>kernel_stack := kernel_stack_top (of_nat i), user_stack := user_stack_top (of_nat i)\<rparr>
      in p2\<lparr>p_context := init_context entry (user_stack_top (of_nat i)) (p_context p2)\<rparr>)"

lemma process_create_eq:
  assumes "find_slot (processes s) = of_nat i" "1 \<le> i" "i < 64" "process_count s < 64"
  shows "process_create entry name s = Some (of_nat i,
    fold kprint [''Process created. PID: '', '', Name: '', name, ''\<newline>'']
     (s\<lparr>vm := fold (map_stack_page 7) (two_pages (user_stack_top (of_nat i))) (fold (map_stack_page 7) (two_pages (kernel_stack_top (of_nat i))) (vm s)),
        processes := add_child (current_pid s)
          ((processes s)[i := new_process i entry name (current_pid s) (processes s ! i)]),
        process_count := process_count s + 1\<rparr>))"
proof -
  have i: "unat (of_nat i :: u32) = i" using assms(3) by (intro unat_of_nat_small) simp
  then have nz: "(of_nat i :: u32) \<noteq> 0" using assms(2) by auto
  have loops: "map_stack_loop 7 (kernel_stack_top (of_nat i) - 8192) (kernel_stack_top (of_nat i)) m = Some (fold (map_stack_page 7) (two_pages (kernel_stack_top (of_nat i))) m)"
    "map_stack_loop 7 (user_stack_top (of_nat i) - 8192) (user_stack_top (of_nat i)) m = Some (fold (map_stack_page 7) (two_pages (user_stack_top (of_nat i))) m)" for m
    by (rule two_pages_loop; simp only: stack_top_unat [OF assms(2,3)]; simp)+
  show ?thesis
    using assms(4) nz i
    by (simp add: process_create_def assms(1) Let_def loops new_process_def add_child_def not_le)
qed

lemma nth_update: "xs[i := x] ! j = (if i = j \<and> i < length xs then x else xs ! j)"
  by (cases "i < length xs") (auto simp: nth_list_update list_update_beyond)

lemma live_add_child: "live_slots (add_child c ps) = live_slots ps" "length (add_child c ps) = length ps"
  by (auto simp: add_child_def live_slots_def nth_update)

lemma add_child_nth:
  "i < length ps \<Longrightarrow> add_child c ps ! i = (if c \<noteq> 0 \<and> unat c = i then (ps ! i)\<lparr>child_count := child_count (ps ! i) + 1\<rparr> else ps ! i)"
  by (auto simp: add_child_def nth_update)

text \<open>The registers a process is to start with: user-mode code (0x1B) and stack (0x23) segments, interrupts enabled.\<close>

definition start_context :: "u64 \<Rightarrow> u64 \<Rightarrow> proc_context" where
  "start_context entry stack =
     \<lparr>x_r15 = 0, x_r14 = 0, x_r13 = 0, x_r12 = 0, x_r11 = 0, x_r10 = 0, x_r9 = 0, x_r8 = 0, x_rdi = 0, x_rsi = 0, x_rbp = 0,
      x_rdx = 0, x_rcx = 0, x_rbx = 0, x_rax = 0, x_rip = entry, x_cs = 0x1B, x_rflags = 0x202, x_rsp = stack, x_ss = 0x23\<rparr>"

lemma new_process_fields:
  "p_state (new_process i entry name parent p) = PROCESS_READY" "pid (new_process i entry name parent p) = of_nat i"
  "p_name (new_process i entry name parent p) = copy_name 0 name (p_name p)"
  "p_entry (new_process i entry name parent p) = entry" "parent_pid (new_process i entry name parent p) = parent"
  "kernel_stack (new_process i entry name parent p) = kernel_stack_top (of_nat i)"
  "user_stack (new_process i entry name parent p) = user_stack_top (of_nat i)" "child_count (new_process i entry name parent p) = 0"
  by (simp_all add: new_process_def init_process_def Let_def)

lemma new_process_context:
  "p_context (new_process i entry name parent p) = start_context entry (user_stack_top (of_nat i))"
  by (simp add: new_process_def init_process_def init_context_def start_context_def Let_def)

lemma proc_ok_create:
  assumes "proc_ok s" "1 \<le> i" "i < 64" "i \<notin> live_pids s"
    and "processes s' = add_child (current_pid s) ((processes s)[i := new_process i entry name (current_pid s) (processes s ! i)])"
    and "process_count s' = process_count s + 1" "current_pid s' = current_pid s"
  shows "proc_ok s'" "live_pids s' = insert i (live_pids s)"
proof -
  let ?p = "new_process i entry name (current_pid s) (processes s ! i)"
  have len: "length (processes s) = 64" using assms(1) by (simp add: proc_ok_def)
  have upd: "live_slots ((processes s)[i := ?p]) = insert i (live_pids s)"
    using assms(3) len by (simp add: live_slots_update new_process_fields)
  then show live: "live_pids s' = insert i (live_pids s)" by (simp add: assms(5) live_add_child)
  have "live_pids s \<subseteq> {1..<64}" using assms(1) by (auto simp: proc_ok_def live_slots_def Suc_le_eq intro: gr0I)
  then have "card (live_pids s) \<le> card {1..<64 :: nat}" by (intro card_mono) simp_all
  then have count: "unat (process_count s') = card (live_pids s')"
    using assms(1,4,6) live by (simp add: proc_ok_def unat_add_small)
  have names: "length (p_name (processes s' ! j)) = 32" if "j < 64" for j
  proof -
    have "length (p_name (processes s ! j)) = 32" "length (p_name (processes s ! i)) = 32"
      using assms(1,3) that len by (simp_all add: proc_ok_def)
    then show ?thesis
      using copy_name_result [of 0 "p_name (processes s ! i)" name] that len
      by (auto simp: assms(5) add_child_nth nth_update new_process_fields)
  qed
  have stale: "pid (processes s' ! j) = of_nat j \<or> pid (processes s' ! j) = 0" if "j < 64" for j
    using assms(1) len that by (simp add: assms(5) add_child_nth nth_update new_process_fields proc_ok_def)
  have pids: "pid (processes s' ! j) = of_nat j" if "j \<in> live_pids s'" for j
  proof -
    have "j < 64" using that len by (simp add: assms(5) live_add_child live_slots_def)
    moreover have "j = i \<or> j \<in> live_pids s" using that live by simp
    ultimately show ?thesis using assms(1) len
      by (auto simp: assms(5) add_child_nth nth_update new_process_fields proc_ok_def)
  qed
  show "proc_ok s'"
    unfolding proc_ok_def
  proof (intro conjI ballI)
    show "length (processes s') = 64" using len by (simp add: assms(5) live_add_child)
    show "0 \<notin> live_pids s'" using assms(1,2) live by (simp add: proc_ok_def)
    show "current_pid s' < MAX_PROCESSES" using assms(1,7) by (simp add: proc_ok_def)
    show "length (p_name p) = 32" if "p \<in> set (processes s')" for p
      using that names len by (auto simp: in_set_conv_nth assms(5) live_add_child)
  qed (use count pids stale in auto)
qed


section \<open>Slots as resources\<close>

fun run_create :: "('x \<Rightarrow> 's \<Rightarrow> (nat \<times> 's) option) \<Rightarrow> 'x list \<Rightarrow> 's \<Rightarrow> (nat list \<times> 's) option" where
  "run_create create [] s = Some ([], s)"
| "run_create create (x # xs) s =
     (case create x s of
        None \<Rightarrow> None
      | Some (i, s1) \<Rightarrow> map_option (\<lambda>(is, s2). (i # is, s2)) (run_create create xs s1))"

text \<open>
  What a client may rely on: a creation in a table that is not full yields an identifier that was
  not in use and leaves the others in use; an exit releases exactly the identifier given.
\<close>

locale slot_manager =
  fixes ok :: "'s \<Rightarrow> bool" and used :: "'s \<Rightarrow> nat set" and create :: "'x \<Rightarrow> 's \<Rightarrow> (nat \<times> 's) option"
    and release :: "nat \<Rightarrow> 's \<Rightarrow> 's" and capacity :: nat
  assumes used_bound: "ok s \<Longrightarrow> finite (used s) \<and> card (used s) \<le> capacity"
    and create_fresh: "ok s \<Longrightarrow> card (used s) < capacity \<Longrightarrow>
      \<exists>i s'. create x s = Some (i, s') \<and> i \<notin> used s \<and> ok s' \<and> used s' = insert i (used s)"
    and release_used: "ok s \<Longrightarrow> i \<in> used s \<Longrightarrow> ok (release i s) \<and> used (release i s) = used s - {i}"
begin

lemma create_release:
  assumes "ok s" "create x s = Some (i, s')" "card (used s) < capacity"
  shows "ok (release i s')" "used (release i s') = used s"
  using create_fresh [OF assms(1,3), of x] assms(2) release_used [of s' i] by auto

text \<open>As many creations as there are free slots succeed, with pairwise different identifiers.\<close>

lemma create_many:
  assumes "ok s" "card (used s) + length xs \<le> capacity"
  shows "\<exists>is s'. run_create create xs s = Some (is, s') \<and> length is = length xs \<and> distinct is \<and>
    set is \<inter> used s = {} \<and> ok s' \<and> used s' = used s \<union> set is"
  using assms
proof (induction xs arbitrary: s)
  case (Cons x xs)
  obtain i s1 where s1: "create x s = Some (i, s1)" "i \<notin> used s" "ok s1" "used s1 = insert i (used s)"
    using create_fresh [OF Cons.prems(1), of x] Cons.prems(2) by auto
  have "card (used s1) + length xs \<le> capacity"
    using s1(2,4) Cons.prems(2) used_bound [OF Cons.prems(1)] by simp
  from Cons.IH [OF s1(3) this] obtain "is" s' where
    "run_create create xs s1 = Some (is, s')" "length is = length xs" "distinct is" "set is \<inter> used s1 = {}" "ok s'"
    "used s' = used s1 \<union> set is"
    by blast
  then show ?case using s1 by (intro exI [of _ "i # is"] exI [of _ s']) auto
qed simp

end

lemma live_bound: "proc_ok s \<Longrightarrow> live_pids s \<subseteq> {1..<64}"
  by (auto simp: proc_ok_def live_slots_def Suc_le_eq intro: gr0I)

lemma live_card: "proc_ok s \<Longrightarrow> card (live_pids s) \<le> 63"
  using card_mono [OF _ live_bound, of s] by simp

text \<open>Both ways a creation can end, on a well-formed table.\<close>

lemma process_create_cases:
  assumes ok: "proc_ok s"
  obtains (full) "process_create entry name s = Some (0, kprint ''ERROR: No free process slots!\<newline>'' s)" "live_pids s = {1..<64}"
  | (created) i s' where "process_create entry name s = Some (of_nat i, s')" "unat (of_nat i :: u32) = i"
      "1 \<le> i" "i < 64" "i \<notin> live_pids s" "\<forall>j. 1 \<le> j \<and> j < i \<longrightarrow> j \<in> live_pids s" "proc_ok s'" "live_pids s' = insert i (live_pids s)"
      "processes s' = add_child (current_pid s) ((processes s)[i := new_process i entry name (current_pid s) (processes s ! i)])"
      "current_pid s' = current_pid s"
      "vm s' = fold (map_stack_page 7) (two_pages (user_stack_top (of_nat i)))
         (fold (map_stack_page 7) (two_pages (kernel_stack_top (of_nat i))) (vm s))"
proof -
  have len: "length (processes s) = 64" "0 \<notin> live_pids s" using ok by (simp_all add: proc_ok_def)
  have "unat (process_count s) \<le> 63" using ok live_card [OF ok] by (simp add: proc_ok_def)
  then have cnt: "process_count s < 64" by (simp add: word_less_nat_alt)
  from len show thesis
  proof (cases rule: find_slot_cases)
    case 1: full
    then show thesis using cnt by (intro full) (auto simp: process_create_def Let_def)
  next
    case (free i)
    note eq = process_create_eq [OF free(1,3,4) cnt, of entry name]
    let ?ps = "add_child (current_pid s) ((processes s)[i := new_process i entry name (current_pid s) (processes s ! i)])"
    let ?v = "fold (map_stack_page 7) (two_pages (user_stack_top (of_nat i)))
      (fold (map_stack_page 7) (two_pages (kernel_stack_top (of_nat i))) (vm s))"
    let ?s' = "fold kprint [''Process created. PID: '', '', Name: '', name, ''\<newline>'']
      (s\<lparr>vm := ?v, processes := ?ps, process_count := process_count s + 1\<rparr>)"
    have st: "processes ?s' = ?ps" "process_count ?s' = process_count s + 1" "current_pid ?s' = current_pid s" "vm ?s' = ?v"
      by simp_all
    have "unat (of_nat i :: u32) = i" using free(1,2) by simp
    then show thesis
      by (rule created [OF eq _ free(3-6) proc_ok_create [OF ok free(3-5) st(1-3)] st(1,3,4)])
  qed
qed

text \<open>The slot of the new process and the slots of the others.\<close>

lemma create_slot:
  assumes "proc_ok s" "1 \<le> i" "i < 64"
    and ps: "processes s' = add_child (current_pid s) ((processes s)[i := new_process i entry name (current_pid s) (processes s ! i)])"
  shows "p_state (processes s' ! i) = PROCESS_READY" "p_entry (processes s' ! i) = entry" "parent_pid (processes s' ! i) = current_pid s"
    "c_string (p_name (processes s' ! i)) = take 31 (c_string name)"
    "kernel_stack (processes s' ! i) = kernel_stack_top (of_nat i)" "user_stack (processes s' ! i) = user_stack_top (of_nat i)"
    "p_context (processes s' ! i) = start_context entry (user_stack_top (of_nat i))"
    "child_count (processes s' ! i) = (if i = unat (current_pid s) then 1 else 0)"
    "p_heap_max (processes s' ! i) = p_heap_max (processes s ! i)"
    "\<And>j. j < 64 \<Longrightarrow> j \<noteq> i \<Longrightarrow> processes s' ! j =
      (if 0 < j \<and> j = unat (current_pid s) then (processes s ! j)\<lparr>child_count := child_count (processes s ! j) + 1\<rparr> else processes s ! j)"
proof -
  have len: "length (processes s) = 64" using assms(1) by (simp add: proc_ok_def)
  have nm: "length (p_name (processes s ! i)) = 32" using assms(1,3) by (simp add: proc_ok_def)
  have c: "current_pid s \<noteq> 0 \<longleftrightarrow> 0 < unat (current_pid s)" by (simp add: unat_gt_0)
  let ?n = "new_process i entry name (current_pid s) (processes s ! i)"
  have slot: "processes s' ! i = ?n\<lparr>child_count := (if i = unat (current_pid s) then 1 else 0)\<rparr>"
    using assms(2,3) len by (auto simp: ps add_child_nth new_process_fields c)
  show "c_string (p_name (processes s' ! i)) = take 31 (c_string name)"
    using copy_name_result [OF _ nm, of 0 name] by (simp add: slot new_process_fields)
  show "p_state (processes s' ! i) = PROCESS_READY" "p_entry (processes s' ! i) = entry" "parent_pid (processes s' ! i) = current_pid s"
    "kernel_stack (processes s' ! i) = kernel_stack_top (of_nat i)" "user_stack (processes s' ! i) = user_stack_top (of_nat i)"
    "p_context (processes s' ! i) = start_context entry (user_stack_top (of_nat i))"
    "child_count (processes s' ! i) = (if i = unat (current_pid s) then 1 else 0)"
    by (simp_all add: slot new_process_fields new_process_context)
  show "p_heap_max (processes s' ! i) = p_heap_max (processes s ! i)" by (simp add: slot new_process_def init_process_def Let_def)
  show "processes s' ! j =
      (if 0 < j \<and> j = unat (current_pid s) then (processes s ! j)\<lparr>child_count := child_count (processes s ! j) + 1\<rparr> else processes s ! j)"
    if "j < 64" "j \<noteq> i" for j
    using that len by (auto simp: ps add_child_nth nth_update c)
qed

lemma process_exit_live:
  assumes ok: "proc_ok s" and i: "i \<in> live_pids s"
  shows "proc_ok (process_exit (of_nat i) s)" "live_pids (process_exit (of_nat i) s) = live_pids s - {i}"
    "processes (process_exit (of_nat i) s) = (processes s)[i := (processes s ! i)\<lparr>p_state := PROCESS_TERMINATED\<rparr>]"
proof -
  have b: "1 \<le> i" "i < 64" using live_bound [OF ok] i by auto
  have u: "unat (of_nat i :: u32) = i" using b by (intro unat_of_nat_small) simp
  have len: "length (processes s) = 64" using ok by (simp add: proc_ok_def)
  have st: "p_state (processes s ! i) \<noteq> PROCESS_TERMINATED" using i by (simp add: live_slots_def)
  let ?ps = "(processes s)[i := (processes s ! i)\<lparr>p_state := PROCESS_TERMINATED\<rparr>]"
  have lt: "\<not> (of_nat i :: u32) \<ge> 64" using b u by (simp add: word_le_nat_alt)
  have eq: "process_exit (of_nat i) s =
      kprint ''\<newline>'' (kprint ''Process exited. PID: '' (s\<lparr>processes := ?ps, process_count := process_count s - 1\<rparr>))"
    using st lt u by (simp add: process_exit_def Let_def)
  show ps: "processes (process_exit (of_nat i) s) = ?ps" by (simp add: eq)
  show lv: "live_pids (process_exit (of_nat i) s) = live_pids s - {i}" using b len by (simp add: ps live_slots_update)
  have "0 < card (live_pids s)" using i by (auto simp: card_gt_0_iff)
  then have "unat (process_count s - 1) = card (live_pids s) - 1"
    using ok by (subst unat_sub) (simp_all add: proc_ok_def word_le_nat_alt)
  moreover have "\<forall>j<64. length (p_name (processes s ! j)) = 32" using ok by (simp add: proc_ok_def)
  ultimately show "proc_ok (process_exit (of_nat i) s)"
    using ok i b lv by (auto simp: proc_ok_def ps live_slots_update in_set_conv_nth nth_update eq)
qed

definition create_pid :: "u64 \<times> string \<Rightarrow> 'a kproc_scheme \<Rightarrow> (nat \<times> 'a kproc_scheme) option" where
  "create_pid x s = map_option (\<lambda>(n, s'). (unat n, s')) (process_create (fst x) (snd x) s)"

interpretation slots: slot_manager proc_ok live_pids create_pid "\<lambda>i. process_exit (of_nat i)" 63
proof
  fix s :: "'a kproc_scheme"
  assume ok: "proc_ok s"
  show "finite (live_pids s) \<and> card (live_pids s) \<le> 63" using live_card [OF ok] by simp
  fix x :: "u64 \<times> string"
  assume "card (live_pids s) < 63"
  with ok show "\<exists>i s'. create_pid x s = Some (i, s') \<and> i \<notin> live_pids s \<and> proc_ok s' \<and> live_pids s' = insert i (live_pids s)"
    by (cases rule: process_create_cases [where entry = "fst x" and name = "snd x"]) (auto simp: create_pid_def)
next
  fix s :: "'a kproc_scheme" and i
  assume "proc_ok s" "i \<in> live_pids s"
  then show "proc_ok (process_exit (of_nat i) s) \<and> live_pids (process_exit (of_nat i) s) = live_pids s - {i}"
    using process_exit_live by blast
qed

section \<open>Properties\<close>

definition blank_process :: process where
  "blank_process = \<lparr>pid = 0, p_state = PROCESS_TERMINATED, p_cr3 = 0, user_stack = 0, kernel_stack = 0,
     p_context = \<lparr>x_r15 = 0, x_r14 = 0, x_r13 = 0, x_r12 = 0, x_r11 = 0, x_r10 = 0, x_r9 = 0, x_r8 = 0, x_rdi = 0,
       x_rsi = 0, x_rbp = 0, x_rdx = 0, x_rcx = 0, x_rbx = 0, x_rax = 0, x_rip = 0, x_cs = 0, x_rflags = 0,
       x_rsp = 0, x_ss = 0\<rparr>,
     p_entry = 0, p_heap_start = 0, p_heap_end = 0, p_heap_max = 0, p_name = replicate 32 (CHR 0x00),
     parent_pid = 0, child_count = 0\<rparr>"

definition sample_proc :: kproc where
  "sample_proc = kidt.extend sample_idt
     \<lparr>processes = replicate 64 blank_process, process_count = 0, current_pid = 0, processes_addr = 0x400000\<rparr>"

lemma sample_proc_ok: "proc_ok sample_proc" "live_pids sample_proc = {}"
proof -
  show l: "live_pids sample_proc = {}"
    by (auto simp: sample_proc_def kidt.defs live_slots_def blank_process_def)
  show "proc_ok sample_proc" unfolding proc_ok_def l
    by (simp add: sample_proc_def kidt.defs) (simp add: blank_process_def)
qed

text \<open>
  C9. \<open>process_create\<close> takes the lowest free slot from 1 on, or reports that all 63 are taken. The new
  process is ready, can be looked up by its number, has the entry point and the caller as its parent, no children,
  a NUL-terminated name that is the first 31 characters of the one given, the tops of its two stacks and the start context of user mode on its own stack, all registers included. The
  caller, if it has a number, gets one child more; nothing else in the slot of another process changes; the table stays well formed; and
  no address translation changes outside the four pages of the two stacks. (If the slot of the caller is itself free, it is the new process that counts itself as a child.)
\<close>

theorem process_create_outcome:
  assumes "proc_ok s"
  shows "live_pids s = {1..<64} \<and>
      process_create entry name s = Some (0, kprint ''ERROR: No free process slots!\<newline>'' s) \<or>
    (\<exists>i s'. process_create entry name s = Some (of_nat i, s') \<and>
      1 \<le> i \<and> i < 64 \<and> i \<notin> live_pids s \<and> (\<forall>j. 1 \<le> j \<and> j < i \<longrightarrow> j \<in> live_pids s) \<and>
      proc_ok s' \<and> live_pids s' = insert i (live_pids s) \<and> process_get_by_pid (of_nat i) s' = Some i \<and> current_pid s' = current_pid s \<and>
      p_state (processes s' ! i) = PROCESS_READY \<and> p_entry (processes s' ! i) = entry \<and> parent_pid (processes s' ! i) = current_pid s \<and>
      c_string (p_name (processes s' ! i)) = take 31 (c_string name) \<and>
      kernel_stack (processes s' ! i) = kernel_stack_top (of_nat i) \<and> user_stack (processes s' ! i) = user_stack_top (of_nat i) \<and>
      p_context (processes s' ! i) = start_context entry (user_stack_top (of_nat i)) \<and>
      child_count (processes s' ! i) = (if i = unat (current_pid s) then 1 else 0) \<and>
      (\<forall>j<64. j \<noteq> i \<longrightarrow> processes s' ! j =
        (if 0 < j \<and> j = unat (current_pid s) then (processes s ! j)\<lparr>child_count := child_count (processes s ! j) + 1\<rparr> else processes s ! j)) \<and>
      (pt_ok (vm s) \<longrightarrow> pt_ok (vm s') \<and>
        (\<forall>va. vpage_of va \<notin> vpage_of ` set (two_pages (kernel_stack_top (of_nat i)) @ two_pages (user_stack_top (of_nat i))) \<longrightarrow>
          lookup_pte (vm s') va = lookup_pte (vm s) va)))"
  using assms
proof (cases rule: process_create_cases [where entry = entry and name = name])
  case full
  then show ?thesis by blast
next
  case (created i s')
  note slot = create_slot [OF assms created(3,4,9)]
  have "process_get_by_pid (of_nat i) s' = Some i"
    using slot(1) created(2,4) by (simp add: process_get_by_pid_def word_le_nat_alt)
  moreover have "pt_ok (vm s') \<and> (\<forall>va. vpage_of va \<notin> vpage_of ` set (two_pages (kernel_stack_top (of_nat i)) @ two_pages (user_stack_top (of_nat i))) \<longrightarrow>
      lookup_pte (vm s') va = lookup_pte (vm s) va)" if "pt_ok (vm s)"
    using stack_run_ok [OF that, of 7 "two_pages (kernel_stack_top (of_nat i))"]
      stack_run_ok [of "fold (map_stack_page 7) (two_pages (kernel_stack_top (of_nat i))) (vm s)" 7 "two_pages (user_stack_top (of_nat i))"]
    unfolding created(11) by (simp add: image_Un)
  ultimately show ?thesis using created(1,3-8,10) slot by (intro disjI2 exI [of _ i] exI [of _ s'] conjI) simp_all
qed

theorem process_create_outcome_witness:
  "\<exists>s'. process_create 0x400000 ''init'' sample_proc = Some (1, s') \<and> c_string (p_name (processes s' ! 1)) = ''init'' \<and>
     process_get_by_pid 1 s' = Some 1"
proof -
  obtain i s' where s': "process_create 0x400000 ''init'' sample_proc = Some (of_nat i, s')" "1 \<le> i"
    "\<forall>j. 1 \<le> j \<and> j < i \<longrightarrow> j \<in> live_pids sample_proc" "process_get_by_pid (of_nat i) s' = Some i"
    "c_string (p_name (processes s' ! i)) = take 31 (c_string ''init'')"
    using process_create_outcome [OF sample_proc_ok(1), of "0x400000" "''init''"] by (auto simp: sample_proc_ok(2))
  have "i = 1" using s'(2,3) by (auto simp: sample_proc_ok(2) dest: spec [of _ 1])
  then show ?thesis using s' by (auto simp: c_string_def)
qed

text \<open>
  \<open>process_exit\<close> terminates exactly the process named: afterwards it can no longer be found, its slot is
  free again, the count of processes is right and all other slots are unchanged. On a
  number that is out of range or not in use it does nothing.
\<close>

theorem process_exit_outcome:
  assumes "proc_ok s"
  shows "if unat n \<in> live_pids s
    then proc_ok (process_exit n s) \<and> live_pids (process_exit n s) = live_pids s - {unat n} \<and>
      process_get_by_pid n (process_exit n s) = None \<and>
      (\<forall>j. j \<noteq> unat n \<longrightarrow> processes (process_exit n s) ! j = processes s ! j)
    else process_exit n s = s"
proof (cases "unat n \<in> live_pids s")
  case True
  have len: "length (processes s) = 64" using assms by (simp add: proc_ok_def)
  note ex = process_exit_live [OF assms True, simplified]
  have "process_get_by_pid n (process_exit n s) = None"
    using True len by (simp add: process_get_by_pid_def ex(3) live_slots_def)
  then show ?thesis using True ex by (simp add: nth_update)
next
  case False
  then have "n \<ge> 64 \<or> p_state (processes s ! unat n) = PROCESS_TERMINATED"
    using assms by (auto simp: proc_ok_def live_slots_def word_le_nat_alt)
  then show ?thesis using False by (simp add: process_exit_def)
qed

theorem process_exit_outcome_witness:
  "process_exit 5 sample_proc = sample_proc \<and>
   (\<exists>s'. process_create 0x400000 ''init'' sample_proc = Some (1, s') \<and> live_pids (process_exit 1 s') = {})"
proof -
  obtain i s' where s': "process_create 0x400000 ''init'' sample_proc = Some (of_nat i, s')" "unat (of_nat i :: u32) = i" "1 \<le> i"
    "\<forall>j. 1 \<le> j \<and> j < i \<longrightarrow> j \<in> live_pids sample_proc" "proc_ok s'" "live_pids s' = insert i (live_pids sample_proc)"
    using sample_proc_ok
    by (cases rule: process_create_cases [where s = sample_proc and entry = "0x400000" and name = "''init''"]) auto
  have "i = 1" using s'(3,4) by (auto simp: sample_proc_ok(2) dest: spec [of _ 1])
  then have "live_pids (process_exit 1 s') = {}"
    using process_exit_outcome [OF s'(5), of 1] s'(6) by (simp add: sample_proc_ok(2))
  then show ?thesis
    using process_exit_outcome [OF sample_proc_ok(1), of 5] s'(1) \<open>i = 1\<close> by (simp add: sample_proc_ok(2))
qed

text \<open>
  C31. Process numbers are unique and the table holds 63 processes: any sequence of creations that
  fits succeeds, with pairwise different numbers between 1 and 63, none of which was in use
  before, and afterwards exactly the old and the new processes are alive.
\<close>

theorem process_numbers_unique:
  assumes "proc_ok s" "card (live_pids s) + length xs \<le> 63"
  shows "\<exists>is s'. run_create create_pid xs s = Some (is, s') \<and> length is = length xs \<and> distinct is \<and>
    set is \<subseteq> {1..<64} - live_pids s \<and> proc_ok s' \<and> live_pids s' = live_pids s \<union> set is"
proof -
  obtain "is" s' where r: "run_create create_pid xs s = Some (is, s')" "length is = length xs" "distinct is"
    "set is \<inter> live_pids s = {}" "proc_ok s'" "live_pids s' = live_pids s \<union> set is"
    using slots.create_many [OF assms] by blast
  have "set is \<subseteq> {1..<64}" using live_bound [OF r(5)] r(6) by blast
  then show ?thesis using r by (intro exI [of _ "is"] exI [of _ s']) auto
qed

theorem process_numbers_unique_witness:
  "\<exists>is s'. run_create create_pid (replicate 63 (0x400000, ''worker'')) sample_proc = Some (is, s') \<and>
     length is = 63 \<and> distinct is \<and> live_pids s' = {1..<64}"
proof -
  obtain "is" s' where r: "run_create create_pid (replicate 63 (0x400000, ''worker'')) sample_proc = Some (is, s')"
    "length is = 63" "distinct is" "set is \<subseteq> {1..<64}" "live_pids s' = set is"
    using process_numbers_unique [OF sample_proc_ok(1), of "replicate 63 (0x400000, ''worker'')"]
    by (auto simp: sample_proc_ok(2))
  have "set is = {1..<64}"
    using r(2-4) by (intro card_subset_eq) (simp_all add: distinct_card)
  then show ?thesis using r by auto
qed

text \<open>
  The switch to a freshly created process does not start it: \<open>context_switch\<close> takes the structure
  at \<open>context\<close> for a \<open>struct task\<close> and runs past its end, so the stack pointer is loaded from \<open>r15\<close> (0) and \<open>ds\<close> from \<open>rflags\<close> (0x202), where the
  processor raises an exception unless its tables have a data segment of that number; the process left behind has its entry
  point and heap bounds overwritten.
\<close>

theorem process_switch_misses_entry:
  assumes "proc_ok s" "process_create entry name s = Some (n, s')" "n \<noteq> 0"
    and "old < 64" "old \<noteq> unat n"
  shows "\<exists>t. process_switch old (unat n) s' = Switched t \<and> current_pid t = n \<and> c_rsp (cpu t) = 0 \<and>
    (\<forall>e. c_data_check (cpu s') 0x202 = Some e \<longrightarrow> c_status (cpu t) = Faulted e \<and> c_rip (cpu t) = c_rip (cpu s')) \<and>
    p_heap_max (processes t ! old) = switch_resume s' \<and> p_heap_end (processes t ! old) = c_rflags (cpu s')"
  using assms(1)
proof (cases rule: process_create_cases [where entry = entry and name = name])
  case full
  then show ?thesis using assms(2,3) by simp
next
  case (created i t)
  have n: "n = of_nat i" "s' = t" "unat n = i" using created(1,2) assms(2) by simp_all
  note slot = create_slot [OF assms(1) created(3,4,9)]
  have words: "proc_words (processes s' ! i) ! 0 = 0" "proc_words (processes s' ! i) ! 17 = 0x202"
    by (simp_all add: proc_words_def Let_def n(2) slot(7) start_context_def)
  have pid: "pid (processes s' ! i) = n" using created(7,8) n by (simp add: proc_ok_def)
  have len': "length (processes s') = 64" using created(7) n(2) by (simp add: proc_ok_def)
  let ?c = "(cpu s')\<lparr>c_rdi := context_addr (s'\<lparr>current_pid := n\<rparr>) old, c_rsi := context_addr (s'\<lparr>current_pid := n\<rparr>) i\<rparr>"
  obtain t' where t': "process_switch old i s' = Switched t'" "current_pid t' = n"
    "cpu t' = restore_context (proc_words (processes s' ! i)) (?c\<lparr>c_rdi := c_rsi ?c\<rparr>)"
    "p_heap_max (processes t' ! old) = switch_resume s'" "p_heap_end (processes t' ! old) = c_rflags (cpu s')"
    using pid assms(4,5) len' n(3)
    by (simp add: process_switch_def Let_def save_context_def proc_put_words_def)
  have "seg_fault (?c\<lparr>c_rdi := c_rsi ?c\<rparr>) 0x202 = c_data_check (cpu s') 0x202" by (simp add: seg_fault_def null_selector_def)
  then show ?thesis unfolding n(3) using t' restore_rsp(1) restore_bad_ds [of _ "proc_words (processes s' ! i)"] words
    by (intro exI [of _ t']) simp
qed

theorem process_switch_misses_entry_witness:
  "\<exists>s' t. process_create 0x400000 ''init'' sample_proc = Some (1, s') \<and> process_switch 0 1 s' = Switched t \<and>
     current_pid t = 1 \<and> c_rsp (cpu t) = 0"
proof -
  obtain i s' where s': "process_create 0x400000 ''init'' sample_proc = Some (of_nat i, s')" "unat (of_nat i :: u32) = i" "1 \<le> i"
    "\<forall>j. 1 \<le> j \<and> j < i \<longrightarrow> j \<in> live_pids sample_proc"
    using sample_proc_ok
    by (cases rule: process_create_cases [where s = sample_proc and entry = "0x400000" and name = "''init''"]) auto
  have "i = 1" using s'(3,4) by (auto simp: sample_proc_ok(2) dest: spec [of _ 1])
  then have c: "process_create 0x400000 ''init'' sample_proc = Some (1, s')" using s'(1) by simp
  show ?thesis using process_switch_misses_entry [OF sample_proc_ok(1) c, of 0] c by auto
qed

lemma process_init_ok:
  assumes "length (processes s) = 64" "\<forall>p\<in>set (processes s). length (p_name p) = 32"
  shows "proc_ok (process_init s)" "live_pids (process_init s) = {}"
proof -
  have ps: "processes (process_init s) = map (\<lambda>p. p\<lparr>pid := 0, p_state := PROCESS_TERMINATED\<rparr>) (processes s)"
    using assms(1) fold_update_all [of 64 "processes s" "\<lambda>p. p\<lparr>pid := 0, p_state := PROCESS_TERMINATED\<rparr>"]
    by (simp add: process_init_def Let_def)
  show l: "live_pids (process_init s) = {}" by (auto simp: ps live_slots_def)
  have "process_count (process_init s) = 0" "current_pid (process_init s) = 0" by (simp_all add: process_init_def Let_def)
  then show "proc_ok (process_init s)" using assms l by (auto simp: proc_ok_def ps)
qed

end
