(* ===== verification/User_Mode.thy ===== *)
theory User_Mode
  imports Process
begin

text \<open>
  Entering user mode: the two segment descriptors, the user stack and the switch itself, as in
  \<open>kernel/user_mode.c\<close>, \<open>kernel/user_mode.h\<close> and \<open>kernel/user_mode.asm\<close>.
\<close>

section \<open>State and operations\<close>

definition USER_CODE_SEGMENT_DESC :: u64 where "USER_CODE_SEGMENT_DESC = 0x0020980000000000"
definition USER_DATA_SEGMENT_DESC :: u64 where "USER_DATA_SEGMENT_DESC = 0x0000920000000000"

text \<open>\<open>gdt_entries\<close> is declared \<open>extern\<close>: its contents are those the boot code leaves.\<close>

record kuser = kproc +
  gdt_entries :: "u64 list"

definition setup_user_segments :: "'a kuser_scheme \<Rightarrow> 'a kuser_scheme" where
  "setup_user_segments s =
     (let s1 = s\<lparr>gdt_entries := (gdt_entries s)[3 := USER_CODE_SEGMENT_DESC]\<rparr>;
          s2 = s1\<lparr>gdt_entries := (gdt_entries s1)[4 := USER_DATA_SEGMENT_DESC]\<rparr>
      in kprint ''User mode segments added to GDT.\<newline>'' s2)"

definition user_mode_init :: "'a kuser_scheme \<Rightarrow> 'a kuser_scheme" where
  "user_mode_init s =
     (let s1 = kprint ''Initializing user mode support...\<newline>'' s;
          s2 = setup_user_segments s1
      in kprint ''User mode support initialized.\<newline>'' s2)"

text \<open>The loop over the offsets \<open>0\<close> and \<open>PAGE_SIZE\<close>; the flag tells whether it ran to its end.\<close>

fun map_user_stack :: "u64 list \<Rightarrow> 'a kmem_scheme \<Rightarrow> bool \<times> 'a kmem_scheme" where
  "map_user_stack [] s = (True, s)"
| "map_user_stack (i # is) s =
     (let (phys_page, v1) = alloc_physical_page (vm s); s1 = s\<lparr>vm := v1\<rparr>
      in if phys_page = NULL
         then (False, kprint ''ERROR: Failed to allocate physical page for user stack\<newline>'' s1)
         else
           (let (r, v2) = map_page (0x100000000 + i) phys_page (PAGE_PRESENT OR PAGE_WRITABLE OR PAGE_USER) v1;
                s2 = s1\<lparr>vm := v2\<rparr>
            in if r \<noteq> 0 then (False, kprint ''ERROR: Failed to map user stack page\<newline>'' s2)
               else map_user_stack is s2))"

text \<open>\<open>switch_to_user_mode\<close>: the segment registers, then \<open>iretq\<close> with the five values pushed.\<close>

definition switch_to_user_mode :: "u64 \<Rightarrow> u64 \<Rightarrow> cpu_regs \<Rightarrow> cpu_regs" where
  "switch_to_user_mode stack func c =
     c\<lparr>c_rdi := stack, c_rsi := func, c_rax := (c_rax c AND NOT 0xFFFF) OR 0x20,
       c_ds := 0x20, c_es := 0x20, c_fs := 0x20, c_gs := 0x20,
       c_ss := 0x20, c_rsp := stack, c_rflags := 0x202, c_cs := 0x18, c_rip := func\<rparr>"

definition enter_user_mode :: "u64 \<Rightarrow> 'a ksched_scheme \<Rightarrow> 'a ksched_scheme outcome" where
  "enter_user_mode user_function s =
     (let s1 = kprint ''Entering user mode...\<newline>'' s;
          user_stack_size = 8192;
          (user_stack_phys, v1) = alloc_physical_page (vm s1);
          user_stack_virt = 0x100000000;
          (ok, s2) = map_user_stack [0, 4096] (s1\<lparr>vm := v1\<rparr>)
      in if \<not> ok then Returned s2
         else
           (let user_stack_top = user_stack_virt + user_stack_size
            in Switched (s2\<lparr>cpu := switch_to_user_mode user_stack_top user_function (cpu s2)\<rparr>)))"

declare map_user_stack.simps [simp del]

section \<open>Privilege\<close>

text \<open>The privilege level in a descriptor (bits 45 and 46) and in a selector (bits 0 and 1).\<close>

definition desc_dpl :: "u64 \<Rightarrow> u64" where
  "desc_dpl d = drop_bit 45 d AND 3"

definition selector_rpl :: "u16 \<Rightarrow> u16" where
  "selector_rpl sel = sel AND 3"

lemma user_stack_page:
  assumes "pt_ok (vm s)" "frames_left (Suc n) (vm s)" "used (vm s) \<le> 65536 - 3 * 4096 \<or> find_pt (vm s) (0x100000000 + i) \<noteq> None"
  obtains v where
    "map_user_stack (i # is) s = map_user_stack is (s\<lparr>vm := v\<rparr>)" "pt_ok v" "frames_left n v"
    "lookup_pte v (0x100000000 + i) = Some (next_free_page (vm s) OR 7)" "find_pt v (0x100000000 + i) \<noteq> None"
    "\<forall>va. vpage_of va \<noteq> vpage_of (0x100000000 + i) \<longrightarrow> lookup_pte v va = lookup_pte (vm s) va"
    "next_free_page v = next_free_page (vm s) + 4096"
proof -
  let ?va = "0x100000000 + i" and ?m1 = "(vm s)\<lparr>next_free_page := next_free_page (vm s) + 4096\<rparr>"
  let ?r = "map_page ?va (next_free_page (vm s)) 7 ?m1"
  have al: "aligned (next_free_page (vm s))" "next_free_page (vm s) \<noteq> NULL" using assms(2) by (simp_all add: frames_left_def)
  have ok1: "pt_ok ?m1" using assms(1) by simp
  have zero: "fst ?r = 0"
    using assms(3) map_page_used(1) [OF ok1] map_page_present(1) [of ?m1 ?va] by auto
  have eq: "map_user_stack (i # is) s = map_user_stack is (s\<lparr>vm := snd ?r\<rparr>)"
    using al zero by (simp add: map_user_stack.simps alloc_physical_page_aligned split_beta Let_def)
  have "lookup_pte (snd ?r) ?va = Some (next_free_page (vm s) OR 7)"
    using map_page_lookup [OF ok1 zero] al(1) by (simp add: page_base_aligned or.assoc)
  moreover have "frames_left n (snd ?r)"
    using frames_left_Suc [OF assms(2)] by (simp add: frames_left_def)
  moreover have "\<forall>va. vpage_of va \<noteq> vpage_of ?va \<longrightarrow> lookup_pte (snd ?r) va = lookup_pte (vm s) va"
    using map_page_other [OF ok1] by simp
  ultimately show thesis using that [OF eq] map_page_ok [OF ok1] map_page_used(3) [OF ok1 zero] by simp
qed

section \<open>Properties\<close>

definition sample_user :: kuser where
  "sample_user = kproc.extend sample_proc \<lparr>gdt_entries = replicate 5 0\<rparr>"

lemma sample_user_vm: "vm sample_user = sample_mm" "length (gdt_entries sample_user) = 5"
  using sample_sched_simps(7)
  by (simp_all add: sample_user_def kproc.defs sample_proc_def kidt.defs sample_idt_def ktimer.defs
      sample_timer_def ksched.defs)

lemma user_stack_vpages:
  "walk_path 0x100001000 = walk_path 0x100000000" "vpage_of 0x100001000 \<noteq> vpage_of 0x100000000"
  by (simp_all add: walk_path_def vpage_of_def PML4_INDEX_def PDPT_INDEX_def PD_INDEX_def PT_INDEX_def drop_bit_eq_div)



end
