(* ===== verification/Syscall.thy ===== *)
theory Syscall
  imports User_Mode
begin

text \<open>
  System calls: the handler table, the handlers and the dispatcher of \<open>kernel/syscall.c\<close> and
  \<open>kernel/syscall.h\<close>, and the argument shuffling of \<open>kernel/syscall_entry.asm\<close>. The function
  \<open>syscall_register\<close> is declared but nowhere defined: it is a parameter of \<open>syscall_init\<close>.
\<close>

section \<open>State and operations\<close>

abbreviation SYSCALL_EXIT :: u64 where "SYSCALL_EXIT \<equiv> 0"
abbreviation SYSCALL_WRITE :: u64 where "SYSCALL_WRITE \<equiv> 1"
abbreviation SYSCALL_READ :: u64 where "SYSCALL_READ \<equiv> 2"
abbreviation SYSCALL_OPEN :: u64 where "SYSCALL_OPEN \<equiv> 3"
abbreviation SYSCALL_CLOSE :: u64 where "SYSCALL_CLOSE \<equiv> 4"
abbreviation SYSCALL_FORK :: u64 where "SYSCALL_FORK \<equiv> 5"
abbreviation SYSCALL_EXEC :: u64 where "SYSCALL_EXEC \<equiv> 6"
abbreviation SYSCALL_WAIT :: u64 where "SYSCALL_WAIT \<equiv> 7"
abbreviation SYSCALL_SLEEP :: u64 where "SYSCALL_SLEEP \<equiv> 8"
abbreviation SYSCALL_GETPID :: u64 where "SYSCALL_GETPID \<equiv> 9"
abbreviation SYSCALL_YIELD :: u64 where "SYSCALL_YIELD \<equiv> 10"
abbreviation MAX_SYSCALLS :: u64 where "MAX_SYSCALLS \<equiv> 128"

text \<open>The functions whose addresses can be in the table.\<close>

datatype syscall_handler =
  Sys_exit | Sys_write | Sys_read | Sys_open | Sys_close | Sys_fork | Sys_exec | Sys_wait | Sys_sleep
| Sys_getpid | Sys_yield

record ksys = kuser +
  syscall_handlers :: "syscall_handler option list"

text \<open>How a handler ends: with a value for the caller, or with the machine halted.\<close>

datatype 's sys_result = Sys_returns u64 's | Sys_halts 's

fun sys_state :: "'s sys_result \<Rightarrow> 's" where
  "sys_state (Sys_returns v s) = s"
| "sys_state (Sys_halts s) = s"

definition syscall_init ::
  "(u64 \<Rightarrow> syscall_handler \<Rightarrow> syscall_handler option list \<Rightarrow> syscall_handler option list) \<Rightarrow>
   'a ksys_scheme \<Rightarrow> 'a ksys_scheme" where
  "syscall_init syscall_register s =
     (let s1 = kprint ''Initializing system call interface...\<newline>'' s;
          t0 = fold (\<lambda>i t. t[i := None]) [0..<128] (syscall_handlers s1);
          t1 = fold (\<lambda>(n, h). syscall_register n h)
                 [(SYSCALL_EXIT, Sys_exit), (SYSCALL_WRITE, Sys_write), (SYSCALL_READ, Sys_read),
                  (SYSCALL_OPEN, Sys_open), (SYSCALL_CLOSE, Sys_close), (SYSCALL_FORK, Sys_fork),
                  (SYSCALL_EXEC, Sys_exec), (SYSCALL_WAIT, Sys_wait), (SYSCALL_SLEEP, Sys_sleep),
                  (SYSCALL_GETPID, Sys_getpid), (SYSCALL_YIELD, Sys_yield)] t0
      in kprint ''System call interface initialized with core syscalls.\<newline>'' (s1\<lparr>syscall_handlers := t1\<rparr>))"

definition sys_exit :: "u64 \<Rightarrow> 'a kproc_scheme \<Rightarrow> 'a kproc_scheme sys_result" where
  "sys_exit status s =
     (let s1 = kprint '')\<newline>'' (kprint ''System call: exit('' s);
          current = process_get_current s1
      in Sys_halts (process_exit (pid (processes s1 ! current)) s1))"

text \<open>The NUL-terminated string at an address; \<open>None\<close> if there is no terminator.\<close>

partial_function (option) string_at :: "mem \<Rightarrow> u64 \<Rightarrow> string option" where
  "string_at m a =
     (if m a = 0 then Some []
      else Option.bind (string_at m (a + 1)) (\<lambda>cs. Some (char_of (unat (m a)) # cs)))"

definition sys_write :: "u64 \<Rightarrow> u64 \<Rightarrow> u64 \<Rightarrow> 'a kmem_scheme \<Rightarrow> 'a kmem_scheme sys_result option" where
  "sys_write fd buf count s =
     (if fd \<noteq> 1 then Some (Sys_returns (-1) s)
      else if buf = 0 then Some (Sys_returns (-1) s)
      else (case string_at (heap_mem s) buf of
              None \<Rightarrow> None
            | Some cs \<Rightarrow> Some (Sys_returns count (kprint cs s))))"

definition sys_read :: "u64 \<Rightarrow> u64 \<Rightarrow> u64 \<Rightarrow> 's \<Rightarrow> 's sys_result" where
  "sys_read fd buf count s = Sys_returns (-1) s"

definition sys_open :: "u64 \<Rightarrow> u64 \<Rightarrow> u64 \<Rightarrow> 's \<Rightarrow> 's sys_result" where
  "sys_open filename flags md s = Sys_returns (-1) s"

definition sys_close :: "u64 \<Rightarrow> 's \<Rightarrow> 's sys_result" where
  "sys_close fd s = Sys_returns 0 s"

definition sys_fork :: "'s \<Rightarrow> 's sys_result" where
  "sys_fork s = Sys_returns (-1) s"

definition sys_exec :: "u64 \<Rightarrow> 's \<Rightarrow> 's sys_result" where
  "sys_exec filename s = Sys_returns (-1) s"

definition sys_wait :: "'s \<Rightarrow> 's sys_result" where
  "sys_wait s = Sys_returns (-1) s"

definition sys_sleep :: "u64 \<Rightarrow> 'a kio_scheme \<Rightarrow> 'a kio_scheme sys_result" where
  "sys_sleep n s = Sys_returns 0 (kprint '')\<newline>'' (kprint ''System call: sleep('' s))"

definition sys_getpid :: "'a kproc_scheme \<Rightarrow> 'a kproc_scheme sys_result" where
  "sys_getpid s = Sys_returns (ucast (pid (processes s ! process_get_current s))) s"

definition sys_yield :: "'a kio_scheme \<Rightarrow> 'a kio_scheme sys_result" where
  "sys_yield s = Sys_returns 0 (kprint ''System call: yield()\<newline>'' s)"

text \<open>The call through the function pointer.\<close>

fun call_handler :: "syscall_handler \<Rightarrow> u64 \<Rightarrow> u64 \<Rightarrow> u64 \<Rightarrow> u64 \<Rightarrow> u64 \<Rightarrow> u64 \<Rightarrow>
    'a ksys_scheme \<Rightarrow> 'a ksys_scheme sys_result option" where
  "call_handler Sys_exit a1 a2 a3 a4 a5 a6 s = Some (sys_exit a1 s)"
| "call_handler Sys_write a1 a2 a3 a4 a5 a6 s = sys_write a1 a2 a3 s"
| "call_handler Sys_read a1 a2 a3 a4 a5 a6 s = Some (sys_read a1 a2 a3 s)"
| "call_handler Sys_open a1 a2 a3 a4 a5 a6 s = Some (sys_open a1 a2 a3 s)"
| "call_handler Sys_close a1 a2 a3 a4 a5 a6 s = Some (sys_close a1 s)"
| "call_handler Sys_fork a1 a2 a3 a4 a5 a6 s = Some (sys_fork s)"
| "call_handler Sys_exec a1 a2 a3 a4 a5 a6 s = Some (sys_exec a1 s)"
| "call_handler Sys_wait a1 a2 a3 a4 a5 a6 s = Some (sys_wait s)"
| "call_handler Sys_sleep a1 a2 a3 a4 a5 a6 s = Some (sys_sleep a1 s)"
| "call_handler Sys_getpid a1 a2 a3 a4 a5 a6 s = Some (sys_getpid s)"
| "call_handler Sys_yield a1 a2 a3 a4 a5 a6 s = Some (sys_yield s)"

definition syscall_dispatch :: "u64 \<Rightarrow> u64 \<Rightarrow> u64 \<Rightarrow> u64 \<Rightarrow> u64 \<Rightarrow> u64 \<Rightarrow> u64 \<Rightarrow>
    'a ksys_scheme \<Rightarrow> 'a ksys_scheme sys_result option" where
  "syscall_dispatch syscall_num a1 a2 a3 a4 a5 a6 s =
     (if syscall_num \<ge> MAX_SYSCALLS then
        Some (Sys_returns (-1) (kprint ''ERROR: Invalid system call number\<newline>'' s))
      else
        (case syscall_handlers s ! unat syscall_num of
           None \<Rightarrow> Some (Sys_returns (-1) (kprint ''ERROR: No handler for system call\<newline>'' s))
         | Some handler \<Rightarrow> call_handler handler a1 a2 a3 a4 a5 a6 s))"

text \<open>
  \<open>syscall_entry\<close>: the registers at the \<open>call\<close>, which the C function takes as its seven arguments
  (the seventh is the quadword on top of the stack, the saved \<open>r11\<close>).
\<close>

definition syscall_entry :: "cpu_regs \<Rightarrow> 'a ksys_scheme \<Rightarrow> 'a ksys_scheme sys_result option" where
  "syscall_entry c s =
     (let r10 = c_rdx c; rcx = c_rsi c;
          saved_rdi = c_rdi c;
          rdi = c_rax c; rsi = rdi; rdi = saved_rdi;
          rdx = rcx; rcx = c_r8 c;
          r8 = r10; r9 = r8
      in syscall_dispatch rdi rsi rdx rcx r8 r9 (c_r11 c) s)"

section \<open>The table\<close>

text \<open>
  What \<open>syscall_register\<close> is declared for: to store the handler under its number, for
  every number in the range of the table.
\<close>

definition registers_handlers ::
  "(u64 \<Rightarrow> syscall_handler \<Rightarrow> syscall_handler option list \<Rightarrow> syscall_handler option list) \<Rightarrow> bool" where
  "registers_handlers reg \<longleftrightarrow>
     (\<forall>n h t. n < MAX_SYSCALLS \<longrightarrow> length t = 128 \<longrightarrow> reg n h t = t[unat n := Some h])"

definition core_handlers :: "syscall_handler list" where
  "core_handlers = [Sys_exit, Sys_write, Sys_read, Sys_open, Sys_close, Sys_fork, Sys_exec, Sys_wait,
     Sys_sleep, Sys_getpid, Sys_yield]"

lemma length_core: "length core_handlers = 11"
  by (simp add: core_handlers_def)

lemma register_run:
  assumes "registers_handlers reg" "length pre + m = 128" "length hs \<le> m"
  shows "fold (\<lambda>(n, h). reg n h) (zip (map of_nat [length pre..<length pre + length hs]) hs) (map Some pre @ replicate m None) =
    map Some (pre @ hs) @ replicate (m - length hs) None"
  using assms(2,3)
proof (induction hs arbitrary: pre m)
  case (Cons h hs)
  obtain m' where m: "m = Suc m'" using Cons.prems(2) by (cases m) auto
  have "unat (of_nat (length pre) :: u64) = length pre" using Cons.prems by (intro unat_of_nat_small) simp
  then have "reg (of_nat (length pre)) h (map Some pre @ replicate m None) = map Some (pre @ [h]) @ replicate m' None"
    using assms(1) Cons.prems(1) m by (simp add: registers_handlers_def word_less_nat_alt list_update_append)
  then show ?case
    using Cons.IH [of "pre @ [h]" m'] Cons.prems m by (simp add: upt_conv_Cons del: upt_Suc)
qed simp

lemma syscall_init_table:
  assumes "registers_handlers reg" "length (syscall_handlers s) = 128"
  shows "syscall_handlers (syscall_init reg s) = map Some core_handlers @ replicate 117 None"
proof -
  have clear: "fold (\<lambda>i t. t[i := None]) [0..<128] (syscall_handlers s) = replicate 128 None"
    using fold_update_all [of 128 "syscall_handlers s" "\<lambda>_. None"] assms(2) by (simp add: map_replicate_const)
  have calls: "[(SYSCALL_EXIT, Sys_exit), (SYSCALL_WRITE, Sys_write), (SYSCALL_READ, Sys_read),
      (SYSCALL_OPEN, Sys_open), (SYSCALL_CLOSE, Sys_close), (SYSCALL_FORK, Sys_fork),
      (SYSCALL_EXEC, Sys_exec), (SYSCALL_WAIT, Sys_wait), (SYSCALL_SLEEP, Sys_sleep),
      (SYSCALL_GETPID, Sys_getpid), (SYSCALL_YIELD, Sys_yield)] = zip (map of_nat [0..<11]) core_handlers"
    by (simp add: core_handlers_def upt_conv_Cons)
  have "fold (\<lambda>(n, h). reg n h) (zip (map of_nat [0..<11]) core_handlers) (replicate 128 None) =
      map Some core_handlers @ replicate 117 None"
    using register_run [OF assms(1), of "[]" 128 core_handlers] by (simp add: length_core)
  then show ?thesis by (simp only: syscall_init_def Let_def calls) (simp add: kprint_def clear)
qed

lemma sys_frame [simp]:
  "proc_ok (s\<lparr>gdt_entries := g\<rparr>) = proc_ok s" "proc_ok (t\<lparr>syscall_handlers := h\<rparr>) = proc_ok t"
  by (simp_all add: proc_ok_def)

lemma process_exit_dead:
  assumes "proc_ok s" "unat n \<notin> live_pids s"
  shows "process_exit n s = s"
proof -
  have "n \<ge> 64 \<or> p_state (processes s ! unat n) = PROCESS_TERMINATED"
    using assms by (auto simp: proc_ok_def live_slots_def word_le_nat_alt)
  then show ?thesis by (simp add: process_exit_def)
qed

lemma sys_exit_table:
  fixes s :: "'a kproc_scheme"
  assumes "proc_ok s"
  defines "cur \<equiv> unat (current_pid s)"
  shows "\<exists>t. sys_exit status s = Sys_halts t \<and> proc_ok t \<and> live_pids t = live_pids s - {cur} \<and>
    (\<forall>i<64. processes t ! i = (if i = cur \<and> i \<in> live_pids s then (processes s ! i)\<lparr>p_state := PROCESS_TERMINATED\<rparr> else processes s ! i)) \<and>
    process_count t = process_count s - (if cur \<in> live_pids s then 1 else 0) \<and> current_pid t = current_pid s"
proof -
  let ?s1 = "kprint '')\<newline>'' (kprint ''System call: exit('' s)"
  let ?n = "pid (processes s ! cur)"
  have ok: "proc_ok ?s1" and len: "length (processes s) = 64" using assms(1) by (simp_all add: proc_ok_def)
  have eq: "sys_exit status s = Sys_halts (process_exit ?n ?s1)"
    by (simp add: sys_exit_def process_get_current_def Let_def cur_def)
  show ?thesis
  proof (cases "cur \<in> live_pids s")
    case True
    then have n: "?n = of_nat cur" using assms(1) by (simp add: proc_ok_def)
    have "cur < 64" "p_state (processes s ! cur) \<noteq> PROCESS_TERMINATED" using True len by (simp_all add: live_slots_def)
    then have "process_count (process_exit (of_nat cur) ?s1) = process_count s - 1 \<and> current_pid (process_exit (of_nat cur) ?s1) = current_pid s"
      using unat_of_nat_small [of cur, where 'a = 32] by (simp add: process_exit_def Let_def word_le_nat_alt)
    then show ?thesis unfolding eq n using process_exit_live [OF ok, of cur] True len by (auto simp: nth_list_update)
  next
    case False
    have lt: "cur < 64" using assms(1) by (simp add: proc_ok_def word_less_nat_alt cur_def)
    then have "?n = of_nat cur \<or> ?n = 0" using assms(1) unfolding proc_ok_def by blast
    moreover have "unat (of_nat cur :: u32) = cur" using lt by (intro unat_of_nat_small) simp
    ultimately have "unat ?n = cur \<or> unat ?n = 0" by auto
    then have "unat ?n \<notin> live_pids ?s1" using False assms(1) by (auto simp: proc_ok_def)
    then have "process_exit ?n ?s1 = ?s1" using process_exit_dead [OF ok] by blast
    then show ?thesis unfolding eq using False assms(1) by auto
  qed
qed

lemma syscall_init_frame:
  "processes (syscall_init reg s) = processes s" "process_count (syscall_init reg s) = process_count s" "current_pid (syscall_init reg s) = current_pid s"
  by (simp_all add: syscall_init_def Let_def kprint_def)

text \<open>The dispatcher once the table has been filled.\<close>

lemma dispatch_core:
  assumes "registers_handlers reg" "length (syscall_handlers s) = 128"
  shows "syscall_dispatch n a1 a2 a3 a4 a5 a6 (syscall_init reg s) =
    (if n < 11 then call_handler (core_handlers ! unat n) a1 a2 a3 a4 a5 a6 (syscall_init reg s)
     else if n < 128 then Some (Sys_returns (-1) (kprint ''ERROR: No handler for system call\<newline>'' (syscall_init reg s)))
     else Some (Sys_returns (-1) (kprint ''ERROR: Invalid system call number\<newline>'' (syscall_init reg s))))"
proof -
  note table = syscall_init_table [OF assms]
  have "syscall_handlers (syscall_init reg s) ! unat n = (if n < 11 then Some (core_handlers ! unat n) else None)" if "n < 128"
    using that by (auto simp: table nth_append length_core word_less_nat_alt)
  then show ?thesis
    by (auto simp: syscall_dispatch_def table length_core word_less_nat_alt word_le_nat_alt split: option.splits)
qed

lemma core_handler_numbers:
  assumes "n < 11"
  shows "core_handlers ! unat n = Sys_exit \<longleftrightarrow> n = SYSCALL_EXIT" "core_handlers ! unat n = Sys_write \<longleftrightarrow> n = SYSCALL_WRITE"
proof -
  have d: "distinct core_handlers" by (simp add: core_handlers_def)
  have "core_handlers ! unat n = core_handlers ! k \<longleftrightarrow> unat n = k" if "k < 11" for k
    using that assms nth_eq_iff_index_eq [OF d, of "unat n" k] by (simp add: length_core word_less_nat_alt)
  from this [of 0] this [of 1] show "core_handlers ! unat n = Sys_exit \<longleftrightarrow> n = SYSCALL_EXIT" "core_handlers ! unat n = Sys_write \<longleftrightarrow> n = SYSCALL_WRITE"
    by (simp_all add: core_handlers_def word_unat_eq_iff)
qed

text \<open>No handler but that of \<open>exit\<close> touches the processes.\<close>

lemma handler_returns:
  assumes "h \<noteq> Sys_exit"
  shows "(h \<noteq> Sys_write \<longrightarrow> call_handler h a1 a2 a3 a4 a5 a6 s \<noteq> None) \<and>
    (\<forall>r. call_handler h a1 a2 a3 a4 a5 a6 s = Some r \<longrightarrow>
      (\<exists>v t. r = Sys_returns v t \<and> processes t = processes s \<and> process_count t = process_count s \<and> current_pid t = current_pid s))"
  using assms
  by (cases h) (auto simp: sys_write_def sys_read_def sys_open_def sys_close_def sys_fork_def sys_exec_def
      sys_wait_def sys_sleep_def sys_getpid_def sys_yield_def kprint_def split: if_splits option.splits)


section \<open>Properties\<close>

definition sample_sys :: ksys where
  "sample_sys = kuser.extend sample_user \<lparr>syscall_handlers = replicate 128 None\<rparr>"

text \<open>A registration function that does what the header promises.\<close>

definition sample_register :: "u64 \<Rightarrow> syscall_handler \<Rightarrow> syscall_handler option list \<Rightarrow> syscall_handler option list" where
  "sample_register n h t = t[unat n := Some h]"

lemma sample_register_ok: "registers_handlers sample_register"
  by (simp add: registers_handlers_def sample_register_def)

text \<open>
  C12. System call dispatch. Once \<open>syscall_init\<close> has run with a \<open>syscall_register\<close> that stores
  handlers, the numbers 0 to 10 reach their handlers with the arguments unchanged, every other number below 128 and every number from 128 on is answered
  with -1 and its own message, and no call reads outside the table.
\<close>

theorem syscall_dispatch_outcome:
  assumes "registers_handlers reg" "length (syscall_handlers s) = 128"
  defines "s' \<equiv> syscall_init reg s"
  shows "length (syscall_handlers s') = 128 \<and> syscall_dispatch n a1 a2 a3 a4 a5 a6 s' =
    (if n < 11 then call_handler (core_handlers ! unat n) a1 a2 a3 a4 a5 a6 s'
     else if n < 128 then Some (Sys_returns (-1) (kprint ''ERROR: No handler for system call\<newline>'' s'))
     else Some (Sys_returns (-1) (kprint ''ERROR: Invalid system call number\<newline>'' s')))"
  unfolding s'_def using dispatch_core [OF assms(1,2)] syscall_init_table [OF assms(1,2)] by (simp add: length_core)

theorem syscall_dispatch_outcome_witness:
  "\<exists>s'. s' = syscall_init sample_register sample_sys \<and> syscall_dispatch 9 0 0 0 0 0 0 s' = Some (Sys_returns 0 s')"
proof -
  let ?s' = "syscall_init sample_register sample_sys"
  have len: "length (syscall_handlers sample_sys) = 128" by (simp add: sample_sys_def kuser.defs)
  have "syscall_dispatch 9 0 0 0 0 0 0 ?s' = call_handler (core_handlers ! 9) 0 0 0 0 0 0 ?s'"
    using syscall_dispatch_outcome [OF sample_register_ok len, of 9] by simp
  moreover have "processes ?s' = replicate 64 blank_process" "current_pid ?s' = 0"
    by (simp_all add: syscall_init_def Let_def kprint_def sample_sys_def kuser.defs sample_user_def kproc.defs
        sample_proc_def kidt.defs)
  ultimately show ?thesis
    by (simp add: core_handlers_def sys_getpid_def process_get_current_def blank_process_def)
qed

text \<open>
  C13. System calls and the process table, after \<open>syscall_init\<close> with a \<open>syscall_register\<close> that stores handlers. Call 0, \<open>exit\<close>, halts the machine after the calling
  process, and no other, has been marked as terminated and taken off the count. Every other number, whatever the arguments, returns to its caller with the table, the count and the number of the current
  process as they were; it comes to an end for certain unless it is \<open>write\<close>, which may meet a string without a terminator.
\<close>

theorem syscall_keeps_process_table:
  assumes "registers_handlers reg" "length (syscall_handlers s) = 128" "proc_ok s"
  defines "s' \<equiv> syscall_init reg s" and "cur \<equiv> unat (current_pid s)"
  shows "(\<exists>t. syscall_dispatch SYSCALL_EXIT a1 a2 a3 a4 a5 a6 s' = Some (Sys_halts t) \<and> proc_ok t \<and> live_pids t = live_pids s - {cur} \<and>
      (\<forall>i<64. processes t ! i = (if i = cur \<and> i \<in> live_pids s then (processes s ! i)\<lparr>p_state := PROCESS_TERMINATED\<rparr> else processes s ! i)) \<and>
      process_count t = process_count s - (if cur \<in> live_pids s then 1 else 0) \<and> current_pid t = current_pid s) \<and>
    (\<forall>n. n \<noteq> SYSCALL_EXIT \<longrightarrow>
      (n \<noteq> SYSCALL_WRITE \<longrightarrow> syscall_dispatch n a1 a2 a3 a4 a5 a6 s' \<noteq> None) \<and>
      (\<forall>r. syscall_dispatch n a1 a2 a3 a4 a5 a6 s' = Some r \<longrightarrow>
        (\<exists>v t. r = Sys_returns v t \<and> processes t = processes s \<and> process_count t = process_count s \<and> current_pid t = current_pid s)))"
proof -
  note f = syscall_init_frame [of reg s, folded s'_def] and d = dispatch_core [OF assms(1,2), folded s'_def]
  have ok: "proc_ok s'" using assms(3) f by (simp add: proc_ok_def)
  have "syscall_dispatch SYSCALL_EXIT a1 a2 a3 a4 a5 a6 s' = Some (sys_exit a1 s')" by (simp add: d core_handlers_def)
  then have exit: "\<exists>t. syscall_dispatch SYSCALL_EXIT a1 a2 a3 a4 a5 a6 s' = Some (Sys_halts t) \<and> proc_ok t \<and> live_pids t = live_pids s - {cur} \<and>
      (\<forall>i<64. processes t ! i = (if i = cur \<and> i \<in> live_pids s then (processes s ! i)\<lparr>p_state := PROCESS_TERMINATED\<rparr> else processes s ! i)) \<and>
      process_count t = process_count s - (if cur \<in> live_pids s then 1 else 0) \<and> current_pid t = current_pid s"
    using sys_exit_table [OF ok, of a1] f unfolding cur_def by auto
  have rest: "(n \<noteq> SYSCALL_WRITE \<longrightarrow> syscall_dispatch n a1 a2 a3 a4 a5 a6 s' \<noteq> None) \<and>
      (\<forall>r. syscall_dispatch n a1 a2 a3 a4 a5 a6 s' = Some r \<longrightarrow>
        (\<exists>v t. r = Sys_returns v t \<and> processes t = processes s \<and> process_count t = process_count s \<and> current_pid t = current_pid s))"
    if "n \<noteq> SYSCALL_EXIT" for n
  proof (cases "n < 11")
    case True
    then have h: "core_handlers ! unat n \<noteq> Sys_exit" "n \<noteq> SYSCALL_WRITE \<longrightarrow> core_handlers ! unat n \<noteq> Sys_write"
      using core_handler_numbers that by blast+
    then show ?thesis using handler_returns [OF h(1), of a1 a2 a3 a4 a5 a6 s'] True f by (simp add: d)
  next
    case False
    then show ?thesis using f by (simp add: d)
  qed
  show ?thesis using exit rest by blast
qed

lemma sample_sys_simps:
  "length (syscall_handlers sample_sys) = 128" "proc_ok sample_sys" "live_pids sample_sys = {}"
  "processes sample_sys = replicate 64 blank_process" "current_pid sample_sys = 0"
proof -
  show "length (syscall_handlers sample_sys) = 128" "processes sample_sys = replicate 64 blank_process"
    "current_pid sample_sys = 0"
    by (simp_all add: sample_sys_def kuser.defs sample_user_def kproc.defs sample_proc_def kidt.defs)
  have "proc_ok sample_sys = proc_ok sample_proc" "live_pids sample_sys = live_pids sample_proc"
    by (simp_all add: proc_ok_def sample_sys_def kuser.defs sample_user_def kproc.defs)
  then show "proc_ok sample_sys" "live_pids sample_sys = {}" using sample_proc_ok by simp_all
qed

text \<open>A table with one process, which is running.\<close>

definition busy_sys :: ksys where
  "busy_sys = sample_sys\<lparr>processes := (processes sample_sys)[1 := blank_process\<lparr>pid := 1, p_state := PROCESS_READY\<rparr>],
     process_count := 1, current_pid := 1\<rparr>"

lemma busy_sys_simps: "length (syscall_handlers busy_sys) = 128" "live_pids busy_sys = {1}" "proc_ok busy_sys" "current_pid busy_sys = 1"
proof -
  show "length (syscall_handlers busy_sys) = 128" "current_pid busy_sys = 1" using sample_sys_simps(1) by (simp_all add: busy_sys_def)
  have ps: "processes busy_sys = (replicate 64 blank_process)[1 := blank_process\<lparr>pid := 1, p_state := PROCESS_READY\<rparr>]"
    by (simp add: busy_sys_def sample_sys_simps(4))
  show l: "live_pids busy_sys = {1}"
    by (auto simp: ps live_slots_def nth_list_update blank_process_def split: if_splits)
  have "pid (processes busy_sys ! i) = (if i = 1 then 1 else 0)" if "i < 64" for i
    using that by (simp add: ps nth_list_update blank_process_def)
  moreover have "\<forall>p\<in>set (processes busy_sys). length (p_name p) = 32"
    using set_update_subset_insert [of "replicate 64 blank_process" 1] by (fastforce simp: ps blank_process_def)
  moreover have "length (processes busy_sys) = 64" "process_count busy_sys = 1" "current_pid busy_sys = 1"
    unfolding ps by (simp_all add: busy_sys_def)
  ultimately show "proc_ok busy_sys" unfolding proc_ok_def l by simp
qed

theorem syscall_keeps_process_table_witness:
  "\<exists>t. syscall_dispatch SYSCALL_EXIT 7 0 0 0 0 0 (syscall_init sample_register busy_sys) = Some (Sys_halts t) \<and>
    live_pids busy_sys = {1} \<and> live_pids t = {} \<and> process_count t = 0"
proof -
  have "process_count busy_sys = 1" by (simp add: busy_sys_def)
  then show ?thesis
    using syscall_keeps_process_table [OF sample_register_ok busy_sys_simps(1,3), of 7 0 0 0 0 0] by (auto simp: busy_sys_simps)
qed

text \<open>
  C35. The entry code passes its arguments in the wrong order. Whatever the registers hold, the dispatcher takes the first argument of
  the caller (\<open>rdi\<close>) for the number of the system call, and its handler gets the number (\<open>rax\<close>) as the first argument, \<open>rsi\<close> as the second, \<open>r8\<close> as the third,
  \<open>rdx\<close> as the fourth and the fifth and the saved flags (\<open>r11\<close>) as the sixth. So every system call whose first argument is 0, \<open>getpid\<close> with a cleared \<open>rdi\<close> for instance,
  terminates the calling process and halts the machine.
\<close>

theorem syscall_entry_swaps_arguments:
  assumes "registers_handlers reg" "length (syscall_handlers s) = 128" "proc_ok s"
  defines "s' \<equiv> syscall_init reg s"
  shows "syscall_entry c s' =
      (if c_rdi c < 11 then call_handler (core_handlers ! unat (c_rdi c)) (c_rax c) (c_rsi c) (c_r8 c) (c_rdx c) (c_rdx c) (c_r11 c) s'
       else if c_rdi c < 128 then Some (Sys_returns (-1) (kprint ''ERROR: No handler for system call\<newline>'' s'))
       else Some (Sys_returns (-1) (kprint ''ERROR: Invalid system call number\<newline>'' s'))) \<and>
    (c_rdi c = 0 \<longrightarrow> (\<exists>t. syscall_entry c s' = Some (Sys_halts t) \<and> live_pids t = live_pids s - {unat (current_pid s)}))"
proof -
  have d: "syscall_entry c s' =
      (if c_rdi c < 11 then call_handler (core_handlers ! unat (c_rdi c)) (c_rax c) (c_rsi c) (c_r8 c) (c_rdx c) (c_rdx c) (c_r11 c) s'
       else if c_rdi c < 128 then Some (Sys_returns (-1) (kprint ''ERROR: No handler for system call\<newline>'' s'))
       else Some (Sys_returns (-1) (kprint ''ERROR: Invalid system call number\<newline>'' s')))"
    unfolding s'_def by (simp only: syscall_entry_def Let_def dispatch_core [OF assms(1,2)])
  note f = syscall_init_frame [of reg s, folded s'_def]
  have "proc_ok s'" using assms(3) f by (simp add: proc_ok_def)
  note e = sys_exit_table [OF this, of "c_rax c"]
  have "\<exists>t. syscall_entry c s' = Some (Sys_halts t) \<and> live_pids t = live_pids s - {unat (current_pid s)}" if "c_rdi c = 0"
    unfolding d using that e f by (auto simp: core_handlers_def)
  then show ?thesis using d by blast
qed

theorem syscall_entry_swaps_arguments_witness:
  "\<exists>t. syscall_entry (blank_cpu\<lparr>c_rax := 9\<rparr>) (syscall_init sample_register busy_sys) = Some (Sys_halts t) \<and> live_pids t = {}"
proof -
  have "c_rdi (blank_cpu\<lparr>c_rax := 9\<rparr>) = 0" by (simp add: blank_cpu_def)
  with syscall_entry_swaps_arguments [OF sample_register_ok busy_sys_simps(1,3), of "blank_cpu\<lparr>c_rax := 9\<rparr>"]
  obtain t where "syscall_entry (blank_cpu\<lparr>c_rax := 9\<rparr>) (syscall_init sample_register busy_sys) = Some (Sys_halts t)"
    "live_pids t = live_pids busy_sys - {unat (current_pid busy_sys)}" by blast
  then show ?thesis by (simp add: busy_sys_simps)
qed

end
