(* ===== verification/Ata.thy ===== *)
theory Ata
  imports Syscall
begin

text \<open>
  The disk driver of \<open>kernel/drivers/ata.c\<close> and \<open>kernel/drivers/ata.h\<close>: programmed I/O on the
  primary channel. A buffer of 512 bytes is a list; a read returns the bytes it stores there. The
  drive itself is described by \<open>ata_step\<close> for the properties.
\<close>

section \<open>State and operations\<close>

abbreviation ATA_REG_DATA :: u16 where "ATA_REG_DATA \<equiv> 0x1F0"
abbreviation ATA_REG_SECCOUNT0 :: u16 where "ATA_REG_SECCOUNT0 \<equiv> 0x1F2"
abbreviation ATA_REG_LBA0 :: u16 where "ATA_REG_LBA0 \<equiv> 0x1F3"
abbreviation ATA_REG_LBA1 :: u16 where "ATA_REG_LBA1 \<equiv> 0x1F4"
abbreviation ATA_REG_LBA2 :: u16 where "ATA_REG_LBA2 \<equiv> 0x1F5"
abbreviation ATA_REG_HDDEVSEL :: u16 where "ATA_REG_HDDEVSEL \<equiv> 0x1F6"
abbreviation ATA_REG_COMMAND :: u16 where "ATA_REG_COMMAND \<equiv> 0x1F7"
abbreviation ATA_REG_STATUS :: u16 where "ATA_REG_STATUS \<equiv> 0x1F7"
abbreviation ATA_CMD_READ_PIO :: u8 where "ATA_CMD_READ_PIO \<equiv> 0x20"
abbreviation ATA_CMD_WRITE_PIO :: u8 where "ATA_CMD_WRITE_PIO \<equiv> 0x30"
abbreviation ATA_CMD_IDENTIFY :: u8 where "ATA_CMD_IDENTIFY \<equiv> 0xEC"
abbreviation ATA_SR_BSY :: u8 where "ATA_SR_BSY \<equiv> 0x80"
abbreviation ATA_SR_DRDY :: u8 where "ATA_SR_DRDY \<equiv> 0x40"
abbreviation ATA_SR_DRQ :: u8 where "ATA_SR_DRQ \<equiv> 0x08"
abbreviation ATA_SR_ERR :: u8 where "ATA_SR_ERR \<equiv> 0x01"
abbreviation ATA_DEVICE_PRIMARY_MASTER :: u8 where "ATA_DEVICE_PRIMARY_MASTER \<equiv> 0xE0"
abbreviation ATA_DEVICE_PRIMARY_SLAVE :: u8 where "ATA_DEVICE_PRIMARY_SLAVE \<equiv> 0xF0"

record kata = ksys +
  ata_primary_master_exists :: int
  ata_primary_slave_exists :: int

definition kinw :: "u16 \<Rightarrow> 'a kio_scheme \<Rightarrow> u16 \<times> 'a kio_scheme" where
  "kinw port s = (let (v, c) = inw port (io s) in (v, s\<lparr>io := c\<rparr>))"

definition koutw :: "u16 \<Rightarrow> u16 \<Rightarrow> 'a kio_scheme \<Rightarrow> 'a kio_scheme" where
  "koutw port v s = s\<lparr>io := outw port v (io s)\<rparr>"

partial_function (option) ata_wait_busy :: "'a kio_scheme \<Rightarrow> 'a kio_scheme option" where
  "ata_wait_busy s =
     (case kinb ATA_REG_STATUS s of
        (v, s1) \<Rightarrow> if v AND ATA_SR_BSY \<noteq> 0 then ata_wait_busy s1 else Some s1)"

partial_function (option) ata_wait_ready :: "'a kio_scheme \<Rightarrow> 'a kio_scheme option" where
  "ata_wait_ready s =
     (case kinb ATA_REG_STATUS s of
        (v, s1) \<Rightarrow>
          if v AND ATA_SR_BSY \<noteq> 0 then ata_wait_ready s1
          else (case kinb ATA_REG_STATUS s1 of
                  (w, s2) \<Rightarrow> if w AND ATA_SR_DRDY = 0 then ata_wait_ready s2 else Some s2))"

text \<open>\<open>while (!(inb(ATA_REG_STATUS) & ATA_SR_DRQ));\<close>\<close>

partial_function (option) ata_wait_drq :: "'a kio_scheme \<Rightarrow> 'a kio_scheme option" where
  "ata_wait_drq s =
     (case kinb ATA_REG_STATUS s of
        (v, s1) \<Rightarrow> if v AND ATA_SR_DRQ = 0 then ata_wait_drq s1 else Some s1)"

definition outbs :: "(u16 \<times> u8) list \<Rightarrow> 'a kio_scheme \<Rightarrow> 'a kio_scheme" where
  "outbs pvs s = fold (\<lambda>(p, v). koutb p v) pvs s"

definition ata_identify :: "u8 \<Rightarrow> 'a kio_scheme \<Rightarrow> (int \<times> 'a kio_scheme) option" where
  "ata_identify drive s =
     Option.bind (ata_wait_busy s) (\<lambda>s1.
     Option.bind (ata_wait_ready (koutb ATA_REG_HDDEVSEL drive s1)) (\<lambda>s2.
       let s3 = outbs [(ATA_REG_SECCOUNT0, 0), (ATA_REG_LBA0, 0), (ATA_REG_LBA1, 0), (ATA_REG_LBA2, 0),
                       (ATA_REG_COMMAND, ATA_CMD_IDENTIFY)] s2;
           (st, s4) = kinb ATA_REG_STATUS s3
       in if st = 0 then Some (0, s4)
          else
            Option.bind (ata_wait_ready s4) (\<lambda>s5.
              let (status, s6) = kinb ATA_REG_STATUS s5
              in if status AND ATA_SR_ERR \<noteq> 0 then Some (0, s6)
                 else
                   Option.bind (ata_wait_drq s6) (\<lambda>s7.
                     Some (1, fold (\<lambda>_ s. snd (kinw ATA_REG_DATA s)) [0..<256] s7)))))"

text \<open>Drive selection and the parameters of a transfer of one sector.\<close>

definition ata_select :: "u8 \<Rightarrow> u32 \<Rightarrow> u8 \<Rightarrow> 'a kio_scheme \<Rightarrow> 'a kio_scheme option" where
  "ata_select drive lba cmd s =
     Option.bind (ata_wait_busy s) (\<lambda>s1.
     Option.bind (ata_wait_ready (koutb ATA_REG_HDDEVSEL (drive OR ucast (drop_bit 24 lba AND 0x0F)) s1)) (\<lambda>s2.
       Some (outbs [(ATA_REG_SECCOUNT0, 1), (ATA_REG_LBA0, ucast lba), (ATA_REG_LBA1, ucast (drop_bit 8 lba)),
                    (ATA_REG_LBA2, ucast (drop_bit 16 lba)), (ATA_REG_COMMAND, cmd)] s2)))"

fun read_words :: "nat \<Rightarrow> 'a kio_scheme \<Rightarrow> u8 list \<times> 'a kio_scheme" where
  "read_words 0 s = ([], s)"
| "read_words (Suc n) s =
     (let (w, s1) = kinw ATA_REG_DATA s; (bs, s2) = read_words n s1
      in (ucast w # ucast (drop_bit 8 w) # bs, s2))"

definition ata_read_sector :: "u8 \<Rightarrow> u32 \<Rightarrow> 'a kio_scheme \<Rightarrow> (int \<times> u8 list \<times> 'a kio_scheme) option" where
  "ata_read_sector drive lba s =
     Option.bind (ata_select drive lba ATA_CMD_READ_PIO s) (\<lambda>s1.
     Option.bind (ata_wait_ready s1) (\<lambda>s2.
       let (status, s3) = kinb ATA_REG_STATUS s2
       in if status AND ATA_SR_ERR \<noteq> 0 then Some (0, [], s3)
          else Option.bind (ata_wait_drq s3) (\<lambda>s4. let (bs, s5) = read_words 256 s4 in Some (1, bs, s5))))"

definition ata_write_sector :: "u8 \<Rightarrow> u32 \<Rightarrow> u8 list \<Rightarrow> 'a kio_scheme \<Rightarrow> (int \<times> 'a kio_scheme) option" where
  "ata_write_sector drive lba buffer s =
     Option.bind (ata_select drive lba ATA_CMD_WRITE_PIO s) (\<lambda>s1.
     Option.bind (ata_wait_ready s1) (\<lambda>s2.
       let (status, s3) = kinb ATA_REG_STATUS s2
       in if status AND ATA_SR_ERR \<noteq> 0 then Some (0, s3)
          else
            Option.bind (ata_wait_drq s3) (\<lambda>s4.
            let s5 = fold (\<lambda>i. koutw ATA_REG_DATA
                       (ucast (buffer ! (i * 2)) OR push_bit 8 (ucast (buffer ! (i * 2 + 1))))) [0..<256] s4
            in Option.bind (ata_wait_ready s5) (\<lambda>s6. Some (1, s6)))))"

definition ata_init :: "'a kata_scheme \<Rightarrow> 'a kata_scheme option" where
  "ata_init s =
     (let s1 = kprint ''Initializing ATA subsystem...\<newline>'' s
      in Option.bind (ata_identify ATA_DEVICE_PRIMARY_MASTER s1) (\<lambda>(r, s2).
           let s3 = (if r \<noteq> 0 then kprint ''ATA Primary Master detected\<newline>'' (s2\<lparr>ata_primary_master_exists := 1\<rparr>)
                     else kprint ''ATA Primary Master not detected\<newline>'' s2)
           in Option.bind (ata_identify ATA_DEVICE_PRIMARY_SLAVE s3) (\<lambda>(r, s4).
                let s5 = (if r \<noteq> 0 then kprint ''ATA Primary Slave detected\<newline>'' (s4\<lparr>ata_primary_slave_exists := 1\<rparr>)
                          else kprint ''ATA Primary Slave not detected\<newline>'' s4)
                in Some (kprint ''ATA initialization complete.\<newline>'' s5))))"

section \<open>The drive\<close>

text \<open>
  A drive on the channel as the standard describes it: task-file registers, a command that
  starts a transfer of 256 words, and the sectors, addressed by the drive and head byte and the three address bytes.
\<close>

datatype ata_phase = Idle | DataIn "u16 list" | DataOut "u16 list"

record ata =
  a_sel :: u8
  a_lba0 :: u8
  a_lba1 :: u8
  a_lba2 :: u8
  a_phase :: ata_phase
  a_disk :: "u8 \<times> u8 \<times> u8 \<times> u8 \<Rightarrow> u16 list"
  a_ident :: "u16 list"

definition a_key :: "ata \<Rightarrow> u8 \<times> u8 \<times> u8 \<times> u8" where
  "a_key d = (a_sel d, a_lba0 d, a_lba1 d, a_lba2 d)"

definition phase_in :: "u16 list \<Rightarrow> ata_phase" where
  "phase_in ws = (if ws = [] then Idle else DataIn ws)"

definition ata_command :: "u8 \<Rightarrow> ata \<Rightarrow> ata" where
  "ata_command c d =
     (if c = ATA_CMD_READ_PIO then d\<lparr>a_phase := phase_in (a_disk d (a_key d))\<rparr>
      else if c = ATA_CMD_WRITE_PIO then d\<lparr>a_phase := DataOut []\<rparr>
      else if c = ATA_CMD_IDENTIFY then d\<lparr>a_phase := phase_in (a_ident d)\<rparr> else d)"

fun ata_step :: "io_op \<Rightarrow> ata \<Rightarrow> ata" where
  "ata_step (OutB p v) d =
     (if p = 0x1F3 then d\<lparr>a_lba0 := v\<rparr> else if p = 0x1F4 then d\<lparr>a_lba1 := v\<rparr>
      else if p = 0x1F5 then d\<lparr>a_lba2 := v\<rparr> else if p = 0x1F6 then d\<lparr>a_sel := v\<rparr>
      else if p = 0x1F7 then ata_command v d else d)"
| "ata_step (InW p) d =
     (case a_phase d of
        DataIn (w # ws) \<Rightarrow> if p = 0x1F0 then d\<lparr>a_phase := phase_in ws\<rparr> else d
      | _ \<Rightarrow> d)"
| "ata_step (OutW p w) d =
     (case a_phase d of
        DataOut ws \<Rightarrow>
          if p = 0x1F0 then
            (if length ws = 255 then d\<lparr>a_phase := Idle, a_disk := (a_disk d)(a_key d := ws @ [w])\<rparr>
             else d\<lparr>a_phase := DataOut (ws @ [w])\<rparr>)
          else d
      | _ \<Rightarrow> d)"
| "ata_step _ d = d"

text \<open>The drive after a history (newest access first), and what it answers.\<close>

definition ata_dev :: "ata \<Rightarrow> io_op list \<Rightarrow> ata" where
  "ata_dev d0 l = foldr ata_step l d0"

definition ata_word :: "ata \<Rightarrow> u16" where
  "ata_word d = (case a_phase d of DataIn (w # ws) \<Rightarrow> w | _ \<Rightarrow> 0)"

definition ata_status :: "(io_op list \<Rightarrow> bool) \<Rightarrow> ata \<Rightarrow> io_op list \<Rightarrow> u8" where
  "ata_status busy d0 l =
     (if busy l then ATA_SR_BSY else if a_phase (ata_dev d0 l) = Idle then ATA_SR_DRDY else ATA_SR_DRDY OR ATA_SR_DRQ)"

text \<open>
  The drive may be busy after any access, but polling the status long enough finds it ready, and it
  then stays ready while only the status is read.
\<close>

definition ata_settles :: "(io_op list \<Rightarrow> bool) \<Rightarrow> bool" where
  "ata_settles busy \<longleftrightarrow>
     (\<forall>l. \<exists>k. \<not> busy (replicate k (InB ATA_REG_STATUS) @ l)) \<and>
     (\<forall>l. \<not> busy l \<longrightarrow> \<not> busy (InB ATA_REG_STATUS # l))"

definition ata_present :: "(io_op list \<Rightarrow> bool) \<Rightarrow> ata \<Rightarrow> 'a kio_scheme \<Rightarrow> bool" where
  "ata_present busy d0 s \<longleftrightarrow> ata_settles busy \<and>
     (\<forall>l. ucast (port_env (io s) l ATA_REG_STATUS) = ata_status busy d0 l \<and>
          port_env (io s) l ATA_REG_DATA = ata_word (ata_dev d0 l))"

abbreviation the_drive :: "ata \<Rightarrow> 'a kio_scheme \<Rightarrow> ata" where
  "the_drive d0 s \<equiv> ata_dev d0 (io_log (io s))"

text \<open>The state with another history.\<close>

definition with_log :: "io_op list \<Rightarrow> 'a kio_scheme \<Rightarrow> 'a kio_scheme" where
  "with_log l s = s\<lparr>io := (io s)\<lparr>io_log := l\<rparr>\<rparr>"

lemma with_log_simps [simp]:
  "with_log l (with_log l' s) = with_log l s" "io_log (io (with_log l s)) = l"
  "with_log (io_log (io s)) s = s" "ata_present busy d0 (with_log l s) = ata_present busy d0 s"
  "port_env (io (with_log l s)) = port_env (io s)"
  by (simp_all add: with_log_def ata_present_def)

lemma io_as_log:
  "koutb p v s = with_log (OutB p v # io_log (io s)) s" "koutw p w s = with_log (OutW p w # io_log (io s)) s"
  "kinb p s = (ucast (port_env (io s) (io_log (io s)) p), with_log (InB p # io_log (io s)) s)"
  "kinw p s = (port_env (io s) (io_log (io s)) p, with_log (InW p # io_log (io s)) s)"
  by (simp_all add: koutb_def koutw_def kinb_def kinw_def outb_def outw_def inb_def inw_def with_log_def)

lemma ata_dev_simps [simp]: "ata_dev d0 (x # l) = ata_step x (ata_dev d0 l)"
  by (simp add: ata_dev_def)

lemma status_bits:
  "ata_status busy d0 l AND ATA_SR_BSY \<noteq> 0 \<longleftrightarrow> busy l" "ata_status busy d0 l AND ATA_SR_ERR = 0"
  "ata_status busy d0 l AND ATA_SR_DRDY = 0 \<longleftrightarrow> busy l"
  "ata_status busy d0 l AND ATA_SR_DRQ = 0 \<longleftrightarrow> busy l \<or> a_phase (ata_dev d0 l) = Idle"
  by (simp_all add: ata_status_def)

lemma ata_presentD:
  assumes "ata_present busy d0 s"
  shows "ucast (port_env (io s) l ATA_REG_STATUS) = ata_status busy d0 l"
    "port_env (io s) l ATA_REG_DATA = ata_word (ata_dev d0 l)"
    "\<exists>k. \<not> busy (replicate k (InB ATA_REG_STATUS) @ l)" "\<not> busy l \<Longrightarrow> \<not> busy (InB ATA_REG_STATUS # l)"
  using assms by (auto simp: ata_present_def ata_settles_def)

text \<open>
  The three waiting loops have one contract: as long as the drive is busy they poll again, and
  on a drive that is ready they stop, so they return and leave the drive as it was.
\<close>

locale status_poll =
  fixes wait :: "'a kio_scheme \<Rightarrow> 'a kio_scheme option" and busy :: "io_op list \<Rightarrow> bool" and d0 :: ata
    and expected :: "ata \<Rightarrow> bool"
  assumes again: "ata_present busy d0 s \<Longrightarrow> busy (io_log (io s)) \<Longrightarrow>
      wait s = wait (with_log (InB ATA_REG_STATUS # io_log (io s)) s)"
    and stop: "ata_present busy d0 s \<Longrightarrow> expected (the_drive d0 s) \<Longrightarrow> \<not> busy (io_log (io s)) \<Longrightarrow>
      \<exists>l. wait s = Some (with_log l s) \<and> ata_dev d0 l = the_drive d0 s \<and> \<not> busy l"
begin

lemma returns:
  assumes "ata_present busy d0 s" "expected (the_drive d0 s)"
  shows "\<exists>l. wait s = Some (with_log l s) \<and> ata_dev d0 l = the_drive d0 s \<and> \<not> busy l"
proof -
  have "\<exists>l. wait s = Some (with_log l s) \<and> ata_dev d0 l = the_drive d0 s \<and> \<not> busy l"
    if "ata_present busy d0 s" "expected (the_drive d0 s)" "\<not> busy (replicate k (InB ATA_REG_STATUS) @ io_log (io s))"
    for k and s :: "'a kio_scheme"
    using that
  proof (induction k arbitrary: s)
    case (Suc k)
    let ?s1 = "with_log (InB ATA_REG_STATUS # io_log (io s)) s"
    show ?case
    proof (cases "busy (io_log (io s))")
      case True
      have "\<exists>l. wait ?s1 = Some (with_log l ?s1) \<and> ata_dev d0 l = the_drive d0 ?s1 \<and> \<not> busy l"
        using Suc.prems by (intro Suc.IH) (simp_all add: replicate_app_Cons_same)
      then show ?thesis using again [OF Suc.prems(1) True] by simp
    qed (rule stop [OF Suc.prems(1,2)])
  qed (simp add: stop)
  then show ?thesis using assms ata_presentD(3) [OF assms(1)] by blast
qed

end

interpretation busy_wait: status_poll ata_wait_busy busy d0 "\<lambda>_. True" for busy d0
proof
  fix s :: "'a kio_scheme"
  assume p: "ata_present busy d0 s"
  show "ata_wait_busy s = ata_wait_busy (with_log (InB ATA_REG_STATUS # io_log (io s)) s)" if "busy (io_log (io s))"
    using that by (subst ata_wait_busy.simps) (simp add: io_as_log ata_presentD(1) [OF p] status_bits)
  show "\<exists>l. ata_wait_busy s = Some (with_log l s) \<and> ata_dev d0 l = the_drive d0 s \<and> \<not> busy l" if "\<not> busy (io_log (io s))"
    using that ata_presentD(4) [OF p that]
    by (intro exI [of _ "InB ATA_REG_STATUS # io_log (io s)"], subst ata_wait_busy.simps)
      (simp add: io_as_log ata_presentD(1) [OF p] status_bits)
qed

interpretation ready_wait: status_poll ata_wait_ready busy d0 "\<lambda>_. True" for busy d0
proof
  fix s :: "'a kio_scheme"
  assume p: "ata_present busy d0 s"
  show "ata_wait_ready s = ata_wait_ready (with_log (InB ATA_REG_STATUS # io_log (io s)) s)" if "busy (io_log (io s))"
    using that by (subst ata_wait_ready.simps) (simp add: io_as_log ata_presentD(1) [OF p] status_bits)
  show "\<exists>l. ata_wait_ready s = Some (with_log l s) \<and> ata_dev d0 l = the_drive d0 s \<and> \<not> busy l" if "\<not> busy (io_log (io s))"
    using that ata_presentD(4) [OF p that] ata_presentD(4) [OF p ata_presentD(4) [OF p that]]
    by (intro exI [of _ "InB ATA_REG_STATUS # InB ATA_REG_STATUS # io_log (io s)"], subst ata_wait_ready.simps)
      (simp add: io_as_log ata_presentD(1) [OF p] status_bits)
qed

interpretation drq_wait: status_poll ata_wait_drq busy d0 "\<lambda>d. a_phase d \<noteq> Idle" for busy d0
proof
  fix s :: "'a kio_scheme"
  assume p: "ata_present busy d0 s"
  show "ata_wait_drq s = ata_wait_drq (with_log (InB ATA_REG_STATUS # io_log (io s)) s)" if "busy (io_log (io s))"
    using that by (subst ata_wait_drq.simps) (simp add: io_as_log ata_presentD(1) [OF p] status_bits)
  show "\<exists>l. ata_wait_drq s = Some (with_log l s) \<and> ata_dev d0 l = the_drive d0 s \<and> \<not> busy l"
    if "a_phase (the_drive d0 s) \<noteq> Idle" "\<not> busy (io_log (io s))"
    using that ata_presentD(4) [OF p that(2)]
    by (intro exI [of _ "InB ATA_REG_STATUS # io_log (io s)"], subst ata_wait_drq.simps)
      (simp add: io_as_log ata_presentD(1) [OF p] status_bits)
qed

section \<open>Transfers\<close>

definition sector_key :: "u8 \<Rightarrow> u32 \<Rightarrow> u8 \<times> u8 \<times> u8 \<times> u8" where
  "sector_key drive lba =
     (drive OR ucast (drop_bit 24 lba AND 0x0F), ucast lba, ucast (drop_bit 8 lba), ucast (drop_bit 16 lba))"

lemma select_returns:
  assumes p: "ata_present busy d0 s" and ph: "a_phase (the_drive d0 s) = Idle"
  shows "\<exists>l d. ata_select drive lba cmd s = Some (with_log l s) \<and> ata_dev d0 l = ata_command cmd d \<and>
    a_key d = sector_key drive lba \<and> a_phase d = Idle \<and> a_disk d = a_disk (the_drive d0 s) \<and> a_ident d = a_ident (the_drive d0 s)"
proof -
  let ?sel = "drive OR ucast (drop_bit 24 lba AND 0x0F)"
  obtain l1 where l1: "ata_wait_busy s = Some (with_log l1 s)" "ata_dev d0 l1 = the_drive d0 s"
    using busy_wait.returns [OF p] by blast
  let ?s1 = "with_log (OutB ATA_REG_HDDEVSEL ?sel # l1) s"
  obtain l2 where l2: "ata_wait_ready ?s1 = Some (with_log l2 ?s1)" "ata_dev d0 l2 = the_drive d0 ?s1"
    using ready_wait.returns [of busy d0 ?s1] p by auto
  let ?l3 = "[OutB ATA_REG_COMMAND cmd, OutB ATA_REG_LBA2 (ucast (drop_bit 16 lba)), OutB ATA_REG_LBA1 (ucast (drop_bit 8 lba)),
    OutB ATA_REG_LBA0 (ucast lba), OutB ATA_REG_SECCOUNT0 1] @ l2"
  let ?d = "(the_drive d0 s)\<lparr>a_sel := ?sel, a_lba0 := ucast lba,
      a_lba1 := ucast (drop_bit 8 lba), a_lba2 := ucast (drop_bit 16 lba)\<rparr>"
  have "ata_select drive lba cmd s = Some (with_log ?l3 s)"
    using l1(1) l2(1) by (simp add: ata_select_def outbs_def io_as_log)
  moreover have "ata_dev d0 ?l3 = ata_command cmd ?d"
    using l1(2) l2(2) by simp
  moreover have "a_key ?d = sector_key drive lba" by (simp add: a_key_def sector_key_def)
  ultimately show ?thesis using ph by (intro exI [of _ ?l3] exI [of _ ?d]) simp
qed

definition sector_bytes :: "u16 list \<Rightarrow> u8 list" where
  "sector_bytes ws = concat (map (\<lambda>w. [ucast w, ucast (drop_bit 8 w)]) ws)"

lemma phase_in_simps [simp]: "phase_in [] = Idle" "phase_in (w # ws) = DataIn (w # ws)"
  by (simp_all add: phase_in_def)

lemma read_words_returns:
  assumes "ata_present busy d0 s" "the_drive d0 s = d\<lparr>a_phase := phase_in ws\<rparr>" "length ws = n"
  shows "\<exists>l. read_words n s = (sector_bytes ws, with_log l s) \<and> ata_dev d0 l = d\<lparr>a_phase := Idle\<rparr>"
  using assms
proof (induction n arbitrary: s ws)
  case 0
  then show ?case by (intro exI [of _ "io_log (io s)"]) (simp add: sector_bytes_def)
next
  case (Suc n)
  then obtain w ws' where ws: "ws = w # ws'" "length ws' = n" by (cases ws) auto
  let ?s1 = "with_log (InW ATA_REG_DATA # io_log (io s)) s"
  have w: "kinw ATA_REG_DATA s = (w, ?s1)"
    using Suc.prems(2) by (simp add: io_as_log ata_presentD(2) [OF Suc.prems(1)] ata_word_def ws(1))
  have "the_drive d0 ?s1 = d\<lparr>a_phase := phase_in ws'\<rparr>"
    using Suc.prems(2) by (simp add: ws(1))
  then obtain l where "read_words n ?s1 = (sector_bytes ws', with_log l ?s1)" "ata_dev d0 l = d\<lparr>a_phase := Idle\<rparr>"
    using Suc.IH [of ?s1 ws'] Suc.prems(1) ws(2) by auto
  then show ?case by (intro exI [of _ l]) (simp add: w ws(1) sector_bytes_def)
qed

lemma write_words_returns:
  assumes "the_drive d0 s = d\<lparr>a_phase := DataOut acc\<rparr>" "length acc + length ws = 256" "ws \<noteq> []"
  shows "\<exists>l. fold (koutw ATA_REG_DATA) ws s = with_log l s \<and>
    ata_dev d0 l = d\<lparr>a_phase := Idle, a_disk := (a_disk d)(a_key d := acc @ ws)\<rparr>"
  using assms
proof (induction ws arbitrary: s acc)
  case (Cons w ws)
  let ?s1 = "with_log (OutW ATA_REG_DATA w # io_log (io s)) s"
  show ?case
  proof (cases "ws = []")
    case True
    then have "ata_dev d0 (OutW ATA_REG_DATA w # io_log (io s)) =
        d\<lparr>a_phase := Idle, a_disk := (a_disk d)(a_key d := acc @ w # ws)\<rparr>"
      using Cons.prems(1,2) by (simp add: a_key_def)
    moreover have "fold (koutw ATA_REG_DATA) (w # ws) s = ?s1" using True by (simp add: io_as_log)
    ultimately show ?thesis by blast
  next
    case False
    then have "length acc \<noteq> 255" using Cons.prems(2) by (cases ws) auto
    then have "the_drive d0 ?s1 = d\<lparr>a_phase := DataOut (acc @ [w])\<rparr>" using Cons.prems(1) by simp
    moreover have "length (acc @ [w]) + length ws = 256" using Cons.prems(2) by simp
    ultimately have "\<exists>l. fold (koutw ATA_REG_DATA) ws ?s1 = with_log l ?s1 \<and>
        ata_dev d0 l = d\<lparr>a_phase := Idle, a_disk := (a_disk d)(a_key d := (acc @ [w]) @ ws)\<rparr>"
      using False by (rule Cons.IH)
    moreover have "with_log l ?s1 = with_log l s" for l by simp
    moreover have "fold (koutw ATA_REG_DATA) (w # ws) s = fold (koutw ATA_REG_DATA) ws ?s1" by (simp add: io_as_log)
    moreover have "(acc @ [w]) @ ws = acc @ w # ws" by simp
    ultimately show ?thesis by metis
  qed
qed simp

lemma sector_bytes_length: "length (sector_bytes ws) = 2 * length ws"
  by (induction ws) (simp_all add: sector_bytes_def)

text \<open>The words of a buffer, and the buffer of a list of words.\<close>

definition buffer_words :: "u8 list \<Rightarrow> u16 list" where
  "buffer_words buffer =
     map (\<lambda>i. ucast (buffer ! (i * 2)) OR push_bit 8 (ucast (buffer ! (i * 2 + 1)))) [0..<256]"

lemma word_halves:
  "ucast (ucast (a :: u8) OR push_bit 8 (ucast (b :: u8)) :: u16) = a"
  "ucast (drop_bit 8 (ucast (a :: u8) OR push_bit 8 (ucast (b :: u8)) :: u16)) = b"
  by (rule bit_word_eqI; simp add: bit_simps; fastforce dest: bit_imp_le_length)+

lemma nth_sector_bytes:
  "i < length ws \<Longrightarrow> sector_bytes ws ! (i * 2) = ucast (ws ! i)"
  "i < length ws \<Longrightarrow> sector_bytes ws ! (i * 2 + 1) = ucast (drop_bit 8 (ws ! i))"
proof (induction ws arbitrary: i)
  case (Cons w ws)
  have eq: "sector_bytes (w # ws) = ucast w # ucast (drop_bit 8 w) # sector_bytes ws" by (simp add: sector_bytes_def)
  { case 1 then show ?case using Cons.IH(1) by (cases i) (simp_all add: eq) }
  { case 2 then show ?case using Cons.IH(2) by (cases i) (simp_all add: eq) }
qed simp_all

lemma buffer_words_bytes:
  assumes "length buffer = 512" shows "sector_bytes (buffer_words buffer) = buffer"
proof (rule nth_equalityI)
  have len: "length (buffer_words buffer) = 256" by (simp add: buffer_words_def)
  then show "length (sector_bytes (buffer_words buffer)) = length buffer"
    using assms by (simp add: sector_bytes_length)
  fix i assume "i < length (sector_bytes (buffer_words buffer))"
  then have i: "i div 2 < 256" using len by (simp add: sector_bytes_length)
  show "sector_bytes (buffer_words buffer) ! i = buffer ! i"
  proof (cases "even i")
    case True
    then have "sector_bytes (buffer_words buffer) ! (i div 2 * 2) = buffer ! (i div 2 * 2)"
      using i len by (simp only: nth_sector_bytes) (simp add: buffer_words_def word_halves del: drop_bit_or)
    then show ?thesis using True by simp
  next
    case False
    then have "sector_bytes (buffer_words buffer) ! (i div 2 * 2 + 1) = buffer ! (i div 2 * 2 + 1)"
      using i len by (simp only: nth_sector_bytes) (simp add: buffer_words_def word_halves del: drop_bit_or)
    then show ?thesis using False by (metis odd_two_times_div_two_succ mult.commute)
  qed
qed

lemma write_loop_words:
  "fold (\<lambda>i. koutw ATA_REG_DATA (ucast (buffer ! (i * 2)) OR push_bit 8 (ucast (buffer ! (i * 2 + 1))))) [0..<256] s =
   fold (koutw ATA_REG_DATA) (buffer_words buffer) s"
  by (simp add: buffer_words_def fold_map comp_def)

text \<open>
  From the command on, both transfers wait for the drive, look for an error, and wait for the
  data request; a command that leaves the drive with a transfer to do passes these.
\<close>

lemma command_accepted:
  assumes p: "ata_present busy d0 s" and ph: "a_phase (ata_dev d0 k) \<noteq> Idle"
  obtains l l' l'' where "ata_wait_ready (with_log k s) = Some (with_log l s)"
    "fst (kinb ATA_REG_STATUS (with_log l s)) AND ATA_SR_ERR = 0" "snd (kinb ATA_REG_STATUS (with_log l s)) = with_log l' s"
    "ata_wait_drq (with_log l' s) = Some (with_log l'' s)" "ata_dev d0 l'' = ata_dev d0 k"
proof -
  obtain l where l: "ata_wait_ready (with_log k s) = Some (with_log l s)" "ata_dev d0 l = ata_dev d0 k"
    using ready_wait.returns [of busy d0 "with_log k s"] p by auto
  let ?l' = "InB ATA_REG_STATUS # l"
  have l': "ata_dev d0 ?l' = ata_dev d0 k" by (simp add: l(2))
  have "\<exists>l''. ata_wait_drq (with_log ?l' s) = Some (with_log l'' (with_log ?l' s)) \<and>
      ata_dev d0 l'' = the_drive d0 (with_log ?l' s) \<and> \<not> busy l''"
    using p ph l' by (intro drq_wait.returns) simp_all
  then obtain l'' where "ata_wait_drq (with_log ?l' s) = Some (with_log l'' s)" "ata_dev d0 l'' = ata_dev d0 k"
    using l' by auto
  then show ?thesis
    using l(1) by (intro that [of l ?l' l'']) (simp_all add: io_as_log ata_presentD(1) [OF p] status_bits)
qed

lemma read_returns:
  assumes p: "ata_present busy d0 s" and ph: "a_phase (the_drive d0 s) = Idle"
    and len: "length (a_disk (the_drive d0 s) (sector_key drive lba)) = 256"
  shows "\<exists>l. ata_read_sector drive lba s = Some (1, sector_bytes (a_disk (the_drive d0 s) (sector_key drive lba)), with_log l s) \<and>
    a_phase (ata_dev d0 l) = Idle \<and> a_disk (ata_dev d0 l) = a_disk (the_drive d0 s)"
proof -
  let ?ws = "a_disk (the_drive d0 s) (sector_key drive lba)"
  obtain l1 d where l1: "ata_select drive lba ATA_CMD_READ_PIO s = Some (with_log l1 s)"
    and d: "ata_dev d0 l1 = ata_command ATA_CMD_READ_PIO d" "a_key d = sector_key drive lba" "a_disk d = a_disk (the_drive d0 s)"
    using select_returns [OF p ph] by blast
  have in_dev: "ata_dev d0 l1 = d\<lparr>a_phase := phase_in ?ws\<rparr>" using d by (simp add: ata_command_def)
  have "?ws \<noteq> []" using len by auto
  then have "a_phase (ata_dev d0 l1) \<noteq> Idle" using in_dev by (simp add: phase_in_def)
  then obtain l2 l3 l4 where w: "ata_wait_ready (with_log l1 s) = Some (with_log l2 s)"
    "fst (kinb ATA_REG_STATUS (with_log l2 s)) AND ATA_SR_ERR = 0" "snd (kinb ATA_REG_STATUS (with_log l2 s)) = with_log l3 s"
    "ata_wait_drq (with_log l3 s) = Some (with_log l4 s)" "ata_dev d0 l4 = ata_dev d0 l1"
    by (rule command_accepted [OF p])
  obtain l5 where l5: "read_words 256 (with_log l4 s) = (sector_bytes ?ws, with_log l5 s)" "ata_dev d0 l5 = d\<lparr>a_phase := Idle\<rparr>"
    using read_words_returns [where busy = busy and ?d0.0 = d0 and s = "with_log l4 s" and d = d and ws = ?ws and n = 256] p w(5) in_dev len by auto
  then show ?thesis
    using l1 w d(3) by (intro exI [of _ l5]) (simp add: ata_read_sector_def case_prod_unfold Let_def)
qed

lemma write_returns:
  assumes p: "ata_present busy d0 s" and ph: "a_phase (the_drive d0 s) = Idle"
  shows "\<exists>l. ata_write_sector drive lba buffer s = Some (1, with_log l s) \<and> a_phase (ata_dev d0 l) = Idle \<and>
    a_disk (ata_dev d0 l) = (a_disk (the_drive d0 s))(sector_key drive lba := buffer_words buffer)"
proof -
  obtain l1 d where l1: "ata_select drive lba ATA_CMD_WRITE_PIO s = Some (with_log l1 s)"
    and d: "ata_dev d0 l1 = ata_command ATA_CMD_WRITE_PIO d" "a_key d = sector_key drive lba" "a_disk d = a_disk (the_drive d0 s)"
    using select_returns [OF p ph] by blast
  have out_dev: "ata_dev d0 l1 = d\<lparr>a_phase := DataOut []\<rparr>" using d by (simp add: ata_command_def)
  then have "a_phase (ata_dev d0 l1) \<noteq> Idle" by simp
  then obtain l2 l3 l4 where w: "ata_wait_ready (with_log l1 s) = Some (with_log l2 s)"
    "fst (kinb ATA_REG_STATUS (with_log l2 s)) AND ATA_SR_ERR = 0" "snd (kinb ATA_REG_STATUS (with_log l2 s)) = with_log l3 s"
    "ata_wait_drq (with_log l3 s) = Some (with_log l4 s)" "ata_dev d0 l4 = ata_dev d0 l1"
    by (rule command_accepted [OF p])
  have "the_drive d0 (with_log l4 s) = d\<lparr>a_phase := DataOut []\<rparr>" "length [] + length (buffer_words buffer) = 256"
      "buffer_words buffer \<noteq> []"
    using w(5) out_dev by (simp_all add: buffer_words_def)
  then have "\<exists>l. fold (koutw ATA_REG_DATA) (buffer_words buffer) (with_log l4 s) = with_log l (with_log l4 s) \<and>
      ata_dev d0 l = d\<lparr>a_phase := Idle, a_disk := (a_disk d)(a_key d := [] @ buffer_words buffer)\<rparr>"
    by (rule write_words_returns)
  then obtain l5 where l5: "fold (koutw ATA_REG_DATA) (buffer_words buffer) (with_log l4 s) = with_log l5 s"
    "ata_dev d0 l5 = d\<lparr>a_phase := Idle, a_disk := (a_disk d)(a_key d := buffer_words buffer)\<rparr>"
    by (metis append_Nil with_log_simps(1))
  obtain l6 where l6: "ata_wait_ready (with_log l5 s) = Some (with_log l6 s)" "ata_dev d0 l6 = ata_dev d0 l5"
    using ready_wait.returns [of busy d0 "with_log l5 s"] p by auto
  have "ata_write_sector drive lba buffer s = Some (1, with_log l6 s)"
    using l1 w l5(1) l6(1) by (simp add: ata_write_sector_def write_loop_words [simplified] case_prod_unfold Let_def)
  then show ?thesis using d(2,3) l5(2) l6(2) by (intro exI [of _ l6]) (simp del: fun_upd_apply)
qed

section \<open>Identification\<close>

lemma ata_dev_cursor: "is_cursor_op x \<Longrightarrow> ata_step x d = d"
  by (cases x) auto

lemma ata_dev_dev_ops: "ata_dev d0 (dev_ops l) = ata_dev d0 l"
  by (induction l) (simp_all add: ata_dev_def dev_ops_def ata_dev_cursor)

lemma console_write_drive [simp]: "ata_dev d0 (io_log (console_write msg c)) = ata_dev d0 (io_log c)"
  by (metis ata_dev_dev_ops console_write_dev(1))

lemma kprint_present [simp]: "ata_present busy d0 (kprint msg s) = ata_present busy d0 s"
  by (simp add: ata_present_def)

lemma with_log_drive_exists [simp]:
  "ata_primary_master_exists (with_log l s) = ata_primary_master_exists s"
  "ata_primary_slave_exists (with_log l s) = ata_primary_slave_exists s"
  "ata_primary_master_exists (kprint m s) = ata_primary_master_exists s"
  "ata_primary_slave_exists (kprint m s) = ata_primary_slave_exists s"
  by (simp_all add: with_log_def kprint_def)

lemma identify_loop: "fold (\<lambda>_ s. snd (kinw ATA_REG_DATA s)) xs s = snd (read_words (length xs) s)"
  by (induction xs arbitrary: s) (simp_all add: case_prod_unfold Let_def)

text \<open>Selecting a drive for \<open>IDENTIFY\<close> sends the command to whatever drive is there.\<close>

lemma identify_returns:
  assumes p: "ata_present busy d0 s" and len: "length (a_ident (the_drive d0 s)) = 256"
  shows "\<exists>l. ata_identify drive s = Some (1, with_log l s) \<and> a_phase (ata_dev d0 l) = Idle \<and>
    a_disk (ata_dev d0 l) = a_disk (the_drive d0 s) \<and> a_ident (ata_dev d0 l) = a_ident (the_drive d0 s)"
proof -
  let ?ws = "a_ident (the_drive d0 s)"
  obtain l1 where l1: "ata_wait_busy s = Some (with_log l1 s)" "ata_dev d0 l1 = the_drive d0 s"
    using busy_wait.returns [OF p] by blast
  let ?l1 = "OutB ATA_REG_HDDEVSEL drive # l1"
  obtain l2 where l2: "ata_wait_ready (with_log ?l1 s) = Some (with_log l2 s)" "ata_dev d0 l2 = ata_dev d0 ?l1"
    using ready_wait.returns [of busy d0 "with_log ?l1 s"] p by auto
  let ?d = "(the_drive d0 s)\<lparr>a_sel := drive, a_lba0 := 0, a_lba1 := 0, a_lba2 := 0\<rparr>"
  let ?l3 = "[OutB ATA_REG_COMMAND ATA_CMD_IDENTIFY, OutB ATA_REG_LBA2 0, OutB ATA_REG_LBA1 0,
    OutB ATA_REG_LBA0 0, OutB ATA_REG_SECCOUNT0 0] @ l2"
  let ?l4 = "InB ATA_REG_STATUS # ?l3"
  have dev: "ata_dev d0 ?l4 = ?d\<lparr>a_phase := phase_in ?ws\<rparr>" using l1(2) l2(2) by (simp add: ata_command_def)
  have "?ws \<noteq> []" using len by auto
  then have "a_phase (ata_dev d0 ?l4) \<noteq> Idle" unfolding dev by (simp add: phase_in_def)
  then obtain l5 l6 l7 where w: "ata_wait_ready (with_log ?l4 s) = Some (with_log l5 s)"
    "fst (kinb ATA_REG_STATUS (with_log l5 s)) AND ATA_SR_ERR = 0" "snd (kinb ATA_REG_STATUS (with_log l5 s)) = with_log l6 s"
    "ata_wait_drq (with_log l6 s) = Some (with_log l7 s)" "ata_dev d0 l7 = ata_dev d0 ?l4"
    by (rule command_accepted [OF p])
  obtain l8 where l8: "snd (read_words 256 (with_log l7 s)) = with_log l8 s" "ata_dev d0 l8 = ?d\<lparr>a_phase := Idle\<rparr>"
    using read_words_returns [where busy = busy and ?d0.0 = d0 and s = "with_log l7 s" and d = ?d and ws = ?ws and n = 256]
      p w(5) dev len by auto
  have nz: "fst (kinb ATA_REG_STATUS (with_log ?l3 s)) \<noteq> 0" "snd (kinb ATA_REG_STATUS (with_log ?l3 s)) = with_log ?l4 s"
    by (simp_all add: io_as_log ata_presentD(1) [OF p] ata_status_def)
  have "ata_identify drive s = Some (1, with_log l8 s)"
    using l1(1) l2(1) nz w(1-4) l8(1)
    by (simp add: ata_identify_def outbs_def io_as_log(1) identify_loop case_prod_unfold Let_def)
  then show ?thesis using l8(2) by (intro exI [of _ l8]) simp
qed

lemma init_detects:
  fixes s :: "'a kata_scheme"
  assumes p: "ata_present busy d0 s" and len: "length (a_ident (the_drive d0 s)) = 256"
  shows "\<exists>s'. ata_init s = Some s' \<and> ata_primary_master_exists s' = 1 \<and> ata_primary_slave_exists s' = 1 \<and>
    a_disk (the_drive d0 s') = a_disk (the_drive d0 s)"
proof -
  let ?s1 = "kprint ''Initializing ATA subsystem...\<newline>'' s"
  obtain l1 where l1: "ata_identify ATA_DEVICE_PRIMARY_MASTER ?s1 = Some (1, with_log l1 ?s1)"
    "a_disk (ata_dev d0 l1) = a_disk (the_drive d0 s)" "a_ident (ata_dev d0 l1) = a_ident (the_drive d0 s)"
    using identify_returns [of busy d0 ?s1 ATA_DEVICE_PRIMARY_MASTER] p len by auto
  let ?s2 = "(with_log l1 ?s1)\<lparr>ata_primary_master_exists := 1\<rparr>"
  let ?s3 = "kprint ''ATA Primary Master detected\<newline>'' ?s2"
  have s3: "ata_present busy d0 ?s3" "the_drive d0 ?s3 = ata_dev d0 l1"
    using p by (simp_all add: ata_present_def)
  obtain l2 where l2: "ata_identify ATA_DEVICE_PRIMARY_SLAVE ?s3 = Some (1, with_log l2 ?s3)"
    "a_disk (ata_dev d0 l2) = a_disk (the_drive d0 s)"
    using identify_returns [of busy d0 ?s3 ATA_DEVICE_PRIMARY_SLAVE] s3 l1(2,3) len by auto
  show ?thesis using l1(1) l2 by (simp add: ata_init_def Let_def)
qed

section \<open>A drive that is not there\<close>

text \<open>Nothing in the driver but the flags of \<open>ata_init\<close> changes anything except the history of accesses.\<close>

definition logged :: "'a kio_scheme \<Rightarrow> 'a kio_scheme \<Rightarrow> bool" where
  "logged s s' \<longleftrightarrow> (\<exists>l. s' = with_log l s)"

lemma logged_refl [simp, intro]: "logged s s" "logged s (with_log l s)"
  unfolding logged_def by (metis with_log_simps(3)) blast

lemma logged_trans: "logged (with_log l s) s' \<Longrightarrow> logged s s'" "logged s s' \<Longrightarrow> logged s' s'' \<Longrightarrow> logged s s''"
  by (auto simp: logged_def)

lemma logged_env: "logged s s' \<Longrightarrow> port_env (io s') = port_env (io s)"
  by (auto simp: logged_def)

fun last_selected :: "io_op list \<Rightarrow> u8 option" where
  "last_selected [] = None"
| "last_selected (OutB p v # l) = (if p = ATA_REG_HDDEVSEL then Some v else last_selected l)"
| "last_selected (_ # l) = last_selected l"

definition drive_absent :: "u8 \<Rightarrow> 'a kio_scheme \<Rightarrow> bool" where
  "drive_absent drive s \<longleftrightarrow>
     (\<forall>l. last_selected l = Some drive \<longrightarrow> (ucast (port_env (io s) l ATA_REG_STATUS) :: u8) = 0)"

lemma wait_ready_absent:
  assumes "ata_wait_ready s = Some s'"
  shows "\<not> (drive_absent drive s \<and> last_selected (io_log (io s)) = Some drive)"
proof (rule ata_wait_ready.raw_induct [OF _ assms])
  fix f :: "'a kio_scheme \<Rightarrow> 'a kio_scheme option" and s s'
  assume IH: "\<And>s s'. f s = Some s' \<Longrightarrow> \<not> (drive_absent drive s \<and> last_selected (io_log (io s)) = Some drive)"
    and step: "(case kinb ATA_REG_STATUS s of (v, s1) \<Rightarrow>
          if v AND ATA_SR_BSY \<noteq> 0 then f s1
          else (case kinb ATA_REG_STATUS s1 of (w, s2) \<Rightarrow> if w AND ATA_SR_DRDY = 0 then f s2 else Some s2)) = Some s'"
  show "\<not> (drive_absent drive s \<and> last_selected (io_log (io s)) = Some drive)"
    using step by (auto simp: io_as_log drive_absent_def split: if_splits dest!: IH)
qed

lemma wait_busy_env:
  assumes "ata_wait_busy s = Some s'" shows "logged s s'"
  by (rule ata_wait_busy.raw_induct [OF _ assms])
    (auto simp: io_as_log split: if_splits intro: logged_trans)

lemma wait_ready_env:
  assumes "ata_wait_ready s = Some s'" shows "logged s s'"
  by (rule ata_wait_ready.raw_induct [OF _ assms])
    (auto simp: io_as_log split: if_splits intro: logged_trans)

lemma wait_drq_env:
  assumes "ata_wait_drq s = Some s'" shows "logged s s'"
  by (rule ata_wait_drq.raw_induct [OF _ assms])
    (auto simp: io_as_log split: if_splits intro: logged_trans)

lemma read_words_env: "logged s (snd (read_words n s))"
  by (induction n arbitrary: s) (auto simp: io_as_log case_prod_unfold Let_def intro: logged_trans)

lemma outbs_env: "logged s (outbs pvs s)"
  unfolding outbs_def
proof (induction pvs arbitrary: s)
  case (Cons pv pvs)
  then show ?case by (cases pv) (auto simp: io_as_log intro: logged_trans(1))
qed simp

lemma logged_ops:
  "logged s0 s \<Longrightarrow> logged s0 (koutb p v s)" "logged s0 s \<Longrightarrow> logged s0 (snd (kinb p s))"
  "logged s0 s \<Longrightarrow> logged s0 (outbs pvs s)" "logged s0 s \<Longrightarrow> logged s0 (snd (read_words n s))"
  by (auto simp: io_as_log intro: logged_trans(2) outbs_env read_words_env)

lemma logged_waits:
  "ata_wait_busy s = Some s' \<Longrightarrow> logged s0 s \<Longrightarrow> logged s0 s'"
  "ata_wait_ready s = Some s' \<Longrightarrow> logged s0 s \<Longrightarrow> logged s0 s'"
  "ata_wait_drq s = Some s' \<Longrightarrow> logged s0 s \<Longrightarrow> logged s0 s'"
  by (blast intro: logged_trans(2) wait_busy_env wait_ready_env wait_drq_env)+

lemma identify_absent:
  assumes "drive_absent drive s" shows "ata_identify drive s = None"
proof (cases "ata_wait_busy s")
  case (Some s1)
  let ?s2 = "koutb ATA_REG_HDDEVSEL drive s1"
  have "drive_absent drive ?s2" "last_selected (io_log (io ?s2)) = Some drive"
    using assms logged_env [OF wait_busy_env [OF Some]] by (simp_all add: io_as_log drive_absent_def)
  then have "ata_wait_ready ?s2 = None" using wait_ready_absent by (cases "ata_wait_ready ?s2") blast+
  then show ?thesis by (simp add: ata_identify_def Some)
qed (simp add: ata_identify_def)

lemma select_env: "ata_select drive lba cmd s = Some s' \<Longrightarrow> logged s s'"
  unfolding ata_select_def bind_eq_Some_conv option.inject
  by (blast intro: logged_ops(1,3) logged_waits(1,2))

lemma identify_env:
  assumes "ata_identify drive s = Some (r, s')" shows "logged s s'"
proof -
  let ?params = "[(ATA_REG_SECCOUNT0, 0), (ATA_REG_LBA0, 0), (ATA_REG_LBA1, 0), (ATA_REG_LBA2, 0),
    (ATA_REG_COMMAND, ATA_CMD_IDENTIFY)]"
  obtain s1 s2 where s2: "ata_wait_busy s = Some s1" "ata_wait_ready (koutb ATA_REG_HDDEVSEL drive s1) = Some s2"
    using assms by (auto simp: ata_identify_def bind_eq_Some_conv)
  let ?s4 = "snd (kinb ATA_REG_STATUS (outbs ?params s2))"
  have s4: "logged s ?s4" using s2 by (blast intro: logged_ops logged_waits)
  show ?thesis
  proof (cases "fst (kinb ATA_REG_STATUS (outbs ?params s2)) = 0")
    case True
    then show ?thesis using assms s2 s4 by (simp add: ata_identify_def case_prod_unfold Let_def)
  next
    case False
    then obtain s5 where "ata_wait_ready ?s4 = Some s5" and s': "s' = snd (kinb ATA_REG_STATUS s5) \<or>
        (\<exists>s7. ata_wait_drq (snd (kinb ATA_REG_STATUS s5)) = Some s7 \<and> s' = snd (read_words 256 s7))"
      using assms s2 by (auto simp: ata_identify_def case_prod_unfold Let_def identify_loop bind_eq_Some_conv split: if_splits)
    then have "logged s s5" using s4 by (blast intro: logged_waits)
    with s' show ?thesis by (blast intro: logged_ops logged_waits)
  qed
qed

lemma read_words_length: "length (fst (read_words n s)) = 2 * n"
  by (induction n arbitrary: s) (simp_all add: case_prod_unfold Let_def)

lemma read_words_result:
  "read_words n s = (bs, s') \<Longrightarrow> length bs = 2 * n" "read_words n s = (bs, s') \<Longrightarrow> logged s0 s \<Longrightarrow> logged s0 s'"
  using read_words_length [of n s] logged_ops(4) [of s0 s n] by auto

lemma read_sector_env:
  assumes "ata_read_sector drive lba s = Some (r, bs, s')"
  shows "logged s s' \<and> (r = 0 \<and> bs = [] \<or> r = 1 \<and> length bs = 512)"
  using assms unfolding ata_read_sector_def
  by (auto simp: bind_eq_Some_conv case_prod_unfold Let_def split: if_splits dest: read_words_result)
    (blast intro: logged_ops logged_waits select_env read_words_result)+

lemma init_absent:
  fixes s :: "'a kata_scheme"
  assumes "drive_absent ATA_DEVICE_PRIMARY_MASTER s \<or> drive_absent ATA_DEVICE_PRIMARY_SLAVE s" shows "ata_init s = None"
proof (rule ccontr)
  let ?s1 = "kprint ''Initializing ATA subsystem...\<newline>'' s"
  assume "ata_init s \<noteq> None"
  then obtain r s2 where ids: "ata_identify ATA_DEVICE_PRIMARY_MASTER ?s1 = Some (r, s2)"
    by (cases "ata_identify ATA_DEVICE_PRIMARY_MASTER ?s1") (auto simp: ata_init_def)
  let ?s3 = "if r \<noteq> 0 then kprint ''ATA Primary Master detected\<newline>'' (s2\<lparr>ata_primary_master_exists := 1\<rparr>)
             else kprint ''ATA Primary Master not detected\<newline>'' s2"
  have slave: "ata_identify ATA_DEVICE_PRIMARY_SLAVE ?s3 \<noteq> None"
    using \<open>ata_init s \<noteq> None\<close> by (auto simp: ata_init_def ids bind_eq_Some_conv)
  have "port_env (io s2) = port_env (io s)" using logged_env [OF identify_env [OF ids]] by simp
  then have "drive_absent d ?s3 = drive_absent d s" "drive_absent d ?s1 = drive_absent d s" for d
    by (simp_all add: drive_absent_def)
  then show False using assms ids slave identify_absent by (metis option.distinct(1))
qed

section \<open>Sector addresses\<close>

lemma lba_bits:
  assumes "lba < 2 ^ 28" "bit (lba :: u32) n" shows "n < 28"
proof -
  have "lba AND mask 28 = lba" using less_mask_eq [of lba 28] assms(1) by simp
  with assms(2) show ?thesis by (metis bit_and_iff bit_mask_iff)
qed

definition ata_drives :: "u8 set" where
  "ata_drives = {ATA_DEVICE_PRIMARY_MASTER, ATA_DEVICE_PRIMARY_SLAVE}"

lemma sector_key_head:
  assumes "drive \<in> ata_drives"
  shows "drive = (drive OR ucast (drop_bit 24 lba AND 0x0F)) AND 0xF0"
    "ucast (drop_bit 24 (lba :: u32) AND 0x0F) = (drive OR ucast (drop_bit 24 lba AND 0x0F)) AND (0x0F :: u8)"
proof -
  have F: "(0x0F :: u32) = mask 4" "(0x0F :: u8) = mask 4" by (simp_all add: mask_eq_exp_minus_1)
  have F0: "(0xF0 :: u8) = push_bit 4 (mask 4)" by (simp add: mask_eq_exp_minus_1)
  have hi: "drive AND 0xF0 = drive" "drive AND mask 4 = 0" using assms by (auto simp: ata_drives_def mask_eq_exp_minus_1)
  have lo: "ucast (drop_bit 24 lba AND mask 4) AND 0xF0 = (0 :: u8)" "ucast (drop_bit 24 lba AND mask 4) AND mask 4 = (ucast (drop_bit 24 lba AND mask 4) :: u8)"
    by (rule bit_word_eqI; simp add: F0 bit_simps; fastforce)+
  show "drive = (drive OR ucast (drop_bit 24 lba AND 0x0F)) AND 0xF0" 
    "ucast (drop_bit 24 (lba :: u32) AND 0x0F) = (drive OR ucast (drop_bit 24 lba AND 0x0F)) AND (0x0F :: u8)"
    unfolding F using hi lo by (simp_all add: bit.conj_disj_distrib2)
qed

lemma sector_key_inj:
  assumes k: "sector_key drive lba = sector_key drive' lba'"
    and "lba < 2 ^ 28" "lba' < 2 ^ 28" "drive \<in> ata_drives" "drive' \<in> ata_drives"
  shows "drive = drive' \<and> lba = lba'"
proof -
  have "drive = drive'"
    using k sector_key_head(1) assms(4,5) unfolding sector_key_def by (metis prod.inject)
  have "(0x0F :: u32) = mask 4" by (simp add: mask_eq_exp_minus_1)
  then have nib: "(ucast (drop_bit 24 lba AND mask 4) :: u8) = ucast (drop_bit 24 lba' AND mask 4)"
    using k sector_key_head(2) assms(4,5) unfolding sector_key_def by (metis prod.inject)
  have b: "(ucast lba :: u8) = ucast lba'" "(ucast (drop_bit 8 lba) :: u8) = ucast (drop_bit 8 lba')"
    "(ucast (drop_bit 16 lba) :: u8) = ucast (drop_bit 16 lba')"
    using k by (simp_all add: sector_key_def)
  have bytes: "n < 8 \<Longrightarrow> bit lba n = bit lba' n" "n < 8 \<Longrightarrow> bit lba (8 + n) = bit lba' (8 + n)" 
    "n < 8 \<Longrightarrow> bit lba (16 + n) = bit lba' (16 + n)" "n < 4 \<Longrightarrow> bit lba (24 + n) = bit lba' (24 + n)" for n
    using arg_cong [OF b(1), of "\<lambda>w. bit w n"] arg_cong [OF b(2), of "\<lambda>w. bit w n"] arg_cong [OF b(3), of "\<lambda>w. bit w n"]
      arg_cong [OF nib, of "\<lambda>w. bit w n"] by (auto simp: bit_simps)
  have "bit lba n = bit lba' n" if "n < 28" for n
    using that bytes [of n] bytes [of "n - 8"] bytes [of "n - 16"] bytes [of "n - 24"]
    by (cases "n < 8"; cases "n < 16"; cases "n < 24") auto
  then have "lba = lba'" by (intro bit_word_eqI) (metis lba_bits assms(2,3))
  with \<open>drive = drive'\<close> show ?thesis by simp
qed

lemma sector_key_alias: "sector_key drive (lba + 2 ^ 28) = sector_key drive lba"
proof -
  have low: "take_bit 28 (lba + 2 ^ 28) = take_bit 28 lba"
    unfolding word_unat_eq_iff unsigned_take_bit_eq take_bit_eq_mod
    by (simp add: unat_word_ariths mod_mod_cancel)
  have bits: "bit (lba + 2 ^ 28) n = bit lba n" if "n < 28" for n
    using arg_cong [OF low, of "\<lambda>w. bit w n"] that by (simp add: bit_take_bit_iff)
  have "(ucast (drop_bit k (lba + 2 ^ 28)) :: u8) = ucast (drop_bit k lba)" if "k \<le> 16" for k
    using that by (intro bit_word_eqI) (simp add: bit_simps bits [simplified])
  from this [of 0] this [of 8] this [of 16]
  have "(ucast (lba + 2 ^ 28) :: u8) = ucast lba" "(ucast (drop_bit 8 (lba + 2 ^ 28)) :: u8) = ucast (drop_bit 8 lba)"
    "(ucast (drop_bit 16 (lba + 2 ^ 28)) :: u8) = ucast (drop_bit 16 lba)" by (simp_all only: drop_bit_0 id_apply)
  moreover have "drop_bit 24 (lba + 2 ^ 28) AND mask 4 = drop_bit 24 lba AND mask 4"
    by (intro bit_word_eqI) (auto simp: bit_simps bits [simplified])
  moreover have "(0x0F :: u32) = mask 4" by (simp add: mask_eq_exp_minus_1)
  ultimately show ?thesis unfolding sector_key_def by presburger
qed

lemma write_then_read:
  assumes p: "ata_present busy d0 s" and ph: "a_phase (the_drive d0 s) = Idle" and buf: "length buffer = 512"
    and len: "\<forall>k. length (a_disk (the_drive d0 s) k) = 256"
  shows "\<exists>s1 s2. ata_write_sector drive lba buffer s = Some (1, s1) \<and>
    ata_read_sector drive' lba' s1 =
      Some (1, if sector_key drive' lba' = sector_key drive lba then buffer
               else sector_bytes (a_disk (the_drive d0 s) (sector_key drive' lba')), s2)"
proof -
  obtain l where l: "ata_write_sector drive lba buffer s = Some (1, with_log l s)" "a_phase (ata_dev d0 l) = Idle"
    "a_disk (ata_dev d0 l) = (a_disk (the_drive d0 s))(sector_key drive lba := buffer_words buffer)"
    using write_returns [OF p ph] by blast
  have "length (a_disk (ata_dev d0 l) k) = 256" for k
    unfolding l(3) using len [rule_format, of k] by (simp add: buffer_words_def)
  then obtain l' where "ata_read_sector drive' lba' (with_log l s) =
      Some (1, sector_bytes (a_disk (ata_dev d0 l) (sector_key drive' lba')), with_log l' s)"
    using read_returns [of busy d0 "with_log l s" drive' lba'] p l(2) by auto
  then show ?thesis using l(1) buf unfolding l(3) by (auto simp: buffer_words_bytes)
qed

section \<open>Properties\<close>

text \<open>A channel whose two drives hold zeroes and are busy right after every command.\<close>

definition sample_drive :: ata where
  "sample_drive = \<lparr>a_sel = 0, a_lba0 = 0, a_lba1 = 0, a_lba2 = 0, a_phase = Idle,
     a_disk = (\<lambda>_. replicate 256 0), a_ident = replicate 256 0\<rparr>"

fun sample_busy :: "io_op list \<Rightarrow> bool" where
  "sample_busy (OutB p v # l) \<longleftrightarrow> p = ATA_REG_COMMAND"
| "sample_busy _ \<longleftrightarrow> False"

definition ata_env :: "(io_op list \<Rightarrow> bool) \<Rightarrow> ata \<Rightarrow> io_op list \<Rightarrow> u16 \<Rightarrow> u16" where
  "ata_env busy d0 l p =
     (if p = ATA_REG_STATUS then ucast (ata_status busy d0 l)
      else if p = ATA_REG_DATA then ata_word (ata_dev d0 l) else 0)"

definition sample_ata :: "(io_op list \<Rightarrow> u16 \<Rightarrow> u16) \<Rightarrow> kata" where
  "sample_ata env = ksys.extend (sample_sys\<lparr>io := (io sample_sys)\<lparr>io_log := [], port_env := env\<rparr>\<rparr>)
     \<lparr>ata_primary_master_exists = 0, ata_primary_slave_exists = 0\<rparr>"

abbreviation ata_machine :: kata where
  "ata_machine \<equiv> sample_ata (ata_env sample_busy sample_drive)"

lemma sample_settles: "ata_settles sample_busy"
proof -
  have "\<exists>k. \<not> sample_busy (replicate k (InB ATA_REG_STATUS) @ l)" for l
    by (intro exI [of _ 1]) simp
  then show ?thesis by (simp add: ata_settles_def)
qed

lemma sample_ata_io: "io_log (io (sample_ata env)) = []" "port_env (io (sample_ata env)) = env"
  by (simp_all add: sample_ata_def ksys.defs)

lemma status_byte: "ucast (ucast (b :: u8) :: u16) = b"
  by (rule bit_word_eqI) (simp add: bit_simps)

lemma ata_machine_ok:
  "ata_present sample_busy sample_drive ata_machine" "the_drive sample_drive ata_machine = sample_drive"
  by (simp_all add: ata_present_def sample_settles sample_ata_io ata_env_def ata_dev_def status_byte)

text \<open>
  C17. Sector round trip. On a channel whose drives follow the standard and may be busy for any finite time
  after any access, writing 512 bytes to a sector returns 1 and a later read of a sector of either drive returns 1 with
  exactly the bytes written when it is the same sector, and with the old contents otherwise, for the
  addresses below 2^28 that the registers can hold.
\<close>

theorem ata_write_then_read:
  assumes "ata_present busy d0 s" "a_phase (the_drive d0 s) = Idle" "\<forall>k. length (a_disk (the_drive d0 s) k) = 256"
    and "length buffer = 512" "drive \<in> ata_drives" "drive' \<in> ata_drives" "lba < 2 ^ 28" "lba' < 2 ^ 28"
  shows "\<exists>s1 s2. ata_write_sector drive lba buffer s = Some (1, s1) \<and>
    ata_read_sector drive' lba' s1 =
      Some (1, if drive' = drive \<and> lba' = lba then buffer
               else sector_bytes (a_disk (the_drive d0 s) (sector_key drive' lba')), s2)"
proof -
  have "sector_key drive' lba' = sector_key drive lba \<longleftrightarrow> drive' = drive \<and> lba' = lba"
    using sector_key_inj assms(5-8) by blast
  then show ?thesis using write_then_read [OF assms(1,2,4,3), of drive lba drive' lba'] by simp
qed

theorem ata_write_then_read_witness:
  "\<exists>s1 s2. ata_write_sector ATA_DEVICE_PRIMARY_MASTER 7 (replicate 512 0xAB) ata_machine = Some (1, s1) \<and>
    ata_read_sector ATA_DEVICE_PRIMARY_MASTER 7 s1 = Some (1, replicate 512 0xAB, s2)"
  using ata_write_then_read [OF ata_machine_ok(1), of "replicate 512 0xAB" ATA_DEVICE_PRIMARY_MASTER ATA_DEVICE_PRIMARY_MASTER 7 7]
  by (simp add: ata_machine_ok(2) ata_drives_def) (simp add: sample_drive_def)

text \<open>
  Sector addresses wrap. \<open>ata_read_sector\<close> and \<open>ata_write_sector\<close> take a 32-bit address and send its
  low 28 bits without looking at the others, so a write to sector \<open>lba + 2^28\<close> succeeds and replaces sector \<open>lba\<close>.
\<close>

theorem ata_lba_wraps:
  assumes "ata_present busy d0 s" "a_phase (the_drive d0 s) = Idle" "\<forall>k. length (a_disk (the_drive d0 s) k) = 256"
    and "length buffer = 512"
  shows "\<exists>s1 s2. ata_write_sector drive (lba + 2 ^ 28) buffer s = Some (1, s1) \<and>
    ata_read_sector drive lba s1 = Some (1, buffer, s2)"
  using write_then_read [OF assms(1,2,4,3), of drive "lba + 2 ^ 28" drive lba] sector_key_alias [of drive lba] by simp

theorem ata_lba_wraps_witness:
  "\<exists>s1 s2. ata_write_sector ATA_DEVICE_PRIMARY_MASTER 0x10000007 (replicate 512 0xAB) ata_machine = Some (1, s1) \<and>
    ata_read_sector ATA_DEVICE_PRIMARY_MASTER 7 s1 = Some (1, replicate 512 0xAB, s2)"
  using ata_lba_wraps [OF ata_machine_ok(1), of "replicate 512 0xAB" ATA_DEVICE_PRIMARY_MASTER 7]
  by (simp add: ata_machine_ok(2)) (simp add: sample_drive_def)

text \<open>
  Detection. \<open>ata_init\<close> on a channel with both drives returns, sets both flags and changes no sector.
\<close>

theorem ata_init_detects:
  assumes "ata_present busy d0 s" "length (a_ident (the_drive d0 s)) = 256"
  shows "\<exists>s'. ata_init s = Some s' \<and> ata_primary_master_exists s' = 1 \<and> ata_primary_slave_exists s' = 1 \<and>
    a_disk (the_drive d0 s') = a_disk (the_drive d0 s)"
  by (rule init_detects [OF assms])

theorem ata_init_detects_witness:
  "\<exists>s'. ata_init ata_machine = Some s' \<and> ata_primary_master_exists s' = 1 \<and> ata_primary_slave_exists s' = 1"
  using ata_init_detects [OF ata_machine_ok(1)] by (simp add: ata_machine_ok(2)) (auto simp add: sample_drive_def)

text \<open>
  A drive that is not there. When a drive is missing, so that the status register reads 0 while that
  drive is selected, \<open>ata_identify\<close> waits for a ready bit that never comes, before it reaches its own
  test for a missing drive: \<open>ata_init\<close> does not return.
\<close>

theorem ata_init_absent_never_returns:
  fixes s :: "'a kata_scheme"
  assumes "drive_absent ATA_DEVICE_PRIMARY_MASTER s \<or> drive_absent ATA_DEVICE_PRIMARY_SLAVE s"
  shows "ata_init s = None"
  by (rule init_absent [OF assms])

theorem ata_init_absent_never_returns_witness: "ata_init (sample_ata (\<lambda>_ _. 0)) = None"
  by (rule ata_init_absent_never_returns) (simp add: drive_absent_def sample_ata_io)

end
