(* ===== verification/Fat.thy ===== *)
theory Fat
  imports Ata
begin

text \<open>
  The FAT driver of \<open>kernel/fs/fat.c\<close> with the structures of \<open>kernel/fs/fat.h\<close> and \<open>kernel/fs/vfs.h\<close>: mounting,
  lookup in the root directory, reading and seeking. The structures a caller passes by
  pointer are arguments and results; the FAT cache lives in the kernel heap. Line 140 of
  \<open>fat.c\<close> names a member \<open>fat16.root_entries\<close> that the structure does not have; the model reads the
  member \<open>root_entries\<close> of the boot sector.
\<close>

section \<open>Structures\<close>

abbreviation FAT_TYPE_FAT12 :: u32 where "FAT_TYPE_FAT12 \<equiv> 0"
abbreviation FAT_TYPE_FAT16 :: u32 where "FAT_TYPE_FAT16 \<equiv> 1"
abbreviation FAT_TYPE_FAT32 :: u32 where "FAT_TYPE_FAT32 \<equiv> 2"
abbreviation VFS_MODE_READ :: u32 where "VFS_MODE_READ \<equiv> 0x01"
abbreviation VFS_MAX_PATH :: nat where "VFS_MAX_PATH \<equiv> 256"

definition le16 :: "u8 list \<Rightarrow> nat \<Rightarrow> u16" where
  "le16 bs i = ucast (bs ! i) OR push_bit 8 (ucast (bs ! (i + 1)))"

definition le32 :: "u8 list \<Rightarrow> nat \<Rightarrow> u32" where
  "le32 bs i = ucast (le16 bs i) OR push_bit 16 (ucast (le16 bs (i + 2)))"

text \<open>
  The boot sector. The union of the FAT16 and the FAT32 block is the 54 bytes both are read from.
\<close>

record fat_boot_sector =
  jmp_boot :: "u8 list"
  oem_name :: "u8 list"
  bytes_per_sector :: u16
  sectors_per_cluster :: u8
  reserved_sectors :: u16
  num_fats :: u8
  root_entries :: u16
  total_sectors_16 :: u16
  media_type :: u8
  fat_size_16 :: u16
  sectors_per_track :: u16
  num_heads :: u16
  hidden_sectors :: u32
  total_sectors_32 :: u32
  ebpb :: "u8 list"
  boot_code :: "u8 list"
  boot_sig :: u16

definition segment :: "nat \<Rightarrow> nat \<Rightarrow> 'a list \<Rightarrow> 'a list" where
  "segment i n bs = take n (drop i bs)"

text \<open>\<open>memcpy(&fat_fs->boot, boot_sector, sizeof(struct fat_boot_sector))\<close> on the packed structure.\<close>

definition boot_of_bytes :: "u8 list \<Rightarrow> fat_boot_sector" where
  "boot_of_bytes bs =
     \<lparr>jmp_boot = segment 0 3 bs, oem_name = segment 3 8 bs, bytes_per_sector = le16 bs 11,
      sectors_per_cluster = bs ! 13, reserved_sectors = le16 bs 14, num_fats = bs ! 16,
      root_entries = le16 bs 17, total_sectors_16 = le16 bs 19, media_type = bs ! 21, fat_size_16 = le16 bs 22,
      sectors_per_track = le16 bs 24, num_heads = le16 bs 26, hidden_sectors = le32 bs 28,
      total_sectors_32 = le32 bs 32, ebpb = segment 36 54 bs, boot_code = segment 90 420 bs, boot_sig = le16 bs 510\<rparr>"

definition fat_size_32 :: "fat_boot_sector \<Rightarrow> u32" where
  "fat_size_32 b = le32 (ebpb b) 0"

definition fat32_root_cluster :: "fat_boot_sector \<Rightarrow> u32" where
  "fat32_root_cluster b = le32 (ebpb b) 8"

record fat_dirent =
  d_name :: "u8 list"
  d_attr :: u8
  nt_res :: u8
  crt_time_tenth :: u8
  crt_time :: u16
  crt_date :: u16
  acc_date :: u16
  fst_clus_hi :: u16
  wrt_time :: u16
  wrt_date :: u16
  fst_clus_lo :: u16
  d_file_size :: u32

definition dirent_of_bytes :: "u8 list \<Rightarrow> fat_dirent" where
  "dirent_of_bytes bs =
     \<lparr>d_name = take 11 bs, d_attr = bs ! 11, nt_res = bs ! 12, crt_time_tenth = bs ! 13, crt_time = le16 bs 14,
      crt_date = le16 bs 16, acc_date = le16 bs 18, fst_clus_hi = le16 bs 20, wrt_time = le16 bs 22,
      wrt_date = le16 bs 24, fst_clus_lo = le16 bs 26, d_file_size = le32 bs 28\<rparr>"

record fat_filesystem =
  boot :: fat_boot_sector
  fat_start :: u32
  fat_size :: u32
  root_start :: u32
  root_cluster :: u32
  data_start :: u32
  cluster_count :: u32
  cluster_size :: u32
  fat_type :: u32
  fat :: u64

record vfs_file =
  f_path :: "u8 list"
  f_flags :: u32
  f_position :: u32
  f_size :: u32
  f_attributes :: u32
  private_data :: u64

record fat_file =
  first_cluster :: u32
  current_cluster :: u32
  cluster_offset :: u32

text \<open>
  How a run goes wrong beyond returning 0: a division by a zero field of the boot sector, or an
  access behind the end of a fixed-size buffer. \<open>None\<close> is a run that does not end.
\<close>

datatype fault = DivideError | BufferOverrun

type_synonym 'r run = "(fault + 'r) option"

section \<open>Helpers\<close>

definition cluster_to_sector :: "fat_filesystem \<Rightarrow> u32 \<Rightarrow> u32" where
  "cluster_to_sector fs cluster =
     (if cluster < 2 then 0 else data_start fs + (cluster - 2) * ucast (sectors_per_cluster (boot fs)))"

definition overwrite :: "nat \<Rightarrow> 'a list \<Rightarrow> 'a list \<Rightarrow> 'a list" where
  "overwrite i bs buf = take i buf @ bs @ drop (i + length bs) buf"

text \<open>The loop over the sectors of a cluster, for the indices that are left; \<open>buf\<close> is the caller's buffer.\<close>

fun read_sectors :: "u32 \<Rightarrow> nat list \<Rightarrow> u8 list \<Rightarrow> 'a kata_scheme \<Rightarrow> (int \<times> u8 list \<times> 'a kata_scheme) run" where
  "read_sectors sector [] buf s = Some (Inr (1, buf, s))"
| "read_sectors sector (i # is) buf s =
     (case ata_read_sector ATA_DEVICE_PRIMARY_MASTER (sector + of_nat i) s of
        None \<Rightarrow> None
      | Some (r, bs, s1) \<Rightarrow>
          if r = 0 then Some (Inr (0, buf, s1))
          else if length buf < i * 512 + length bs then Some (Inl BufferOverrun)
          else read_sectors sector is (overwrite (i * 512) bs buf) s1)"

definition read_cluster :: "fat_filesystem \<Rightarrow> u32 \<Rightarrow> u8 list \<Rightarrow> 'a kata_scheme \<Rightarrow> (int \<times> u8 list \<times> 'a kata_scheme) run" where
  "read_cluster fs cluster buf s =
     read_sectors (cluster_to_sector fs cluster) [0..<unat (sectors_per_cluster (boot fs))] buf s"

definition read_fat_entry :: "fat_filesystem \<Rightarrow> mem \<Rightarrow> u32 \<Rightarrow> u32" where
  "read_fat_entry fs m cluster =
     (if fat_type fs = FAT_TYPE_FAT32 then rd32 m (fat fs + 4 * ucast cluster) AND 0x0FFFFFFF
      else if fat_type fs = FAT_TYPE_FAT16 then of_nat (rd_le 2 (fat fs + 2 * ucast cluster) m)
      else 0)"

section \<open>Lookup\<close>

definition to_upper :: "u8 \<Rightarrow> u8" where
  "to_upper c = (if 0x61 \<le> c \<and> c \<le> 0x7A then c - 32 else c)"

text \<open>The 8.3 name of a C string: the part before the first dot, and what follows it, in their columns.\<close>

definition fat_name :: "u8 list \<Rightarrow> u8 list" where
  "fat_name filename =
     (let stem = takeWhile (\<lambda>c. c \<noteq> 0x2E) filename;
          name_len = min 8 (length stem);
          n1 = fold (\<lambda>i n. n[i := filename ! i]) [0..<name_len] (replicate 11 0x20);
          n2 = (if length stem < length filename then
                  let ext = drop (length stem + 1) filename
                  in fold (\<lambda>i n. n[8 + i := ext ! i]) [0..<min 3 (length ext)] n1
                else n1)
      in fold (\<lambda>i n. n[i := to_upper (n ! i)]) [0..<11] n2)"

datatype scan_result = EndOfDir | Found fat_dirent | NotHere | PastBuffer

fun scan_entries :: "u8 list \<Rightarrow> u8 list \<Rightarrow> nat list \<Rightarrow> scan_result" where
  "scan_entries name buf [] = NotHere"
| "scan_entries name buf (i # is) =
     (if length buf < i * 32 + 32 then PastBuffer
      else let e = segment (i * 32) 32 buf
           in if e ! 0 = 0x00 then EndOfDir
              else if e ! 0 = 0xE5 then scan_entries name buf is
              else if take 11 e = name then Found (dirent_of_bytes e)
              else scan_entries name buf is)"

partial_function (option) lookup_loop ::
    "fat_filesystem \<Rightarrow> u8 list \<Rightarrow> u32 \<Rightarrow> u8 list \<Rightarrow> 'a kata_scheme \<Rightarrow> (fat_dirent option \<times> 'a kata_scheme) run" where
  "lookup_loop fs name cluster buf s =
     (if cluster < cluster_count fs + 2 then
        Option.bind (read_cluster fs cluster buf s) (\<lambda>r. case r of
            Inl e \<Rightarrow> Some (Inl e)
          | Inr (ok, buf1, s1) \<Rightarrow>
              if ok = 0 then Some (Inr (None, s1))
              else (case scan_entries name buf1 [0..<unat (cluster_size fs) div 32] of
                      EndOfDir \<Rightarrow> Some (Inr (None, s1))
                    | Found d \<Rightarrow> Some (Inr (Some d, s1))
                    | PastBuffer \<Rightarrow> Some (Inl BufferOverrun)
                    | NotHere \<Rightarrow>
                        let nxt = read_fat_entry fs (heap_mem s1) cluster
                        in if 0x0FFFFFF8 \<le> nxt then Some (Inr (None, s1)) else lookup_loop fs name nxt buf1 s1))
      else Some (Inr (None, s)))"

text \<open>\<open>buf\<close> is what the stack happens to hold where \<open>cluster_buffer[4096]\<close> is.\<close>

definition lookup_file_in_dir ::
    "fat_filesystem \<Rightarrow> u32 \<Rightarrow> u8 list \<Rightarrow> u8 list \<Rightarrow> 'a kata_scheme \<Rightarrow> (fat_dirent option \<times> 'a kata_scheme) run" where
  "lookup_file_in_dir fs dir_cluster filename buf s = lookup_loop fs (fat_name filename) dir_cluster buf s"

section \<open>Mounting\<close>

text \<open>The geometry \<open>fat_mount\<close> computes from the boot sector, up to the type of the file system.\<close>

definition fat_geometry :: "fat_filesystem \<Rightarrow> fault + fat_filesystem" where
  "fat_geometry fs =
     (let b = boot fs;
          bps = ucast (bytes_per_sector b) :: u32;
          spc = ucast (sectors_per_cluster b) :: u32
      in if bps = 0 then Inl DivideError
         else
           let root_dir_sectors = (ucast (root_entries b) * 32 + (bps - 1)) div bps;
               fsize = (if fat_size_16 b = 0 then fat_size_32 b else ucast (fat_size_16 b));
               total_sectors = (if total_sectors_16 b = 0 then total_sectors_32 b else ucast (total_sectors_16 b));
               fs1 = fs\<lparr>fat_start := ucast (reserved_sectors b)\<rparr>;
               fs2 = fs1\<lparr>root_start := fat_start fs1 + ucast (num_fats b) * fsize\<rparr>;
               fs3 = fs2\<lparr>data_start := root_start fs2 + root_dir_sectors, fat_size := fsize\<rparr>;
               data_sectors = total_sectors - (ucast (reserved_sectors b) + ucast (num_fats b) * fsize + root_dir_sectors)
           in if spc = 0 then Inl DivideError
              else
                let fs4 = fs3\<lparr>cluster_count := data_sectors div spc, cluster_size := spc * bps\<rparr>
                in Inr (if cluster_count fs4 < 4085 then fs4\<lparr>fat_type := FAT_TYPE_FAT12\<rparr>
                        else if cluster_count fs4 < 65525 then fs4\<lparr>fat_type := FAT_TYPE_FAT16\<rparr>
                        else fs4\<lparr>fat_type := FAT_TYPE_FAT32, root_cluster := fat32_root_cluster b\<rparr>))"

definition store_bytes :: "u64 \<Rightarrow> u8 list \<Rightarrow> mem \<Rightarrow> mem" where
  "store_bytes a bs m = fold (\<lambda>i m. m(a + of_nat i := bs ! i)) [0..<length bs] m"

text \<open>The loop that fills the cache, for the sectors that are left.\<close>

fun load_fat :: "fat_filesystem \<Rightarrow> nat list \<Rightarrow> 'a kata_scheme \<Rightarrow> (int \<times> 'a kata_scheme) option" where
  "load_fat fs [] s = Some (1, s)"
| "load_fat fs (i # is) s =
     (case ata_read_sector ATA_DEVICE_PRIMARY_MASTER (fat_start fs + of_nat i) s of
        None \<Rightarrow> None
      | Some (r, bs, s1) \<Rightarrow>
          if r = 0 then
            (case kfree (fat fs) (kprint ''Failed to read FAT sector\<newline>'' s1) of
               None \<Rightarrow> None
             | Some s2 \<Rightarrow> Some (0, s2))
          else load_fat fs is
                 (s1\<lparr>heap_mem := store_bytes (fat fs + ucast (of_nat i * ucast (bytes_per_sector (boot fs)) :: u32)) bs (heap_mem s1)\<rparr>))"

definition fat_type_name :: "u32 \<Rightarrow> string" where
  "fat_type_name t =
     (if t = FAT_TYPE_FAT32 then ''FAT32\<newline>'' else if t = FAT_TYPE_FAT16 then ''FAT16\<newline>'' else ''FAT12\<newline>'')"

definition fat_mount :: "fat_filesystem \<Rightarrow> 'a kata_scheme \<Rightarrow> (int \<times> fat_filesystem \<times> 'a kata_scheme) run" where
  "fat_mount fs s =
     (case ata_read_sector ATA_DEVICE_PRIMARY_MASTER 0 (kprint ''Mounting FAT filesystem...\<newline>'' s) of
        None \<Rightarrow> None
      | Some (r, boot_sector, s1) \<Rightarrow>
          if r = 0 then Some (Inr (0, fs, kprint ''Failed to read boot sector\<newline>'' s1))
          else
            (case fat_geometry (fs\<lparr>boot := boot_of_bytes boot_sector\<rparr>) of
               Inl e \<Rightarrow> Some (Inl e)
             | Inr fs1 \<Rightarrow>
                 let s2 = kprint ''\<newline>'' (kprint ''Cluster count: ''
                            (kprint (fat_type_name (fat_type fs1)) (kprint ''FAT type: '' s1)))
                 in case kmalloc (ucast (fat_size fs1 * ucast (bytes_per_sector (boot fs1)))) s2 of
                      None \<Rightarrow> None
                    | Some (p, s3) \<Rightarrow>
                        let fs2 = fs1\<lparr>fat := p\<rparr>
                        in if p = NULL then Some (Inr (0, fs2, kprint ''Failed to allocate memory for FAT\<newline>'' s3))
                           else
                             (case load_fat fs2 [0..<unat (fat_size fs2)] s3 of
                                None \<Rightarrow> None
                              | Some (r, s4) \<Rightarrow>
                                  if r = 0 then Some (Inr (0, fs2, s4))
                                  else Some (Inr (1, fs2, kprint ''FAT filesystem mounted successfully\<newline>'' s4)))))"

definition fat_unmount :: "fat_filesystem \<Rightarrow> 'a kata_scheme \<Rightarrow> (int \<times> fat_filesystem \<times> 'a kata_scheme) option" where
  "fat_unmount fs s =
     (case (if fat fs \<noteq> NULL then kfree (fat fs) s else Some s) of
        None \<Rightarrow> None
      | Some s1 \<Rightarrow> Some (1, fs\<lparr>fat := NULL\<rparr>, kprint ''FAT filesystem unmounted\<newline>'' s1))"

section \<open>Files\<close>

text \<open>\<open>strcpy\<close> into \<open>path[VFS_MAX_PATH]\<close> also writes the final NUL.\<close>

definition fat_open ::
    "fat_filesystem \<Rightarrow> vfs_file \<Rightarrow> fat_file \<Rightarrow> u8 list \<Rightarrow> u32 \<Rightarrow> u8 list \<Rightarrow> 'a kata_scheme \<Rightarrow>
     (int \<times> vfs_file \<times> fat_file \<times> 'a kata_scheme) run" where
  "fat_open fs vf ff path flags buf s =
     (let root = (if fat_type fs \<noteq> FAT_TYPE_FAT32 then 0 else root_cluster fs)
      in case lookup_file_in_dir fs root path buf s of
           None \<Rightarrow> None
         | Some (Inl e) \<Rightarrow> Some (Inl e)
         | Some (Inr (None, s1)) \<Rightarrow> Some (Inr (0, vf, ff, s1))
         | Some (Inr (Some d, s1)) \<Rightarrow>
             if VFS_MAX_PATH < length path + 1 then Some (Inl BufferOverrun)
             else
               let first = push_bit 16 (ucast (fst_clus_hi d)) OR ucast (fst_clus_lo d)
               in Some (Inr (1, vf\<lparr>f_path := path, f_flags := flags, f_size := d_file_size d, f_attributes := ucast (d_attr d)\<rparr>,
                             ff\<lparr>first_cluster := first, current_cluster := first, cluster_offset := 0\<rparr>, s1)))"

definition fat_close :: "vfs_file \<Rightarrow> int" where
  "fat_close vf = 1"

partial_function (option) fat_read_loop ::
    "fat_filesystem \<Rightarrow> u32 \<Rightarrow> vfs_file \<Rightarrow> fat_file \<Rightarrow> u32 \<Rightarrow> u8 list \<Rightarrow> u8 list \<Rightarrow> 'a kata_scheme \<Rightarrow>
     (vfs_file \<times> fat_file \<times> u32 \<times> u8 list \<times> 'a kata_scheme) run" where
  "fat_read_loop fs sz vf ff tot out buf s =
     (if tot < sz \<and> f_position vf < f_size vf then
        let bytes_to_read = min (sz - tot) (f_size vf - f_position vf)
        in Option.bind (read_cluster fs (current_cluster ff) buf s) (\<lambda>r. case r of
            Inl e \<Rightarrow> Some (Inl e)
          | Inr (ok, buf1, s1) \<Rightarrow>
              if ok = 0 then Some (Inr (vf, ff, tot, out, s1))
              else if cluster_size fs = 0 then Some (Inl DivideError)
              else
                let offset_in_cluster = f_position vf mod cluster_size fs;
                    bytes_from_cluster = min (cluster_size fs - offset_in_cluster) bytes_to_read
                in if length buf1 < unat offset_in_cluster + unat bytes_from_cluster then Some (Inl BufferOverrun)
                   else
                     let out1 = out @ segment (unat offset_in_cluster) (unat bytes_from_cluster) buf1;
                         vf1 = vf\<lparr>f_position := f_position vf + bytes_from_cluster\<rparr>;
                         tot1 = tot + bytes_from_cluster
                     in if cluster_size fs \<le> offset_in_cluster + bytes_from_cluster then
                          let nxt = read_fat_entry fs (heap_mem s1) (current_cluster ff)
                          in if 0x0FFFFFF8 \<le> nxt then Some (Inr (vf1, ff, tot1, out1, s1))
                             else fat_read_loop fs sz vf1 (ff\<lparr>current_cluster := nxt\<rparr>) tot1 out1 buf1 s1
                        else fat_read_loop fs sz vf1 ff tot1 out1 buf1 s1)
      else Some (Inr (vf, ff, tot, out, s)))"

text \<open>
  The result is the return value, \<open>*bytes_read\<close>, the bytes stored from \<open>buffer\<close> on, and the new states.
\<close>

definition fat_read ::
    "fat_filesystem \<Rightarrow> vfs_file \<Rightarrow> fat_file \<Rightarrow> u32 \<Rightarrow> u8 list \<Rightarrow> 'a kata_scheme \<Rightarrow>
     (int \<times> u32 \<times> u8 list \<times> vfs_file \<times> fat_file \<times> 'a kata_scheme) run" where
  "fat_read fs vf ff sz buf s =
     (case fat_read_loop fs sz vf ff 0 [] buf s of
        None \<Rightarrow> None
      | Some (Inl e) \<Rightarrow> Some (Inl e)
      | Some (Inr (vf1, ff1, tot, out, s1)) \<Rightarrow> Some (Inr (1, tot, out, vf1, ff1, s1)))"

text \<open>\<open>fat_write\<close> returns 0 and sets \<open>*bytes_written\<close> to 0.\<close>

definition fat_write :: "vfs_file \<Rightarrow> u8 list \<Rightarrow> u32 \<Rightarrow> int \<times> u32" where
  "fat_write vf buffer sz = (0, 0)"

text \<open>\<open>offset\<close> is the value of an \<open>int32_t\<close>; the comparison \<open>new_pos < 0\<close> is between unsigned values.\<close>

definition fat_seek :: "vfs_file \<Rightarrow> int \<Rightarrow> int \<Rightarrow> int \<times> vfs_file" where
  "fat_seek vf offset whence =
     (case (if whence = 0 then Some (word_of_int offset)
            else if whence = 1 then Some (f_position vf + word_of_int offset)
            else if whence = 2 then Some (f_size vf + word_of_int offset) else None) of
        None \<Rightarrow> (0, vf)
      | Some new_pos \<Rightarrow>
          let new_pos1 = (if f_size vf < new_pos then f_size vf else new_pos);
              new_pos2 = (if new_pos1 < 0 then 0 else new_pos1)
          in (1, vf\<lparr>f_position := new_pos2\<rparr>))"

definition fat_tell :: "vfs_file \<Rightarrow> int \<times> u32" where
  "fat_tell vf = (1, f_position vf)"

definition fat_opendir :: "fat_filesystem \<Rightarrow> vfs_file \<Rightarrow> u8 list \<Rightarrow> fault + (int \<times> vfs_file)" where
  "fat_opendir fs vf path =
     (if VFS_MAX_PATH < length path + 1 then Inl BufferOverrun
      else Inr (1, vf\<lparr>private_data := ucast (root_cluster fs), f_path := path, f_flags := VFS_MODE_READ, f_position := 0\<rparr>))"

text \<open>\<open>fat_readdir\<close> returns a null pointer and \<open>fat_stat\<close> returns 0, whatever they are asked for.\<close>

definition fat_readdir :: "vfs_file \<Rightarrow> u32 \<Rightarrow> u64" where
  "fat_readdir vf index = NULL"

definition fat_stat :: "u8 list \<Rightarrow> int" where
  "fat_stat path = 0"

end
