(* ===== verification/Fat_Files.thy ===== *)
theory Fat_Files
  imports Fat
begin

text \<open>
  Reading and looking up files of \<open>kernel/fs/fat.c\<close>: what the driver sees of the disk, \<open>fat_read\<close> as
  a walk along the chain of clusters of a file, the 8.3 names, and the search of a directory,
  which finds the first entry of that name or goes round a circular chain for ever.
\<close>

section \<open>The disk seen by the file system\<close>

definition disk_of :: "ata \<Rightarrow> 'a kata_scheme \<Rightarrow> u32 \<Rightarrow> u8 list" where
  "disk_of d0 s lba = sector_bytes (a_disk (the_drive d0 s) (sector_key ATA_DEVICE_PRIMARY_MASTER lba))"

definition disk_ready :: "(io_op list \<Rightarrow> bool) \<Rightarrow> ata \<Rightarrow> 'a kata_scheme \<Rightarrow> bool" where
  "disk_ready busy d0 s \<longleftrightarrow> ata_present busy d0 s \<and> a_phase (the_drive d0 s) = Idle \<and>
     (\<forall>k. length (a_disk (the_drive d0 s) k) = 256)"

text \<open>
  The states a run of the driver can pass through: only the port history differs, and the disk is
  ready with the same contents.
\<close>

definition disk_step :: "(io_op list \<Rightarrow> bool) \<Rightarrow> ata \<Rightarrow> 'a kata_scheme \<Rightarrow> 'a kata_scheme \<Rightarrow> bool" where
  "disk_step busy d0 s s' \<longleftrightarrow> logged s s' \<and> disk_ready busy d0 s' \<and> disk_of d0 s' = disk_of d0 s"

lemma with_log_heap [simp]: "heap_mem (with_log l s) = heap_mem s"
  by (simp add: with_log_def)

lemma disk_stepD:
  assumes "disk_step busy d0 s s'"
  shows "heap_mem s' = heap_mem s" "disk_of d0 s' = disk_of d0 s" "disk_ready busy d0 s'" "logged s s'"
  using assms by (auto simp: disk_step_def logged_def)

lemma disk_step_refl: "disk_ready busy d0 s \<Longrightarrow> disk_step busy d0 s s"
  by (simp add: disk_step_def)

lemma disk_step_trans: "disk_step busy d0 s s1 \<Longrightarrow> disk_step busy d0 s1 s2 \<Longrightarrow> disk_step busy d0 s s2"
  unfolding disk_step_def by (auto intro: logged_trans(2))

lemma disk_sector_length: "disk_ready busy d0 s \<Longrightarrow> length (disk_of d0 s lba) = 512"
  by (simp add: disk_ready_def disk_of_def sector_bytes_length del: split_paired_All)

lemma read_sector_disk:
  assumes "disk_ready busy d0 s"
  shows "\<exists>s'. ata_read_sector ATA_DEVICE_PRIMARY_MASTER lba s = Some (1, disk_of d0 s lba, s') \<and> disk_step busy d0 s s'"
proof -
  obtain l where l: "ata_read_sector ATA_DEVICE_PRIMARY_MASTER lba s = Some (1, disk_of d0 s lba, with_log l s)"
    "a_phase (ata_dev d0 l) = Idle" "a_disk (ata_dev d0 l) = a_disk (the_drive d0 s)"
    using read_returns [of busy d0 s ATA_DEVICE_PRIMARY_MASTER lba] assms unfolding disk_ready_def disk_of_def by blast
  then have "disk_step busy d0 s (with_log l s)"
    using assms by (simp add: disk_step_def disk_ready_def disk_of_def fun_eq_iff del: split_paired_All)
  with l(1) show ?thesis by blast
qed

lemma length_overwrite: "i + length bs \<le> length buf \<Longrightarrow> length (overwrite i bs buf) = length buf"
  by (simp add: overwrite_def)

lemma overwrite_append:
  assumes "j = i + length xs" "j + length ys \<le> length buf"
  shows "overwrite j ys (overwrite i xs buf) = overwrite i (xs @ ys) buf"
  using assms by (simp add: overwrite_def ac_simps)

lemma length_concat_const: "(\<And>x. x \<in> set xs \<Longrightarrow> length x = n) \<Longrightarrow> length (concat xs) = length xs * n"
  by (induction xs) auto

lemma read_sectors_disk:
  assumes "disk_ready busy d0 s" "(k + n) * 512 \<le> length buf"
  shows "\<exists>s'. read_sectors sector [k..<k + n] buf s =
      Some (Inr (1, overwrite (k * 512) (concat (map (\<lambda>i. disk_of d0 s (sector + of_nat i)) [k..<k + n])) buf, s')) \<and>
    disk_step busy d0 s s'"
  using assms
proof (induction n arbitrary: k s buf)
  case 0
  then show ?case by (intro exI [of _ s]) (simp add: overwrite_def disk_step_refl)
next
  case (Suc n)
  let ?sec = "\<lambda>i. disk_of d0 s (sector + of_nat i)"
  let ?cs = "concat (map ?sec [Suc k..<Suc k + n])" and ?buf1 = "overwrite (k * 512) (?sec k) buf"
  have len: "length (?sec i) = 512" for i by (rule disk_sector_length [OF Suc.prems(1)])
  obtain s1 where s1: "ata_read_sector ATA_DEVICE_PRIMARY_MASTER (sector + of_nat k) s = Some (1, ?sec k, s1)" "disk_step busy d0 s s1"
    using read_sector_disk [OF Suc.prems(1)] by blast
  have "length ?buf1 = length buf" using Suc.prems(2) len by (intro length_overwrite) simp
  then have fit: "(Suc k + n) * 512 \<le> length ?buf1" using Suc.prems(2) by simp
  obtain s2 where s2: "read_sectors sector [Suc k..<Suc k + n] ?buf1 s1 = Some (Inr (1, overwrite (Suc k * 512) ?cs ?buf1, s2))"
    "disk_step busy d0 s1 s2"
    using Suc.IH [OF disk_stepD(3) [OF s1(2)] fit] unfolding disk_stepD(2) [OF s1(2)] by blast
  have cs: "length ?cs = n * 512" by (subst length_concat_const [where n = 512]) (auto simp: len simp del: upt_Suc)
  have upt: "[k..<k + Suc n] = k # [Suc k..<Suc k + n]" by (simp add: upt_conv_Cons)
  have "overwrite (Suc k * 512) ?cs ?buf1 = overwrite (k * 512) (?sec k @ ?cs) buf"
    using Suc.prems(2) by (intro overwrite_append) (simp_all only: len cs, simp_all)
  then show ?case
    unfolding upt using s1 s2 len [of k] Suc.prems(2) disk_step_trans [OF s1(2) s2(2)]
    by (intro exI [of _ s2]) (simp del: upt_Suc)
qed

definition cluster_bytes :: "fat_filesystem \<Rightarrow> (u32 \<Rightarrow> u8 list) \<Rightarrow> u32 \<Rightarrow> u8 list" where
  "cluster_bytes fs disk c =
     concat (map (\<lambda>i. disk (cluster_to_sector fs c + of_nat i)) [0..<unat (sectors_per_cluster (boot fs))])"

text \<open>A volume whose clusters fit the buffers the driver keeps on the stack.\<close>

definition fat_ok :: "fat_filesystem \<Rightarrow> bool" where
  "fat_ok fs \<longleftrightarrow> 1 \<le> sectors_per_cluster (boot fs) \<and> sectors_per_cluster (boot fs) \<le> 8 \<and>
     unat (cluster_size fs) = unat (sectors_per_cluster (boot fs)) * 512"

lemma cluster_bytes_length:
  assumes "disk_ready busy d0 s" shows "length (cluster_bytes fs (disk_of d0 s) c) = unat (sectors_per_cluster (boot fs)) * 512"
  unfolding cluster_bytes_def by (subst length_concat_const [where n = 512]) (auto simp: disk_sector_length [OF assms])

lemma read_cluster_disk:
  assumes r: "disk_ready busy d0 s" and fs: "fat_ok fs" and buf: "length buf = 4096"
  shows "\<exists>rest s'. read_cluster fs c buf s = Some (Inr (1, cluster_bytes fs (disk_of d0 s) c @ rest, s')) \<and>
    length (cluster_bytes fs (disk_of d0 s) c @ rest) = 4096 \<and> disk_step busy d0 s s'"
proof -
  let ?n = "unat (sectors_per_cluster (boot fs))"
  have "?n \<le> 8" using fs by (simp add: fat_ok_def word_le_nat_alt)
  then have fit: "(0 + ?n) * 512 \<le> length buf" using buf by simp
  show ?thesis
    using read_sectors_disk [OF r fit, of "cluster_to_sector fs c"] buf fit cluster_bytes_length [OF r, of fs c]
    unfolding read_cluster_def add_0 cluster_bytes_def [symmetric] by (auto simp: overwrite_def)
qed

section \<open>Reading a file\<close>

lemma segment_append: "segment p k xs @ segment (p + k) j xs = segment p (k + j) xs"
  unfolding segment_def by (metis take_add drop_drop add.commute)

lemma segment_concat:
  assumes "\<And>x. x \<in> set xs \<Longrightarrow> length x = n" "i < length xs" "off + k \<le> n"
  shows "segment (i * n + off) k (concat xs) = segment off k (xs ! i)"
  using assms
proof (induction xs arbitrary: i)
  case (Cons x xs)
  show ?case
  proof (cases i)
    case 0
    then show ?thesis using Cons.prems(1) [of x] Cons.prems(3) by (simp add: segment_def)
  next
    case (Suc j)
    have "segment (i * n + off) k (concat (x # xs)) = segment (j * n + off) k (concat xs)"
      using Cons.prems(1) [of x] by (simp add: segment_def Suc ac_simps)
    then show ?thesis using Cons.IH [of j] Cons.prems Suc by simp
  qed
qed simp

lemma segment_prefix: "off + k \<le> length xs \<Longrightarrow> segment off k (xs @ ys) = segment off k xs"
  by (simp add: segment_def)

text \<open>The clusters of a file, linked by the cached FAT.\<close>

fun chained :: "fat_filesystem \<Rightarrow> mem \<Rightarrow> u32 list \<Rightarrow> bool" where
  "chained fs m (c # c' # cs) \<longleftrightarrow> read_fat_entry fs m c = c' \<and> c' < 0x0FFFFFF8 \<and> chained fs m (c' # cs)"
| "chained fs m _ \<longleftrightarrow> True"

lemma chained_nth: "chained fs m cs \<Longrightarrow> Suc i < length cs \<Longrightarrow>
    read_fat_entry fs m (cs ! i) = cs ! Suc i \<and> cs ! Suc i < 0x0FFFFFF8"
proof (induction fs m cs arbitrary: i rule: chained.induct)
  case (1 fs m c c' cs)
  then show ?case by (cases i) auto
qed simp_all

definition file_bytes :: "fat_filesystem \<Rightarrow> (u32 \<Rightarrow> u8 list) \<Rightarrow> u32 list \<Rightarrow> u8 list" where
  "file_bytes fs disk cs = concat (map (cluster_bytes fs disk) cs)"

text \<open>The open file is positioned: it is at the cluster its position lies in.\<close>

definition positioned :: "fat_filesystem \<Rightarrow> u32 list \<Rightarrow> vfs_file \<Rightarrow> fat_file \<Rightarrow> bool" where
  "positioned fs cs vf ff \<longleftrightarrow> unat (f_size vf) \<le> length cs * unat (cluster_size fs) \<and>
     (f_position vf < f_size vf \<longrightarrow> current_cluster ff = cs ! (unat (f_position vf) div unat (cluster_size fs)))"

definition read_count :: "vfs_file \<Rightarrow> u32 \<Rightarrow> u32 \<Rightarrow> nat" where
  "read_count vf sz tot = min (unat sz - unat tot) (unat (f_size vf) - unat (f_position vf))"

lemma u32_step:
  assumes "a < b" "unat k \<le> unat b - unat a" shows "unat (a + k) = unat a + unat (k :: u32)"
  using assms unsigned_less [of b, where 'a = nat] by (intro unat_add_lem [THEN iffD1]) (simp add: word_less_nat_alt)

lemma fat_ok_size:
  assumes "fat_ok fs" shows "0 < unat (cluster_size fs)" "unat (cluster_size fs) \<le> 4096" "cluster_size fs \<noteq> 0"
  using assms by (auto simp: fat_ok_def word_le_nat_alt unat_eq_0)

text \<open>One round of the loop: how many bytes it copies, which ones, and where the file is then.\<close>

definition round_count :: "fat_filesystem \<Rightarrow> vfs_file \<Rightarrow> u32 \<Rightarrow> u32 \<Rightarrow> u32" where
  "round_count fs vf sz tot =
     min (cluster_size fs - f_position vf mod cluster_size fs) (min (sz - tot) (f_size vf - f_position vf))"

lemma round_count_unat:
  assumes "fat_ok fs" "tot < sz" "f_position vf < f_size vf"
  shows "unat (round_count fs vf sz tot) =
      min (unat (cluster_size fs) - unat (f_position vf) mod unat (cluster_size fs)) (read_count vf sz tot)"
    "0 < unat (round_count fs vf sz tot)"
proof -
  have "f_position vf mod cluster_size fs < cluster_size fs"
    using fat_ok_size(1) [OF assms(1)] by (simp add: word_less_nat_alt unat_mod)
  then have "unat (cluster_size fs - f_position vf mod cluster_size fs) =
      unat (cluster_size fs) - unat (f_position vf) mod unat (cluster_size fs)"
    by (simp add: unat_sub unat_mod)
  then show eq: "unat (round_count fs vf sz tot) =
      min (unat (cluster_size fs) - unat (f_position vf) mod unat (cluster_size fs)) (read_count vf sz tot)"
    using assms(2,3) by (simp add: round_count_def read_count_def min_def word_le_nat_alt unat_sub word_less_nat_alt)
  show "0 < unat (round_count fs vf sz tot)"
    unfolding eq using assms(2,3) fat_ok_size(1) [OF assms(1)] by (simp add: read_count_def word_less_nat_alt)
qed


lemma mod_step:
  fixes p n k :: nat
  assumes "0 < n" "k \<le> n - p mod n"
  shows "n \<le> p mod n + k \<Longrightarrow> (p + k) div n = Suc (p div n)" "p mod n + k < n \<Longrightarrow> (p + k) div n = p div n"
    "n \<le> p mod n + k \<Longrightarrow> p + k = Suc (p div n) * n"
proof -
  have p: "p = p div n * n + p mod n" by simp
  { assume "n \<le> p mod n + k"
    then have "p mod n + k = n" using assms mod_less_divisor [OF assms(1), of p] by linarith
    then have "p + k = p div n * n + n" using p by linarith
    then show "p + k = Suc (p div n) * n" by simp
    then show "(p + k) div n = Suc (p div n)" using assms(1) by simp }
  assume "p mod n + k < n"
  moreover have "p + k = p div n * n + (p mod n + k)" using p by linarith
  ultimately show "(p + k) div n = p div n" by (metis div_mult_self3 div_less add.right_neutral assms(1) less_irrefl)
qed

text \<open>The file after one round.\<close>

definition round_file :: "fat_filesystem \<Rightarrow> mem \<Rightarrow> vfs_file \<Rightarrow> fat_file \<Rightarrow> u32 \<Rightarrow> fat_file" where
  "round_file fs m vf ff k =
     (if cluster_size fs \<le> f_position vf mod cluster_size fs + k
      then ff\<lparr>current_cluster := read_fat_entry fs m (current_cluster ff)\<rparr> else ff)"

definition reading :: "fat_filesystem \<Rightarrow> mem \<Rightarrow> u32 list \<Rightarrow> vfs_file \<Rightarrow> fat_file \<Rightarrow> u32 \<Rightarrow> u32 \<Rightarrow> bool" where
  "reading fs m cs vf ff sz tot \<longleftrightarrow> fat_ok fs \<and> chained fs m cs \<and> positioned fs cs vf ff \<and>
     tot < sz \<and> f_position vf < f_size vf"

lemma round_numbers:
  assumes "reading fs m cs vf ff sz tot" "k = round_count fs vf sz tot"
  shows "0 < unat k" "unat k \<le> unat (cluster_size fs) - unat (f_position vf) mod unat (cluster_size fs)"
    "unat k \<le> read_count vf sz tot"
    "unat (f_position vf + k) = unat (f_position vf) + unat k" "unat (tot + k) = unat tot + unat k"
    "unat (f_position vf mod cluster_size fs + k) = unat (f_position vf) mod unat (cluster_size fs) + unat k"
proof -
  have r: "fat_ok fs" "tot < sz" "f_position vf < f_size vf" using assms(1) by (simp_all add: reading_def)
  note rc = round_count_unat [OF r, folded assms(2)]
  show k: "0 < unat k" "unat k \<le> unat (cluster_size fs) - unat (f_position vf) mod unat (cluster_size fs)"
    "unat k \<le> read_count vf sz tot"
    using rc(2) unfolding rc(1) by simp_all
  then show "unat (f_position vf + k) = unat (f_position vf) + unat k" "unat (tot + k) = unat tot + unat k"
    using r(2,3) by (simp_all add: u32_step read_count_def)
  have "unat (f_position vf) mod unat (cluster_size fs) < unat (cluster_size fs)"
    using fat_ok_size(1) [OF r(1)] by simp
  then have "unat (f_position vf mod cluster_size fs) + unat k < 2 ^ 32"
    using k(2) fat_ok_size(2) [OF r(1)] by (simp add: unat_mod)
  then show "unat (f_position vf mod cluster_size fs + k) = unat (f_position vf) mod unat (cluster_size fs) + unat k"
    by (simp add: unat_add_lem [THEN iffD1] unat_mod)
qed

lemma round_position:
  assumes r: "reading fs m cs vf ff sz tot" and k: "k = round_count fs vf sz tot"
  shows "positioned fs cs (vf\<lparr>f_position := f_position vf + k\<rparr>) (round_file fs m vf ff k)"
    "read_count (vf\<lparr>f_position := f_position vf + k\<rparr>) sz (tot + k) = read_count vf sz tot - unat k"
    "cluster_size fs \<le> f_position vf mod cluster_size fs + k \<Longrightarrow>
     0x0FFFFFF8 \<le> read_fat_entry fs m (current_cluster ff) \<Longrightarrow> unat (f_size vf) \<le> unat (f_position vf) + unat k"
    "(\<And>c. length (cluster_bytes fs disk c) = unat (cluster_size fs)) \<Longrightarrow>
     segment (unat (f_position vf)) (unat k) (file_bytes fs disk cs) =
     segment (unat (f_position vf) mod unat (cluster_size fs)) (unat k) (cluster_bytes fs disk (current_cluster ff))"
proof -
  let ?n = "unat (cluster_size fs)" and ?p = "unat (f_position vf)"
  let ?i = "?p div ?n"
  have fs: "fat_ok fs" and ch: "chained fs m cs" and size: "unat (f_size vf) \<le> length cs * ?n" and p: "?p < unat (f_size vf)"
    and cur: "current_cluster ff = cs ! ?i"
    using r by (simp_all add: reading_def positioned_def word_less_nat_alt)
  note n = fat_ok_size(1) [OF fs]
  note rn = round_numbers [OF r k]
  note ms = mod_step [OF n rn(2)]
  have at_end: "cluster_size fs \<le> f_position vf mod cluster_size fs + k \<longleftrightarrow> ?n \<le> ?p mod ?n + unat k"
    by (simp add: word_le_nat_alt rn(6))
  have i: "?i < length cs" using p size n by (simp add: div_less_iff_less_mult)
  show "positioned fs cs (vf\<lparr>f_position := f_position vf + k\<rparr>) (round_file fs m vf ff k)"
  proof (cases "?n \<le> ?p mod ?n + unat k")
    case True
    have "current_cluster (round_file fs m vf ff k) = cs ! Suc ?i" if "?p + unat k < unat (f_size vf)"
    proof -
      have "Suc ?i * ?n < length cs * ?n" using that size ms(3) [OF True] by linarith
      then have "Suc ?i < length cs" by (simp only: mult_less_cancel2)
      then show ?thesis using chained_nth [OF ch] True at_end cur by (simp add: round_file_def)
    qed
    then show ?thesis using size ms(1) [OF True] rn(4) by (simp add: positioned_def word_less_nat_alt)
  next
    case False
    then show ?thesis using size cur ms(2) rn(4) at_end by (simp add: positioned_def round_file_def)
  qed
  show "read_count (vf\<lparr>f_position := f_position vf + k\<rparr>) sz (tot + k) = read_count vf sz tot - unat k"
    using rn(3) by (simp add: read_count_def rn(4,5))
  show "unat (f_size vf) \<le> ?p + unat k" if b: "cluster_size fs \<le> f_position vf mod cluster_size fs + k"
    and e: "0x0FFFFFF8 \<le> read_fat_entry fs m (current_cluster ff)"
  proof -
    have "\<not> Suc ?i < length cs" using chained_nth [OF ch, of ?i] e cur by (metis leD)
    then have "length cs * ?n \<le> Suc ?i * ?n" by (intro mult_le_mono1) simp
    then show ?thesis using size ms(3) b at_end by linarith
  qed
  show "segment ?p (unat k) (file_bytes fs disk cs) = segment (?p mod ?n) (unat k) (cluster_bytes fs disk (current_cluster ff))"
    if len: "\<And>c. length (cluster_bytes fs disk c) = ?n"
  proof -
    have "segment (?i * ?n + ?p mod ?n) (unat k) (concat (map (cluster_bytes fs disk) cs)) =
        segment (?p mod ?n) (unat k) (map (cluster_bytes fs disk) cs ! ?i)"
      using i len rn(2) mod_less_divisor [OF n, of ?p] by (intro segment_concat) auto
    then show ?thesis using i by (simp add: file_bytes_def cur)
  qed
qed

lemma read_loop_step:
  assumes r: "reading fs (heap_mem s) cs vf ff sz tot" and k: "k = round_count fs vf sz tot"
    and d: "disk_ready busy d0 s" and buf: "length buf = 4096"
  shows "\<exists>buf1 s1. length buf1 = 4096 \<and> disk_step busy d0 s s1 \<and>
    fat_read_loop fs sz vf ff tot out buf s =
      (if cluster_size fs \<le> f_position vf mod cluster_size fs + k \<and>
          0x0FFFFFF8 \<le> read_fat_entry fs (heap_mem s) (current_cluster ff)
       then Some (Inr (vf\<lparr>f_position := f_position vf + k\<rparr>, ff, tot + k,
              out @ segment (unat (f_position vf)) (unat k) (file_bytes fs (disk_of d0 s) cs), s1))
       else fat_read_loop fs sz (vf\<lparr>f_position := f_position vf + k\<rparr>) (round_file fs (heap_mem s) vf ff k) (tot + k)
              (out @ segment (unat (f_position vf)) (unat k) (file_bytes fs (disk_of d0 s) cs)) buf1 s1)"
proof -
  have fs: "fat_ok fs" and more: "tot < sz" "f_position vf < f_size vf" using r by (simp_all add: reading_def)
  let ?c = "cluster_bytes fs (disk_of d0 s) (current_cluster ff)"
  obtain rest s1 where rc: "read_cluster fs (current_cluster ff) buf s = Some (Inr (1, ?c @ rest, s1))"
    and len: "length (?c @ rest) = 4096" and step: "disk_step busy d0 s s1"
    using read_cluster_disk [OF d fs buf, of "current_cluster ff"] by blast
  have clen: "length (cluster_bytes fs (disk_of d0 s) c) = unat (cluster_size fs)" for c
    using cluster_bytes_length [OF d] fs by (simp add: fat_ok_def)
  note rn = round_numbers [OF r k]
  have fits: "unat (f_position vf mod cluster_size fs) + unat k \<le> length ?c"
    using rn(2) clen mod_less_divisor [OF fat_ok_size(1) [OF fs], of "unat (f_position vf)"] by (simp add: unat_mod)
  then have segment: "segment (unat (f_position vf mod cluster_size fs)) (unat k) (?c @ rest) =
      segment (unat (f_position vf)) (unat k) (file_bytes fs (disk_of d0 s) cs)"
    using round_position(4) [OF r k clen] by (simp add: segment_prefix unat_mod)
  have kk: "min (cluster_size fs - f_position vf mod cluster_size fs) (min (sz - tot) (f_size vf - f_position vf)) = k"
    by (simp add: k round_count_def)
  have "\<not> length (?c @ rest) < unat (f_position vf mod cluster_size fs) + unat k" using fits by simp
  then have "fat_read_loop fs sz vf ff tot out buf s =
      (if cluster_size fs \<le> f_position vf mod cluster_size fs + k \<and>
          0x0FFFFFF8 \<le> read_fat_entry fs (heap_mem s) (current_cluster ff)
       then Some (Inr (vf\<lparr>f_position := f_position vf + k\<rparr>, ff, tot + k,
              out @ segment (unat (f_position vf)) (unat k) (file_bytes fs (disk_of d0 s) cs), s1))
       else fat_read_loop fs sz (vf\<lparr>f_position := f_position vf + k\<rparr>) (round_file fs (heap_mem s) vf ff k) (tot + k)
              (out @ segment (unat (f_position vf)) (unat k) (file_bytes fs (disk_of d0 s) cs)) (?c @ rest) s1)"
    using more fat_ok_size(3) [OF fs] unfolding segment [symmetric]
    by (subst fat_read_loop.simps) (simp add: rc kk Let_def round_file_def disk_stepD(1) [OF step])
  then show ?thesis using len step by blast
qed

lemma read_loop_ok:
  assumes "fat_ok fs" "chained fs (heap_mem s) cs" "positioned fs cs vf ff" "disk_ready busy d0 s" "length buf = 4096"
    and "n = read_count vf sz tot"
  shows "\<exists>ff' s'. fat_read_loop fs sz vf ff tot out buf s =
      Some (Inr (vf\<lparr>f_position := f_position vf + of_nat n\<rparr>, ff', tot + of_nat n,
        out @ segment (unat (f_position vf)) n (file_bytes fs (disk_of d0 s) cs), s')) \<and>
    positioned fs cs (vf\<lparr>f_position := f_position vf + of_nat n\<rparr>) ff' \<and> disk_step busy d0 s s'"
  using assms
proof (induction n arbitrary: vf ff tot out buf s rule: less_induct)
  case (less n)
  show ?case
  proof (cases "tot < sz \<and> f_position vf < f_size vf")
    case False
    then have "n = 0" using less.prems(6) by (auto simp: read_count_def word_less_nat_alt)
    then show ?thesis using False less.prems by (subst fat_read_loop.simps) (auto simp: segment_def disk_step_refl)
  next
    case True
    define k where "k = round_count fs vf sz tot"
    let ?vf = "vf\<lparr>f_position := f_position vf + k\<rparr>" and ?ff = "round_file fs (heap_mem s) vf ff k"
      and ?file = "file_bytes fs (disk_of d0 s) cs"
    have r: "reading fs (heap_mem s) cs vf ff sz tot" using True less.prems by (simp add: reading_def)
    note rn = round_numbers [OF r k_def] and rp = round_position [OF r k_def]
    obtain buf1 s1 where b: "length buf1 = 4096" and st: "disk_step busy d0 s s1" and
      eq: "fat_read_loop fs sz vf ff tot out buf s =
      (if cluster_size fs \<le> f_position vf mod cluster_size fs + k \<and>
          0x0FFFFFF8 \<le> read_fat_entry fs (heap_mem s) (current_cluster ff)
       then Some (Inr (?vf, ff, tot + k, out @ segment (unat (f_position vf)) (unat k) ?file, s1))
       else fat_read_loop fs sz ?vf ?ff (tot + k) (out @ segment (unat (f_position vf)) (unat k) ?file) buf1 s1)"
      using read_loop_step [OF r k_def less.prems(4,5), of out] by blast
    show ?thesis
    proof (cases "cluster_size fs \<le> f_position vf mod cluster_size fs + k \<and>
          0x0FFFFFF8 \<le> read_fat_entry fs (heap_mem s) (current_cluster ff)")
      case True
      then have end_reached: "unat (f_size vf) \<le> unat (f_position vf) + unat k" using rp(3) by blast
      then have "n = unat k" using rn(3) less.prems(6) by (auto simp: read_count_def min_def)
      then have n: "of_nat n = k" "n = unat k" by simp_all
      have "positioned fs cs ?vf ff"
        using less.prems(3) end_reached rn(4) by (simp add: positioned_def word_less_nat_alt)
      then show ?thesis using eq True st unfolding n by auto
    next
      case False
      let ?m = "n - unat k"
      have "?m < n" using rn(1,3) less.prems(6) by simp
      moreover note less.prems(1)
      moreover have "chained fs (heap_mem s1) cs" using less.prems(2) disk_stepD(1) [OF st] by simp
      moreover note rp(1) disk_stepD(3) [OF st] b
      moreover have "?m = read_count ?vf sz (tot + k)" using rp(2) less.prems(6) by simp
      ultimately obtain ff' s' where IH: "fat_read_loop fs sz ?vf ?ff (tot + k) (out @ segment (unat (f_position vf)) (unat k) ?file) buf1 s1 =
        Some (Inr (?vf\<lparr>f_position := f_position ?vf + of_nat ?m\<rparr>, ff', tot + k + of_nat ?m,
          (out @ segment (unat (f_position vf)) (unat k) ?file) @ segment (unat (f_position ?vf)) ?m (file_bytes fs (disk_of d0 s1) cs), s')) \<and>
        positioned fs cs (?vf\<lparr>f_position := f_position ?vf + of_nat ?m\<rparr>) ff' \<and> disk_step busy d0 s1 s'"
        using less.IH by blast
      have "n = unat k + ?m" using rn(3) less.prems(6) by simp
      then have n: "of_nat n = k + of_nat ?m" "segment p n xs = segment p (unat k) xs @ segment (p + unat k) ?m xs" for p and xs :: "u8 list"
        by (metis of_nat_add of_nat_unat ucast_id) (metis \<open>n = unat k + ?m\<close> segment_append)
      show ?thesis
        using IH eq False disk_step_trans [OF st] unfolding n disk_stepD(2) [OF st]
        by (intro exI [of _ ff'] exI [of _ s']) (simp add: rn(4) add.assoc)
    qed
  qed
qed

section \<open>File names\<close>

definition pad :: "nat \<Rightarrow> u8 list \<Rightarrow> u8 list" where
  "pad n xs = take n (xs @ replicate n 0x20)"

lemma fold_store:
  assumes "n \<le> length xs" "k + n \<le> length ys"
  shows "fold (\<lambda>i ys. ys[k + i := xs ! i]) [0..<n] ys = take k ys @ take n xs @ drop (k + n) ys"
  using assms
proof (induction n)
  case (Suc n)
  then show ?case
    by (simp add: list_update_append take_Suc_conv_app_nth Cons_nth_drop_Suc [symmetric])
qed simp

lemma fold_map_in_place: "fold (\<lambda>i ys. ys[i := f (ys ! i)]) [0..<length xs] xs = map f xs"
proof -
  have "fold (\<lambda>i ys. ys[i := f (ys ! i)]) [0..<n] xs = map f (take n xs) @ drop n xs" if "n \<le> length xs" for n
    using that
  proof (induction n)
    case (Suc n)
    then show ?case
      by (simp add: list_update_append nth_append take_Suc_conv_app_nth Cons_nth_drop_Suc [symmetric])
  qed simp
  from this [of "length xs"] show ?thesis by simp
qed

lemma fat_name_eq:
  "fat_name filename =
     map to_upper (pad 8 (takeWhile (\<lambda>c. c \<noteq> 0x2E) filename) @
                   pad 3 (drop (length (takeWhile (\<lambda>c. c \<noteq> 0x2E) filename) + 1) filename))"
proof -
  let ?stem = "takeWhile (\<lambda>c. c \<noteq> 0x2E) filename"
  let ?n = "min 8 (length ?stem)" and ?ext = "drop (length ?stem + 1) filename"
  let ?n1 = "take ?n filename @ replicate (11 - ?n) 0x20"
  have le: "length ?stem \<le> length filename" by (rule length_takeWhile_le)
  have pre: "take ?n filename = take 8 ?stem"
    using takeWhile_dropWhile_id [of "\<lambda>c. c \<noteq> 0x2E" filename] by (metis (no_types, lifting) append_take_drop_id min.commute take_take takeWhile_eq_take)
  have n1: "fold (\<lambda>i n. n[i := filename ! i]) [0..<?n] (replicate 11 0x20) = ?n1"
    using fold_store [of ?n filename 0 "replicate 11 0x20"] le by simp
  have n1': "?n1 = pad 8 ?stem @ replicate 3 0x20"
  proof -
    have "replicate (11 - ?n) (0x20 :: u8) = replicate (8 - ?n) 0x20 @ replicate 3 0x20"
      by (subst replicate_add [symmetric]) (intro arg_cong2 [where f = replicate], simp_all)
    then show ?thesis unfolding pre by (simp add: pad_def min_def)
  qed
  have n2: "fold (\<lambda>i n. n[8 + i := ?ext ! i]) [0..<min 3 (length ?ext)] ?n1 = pad 8 ?stem @ pad 3 ?ext"
    unfolding n1' by (subst fold_store) (simp_all add: pad_def min_def)
  have "?ext = []" if "\<not> length ?stem < length filename" using that by simp
  then have "(if length ?stem < length filename
      then fold (\<lambda>i n. n[8 + i := ?ext ! i]) [0..<min 3 (length ?ext)] ?n1 else ?n1) = pad 8 ?stem @ pad 3 ?ext"
    using n2 n1' by (cases "length ?stem < length filename") (simp_all only: if_True if_False pad_def, simp)
  moreover have "length (pad 8 ?stem @ pad 3 ?ext) = 11" by (simp add: pad_def)
  ultimately show ?thesis
    using fold_map_in_place [of to_upper "pad 8 ?stem @ pad 3 ?ext"] unfolding fat_name_def Let_def n1 by presburger
qed


section \<open>Lookup\<close>

text \<open>A directory is a list of entries: up to the first free one, the first that bears the name.\<close>

fun dir_find :: "u8 list \<Rightarrow> u8 list list \<Rightarrow> fat_dirent option" where
  "dir_find name [] = None"
| "dir_find name (e # es) =
     (if e ! 0 = 0x00 then None
      else if e ! 0 \<noteq> 0xE5 \<and> take 11 e = name then Some (dirent_of_bytes e)
      else dir_find name es)"

fun dir_ends :: "u8 list \<Rightarrow> u8 list list \<Rightarrow> bool" where
  "dir_ends name [] \<longleftrightarrow> False"
| "dir_ends name (e # es) \<longleftrightarrow> e ! 0 = 0x00 \<or> e ! 0 \<noteq> 0xE5 \<and> take 11 e = name \<or> dir_ends name es"

lemma dir_find_append: "dir_find name (xs @ ys) = (if dir_ends name xs then dir_find name xs else dir_find name ys)"
  by (induction xs) auto

lemma dir_find_None: "\<not> dir_ends name xs \<Longrightarrow> dir_find name xs = None"
  by (induction xs) auto

lemma scan_entries_find:
  assumes "\<forall>i\<in>set is. i * 32 + 32 \<le> length buf"
  shows "scan_entries name buf is =
    (let es = map (\<lambda>i. segment (i * 32) 32 buf) is
     in if \<not> dir_ends name es then NotHere
        else case dir_find name es of None \<Rightarrow> EndOfDir | Some d \<Rightarrow> Found d)"
  using assms by (induction "is") (auto simp: Let_def not_less)

definition cluster_entries :: "fat_filesystem \<Rightarrow> (u32 \<Rightarrow> u8 list) \<Rightarrow> u32 \<Rightarrow> u8 list list" where
  "cluster_entries fs disk c =
     map (\<lambda>i. segment (i * 32) 32 (cluster_bytes fs disk c)) [0..<unat (cluster_size fs) div 32]"

lemma lookup_cluster:
  assumes d: "disk_ready busy d0 s" and fs: "fat_ok fs" and buf: "length buf = 4096"
  shows "\<exists>buf1 s1. length buf1 = 4096 \<and> disk_step busy d0 s s1 \<and> read_cluster fs c buf s = Some (Inr (1, buf1, s1)) \<and>
    scan_entries name buf1 [0..<unat (cluster_size fs) div 32] = (let es = cluster_entries fs (disk_of d0 s) c
     in if \<not> dir_ends name es then NotHere else case dir_find name es of None \<Rightarrow> EndOfDir | Some d \<Rightarrow> Found d)"
proof -
  let ?c = "cluster_bytes fs (disk_of d0 s) c" and ?is = "[0..<unat (cluster_size fs) div 32]"
  obtain rest s1 where rc: "read_cluster fs c buf s = Some (Inr (1, ?c @ rest, s1))"
    and len: "length (?c @ rest) = 4096" and step: "disk_step busy d0 s s1"
    using read_cluster_disk [OF d fs buf, of c] by blast
  have clen: "length ?c = unat (cluster_size fs)" using cluster_bytes_length [OF d] fs by (simp add: fat_ok_def)
  then have fit: "i * 32 + 32 \<le> length ?c" if "i \<in> set ?is" for i using that by auto
  then have "map (\<lambda>i. segment (i * 32) 32 (?c @ rest)) ?is = cluster_entries fs (disk_of d0 s) c"
    unfolding cluster_entries_def by (intro map_cong) (auto simp: segment_prefix)
  moreover have "\<forall>i\<in>set ?is. i * 32 + 32 \<le> length (?c @ rest)" using fit by fastforce
  ultimately have "scan_entries name (?c @ rest) ?is = (let es = cluster_entries fs (disk_of d0 s) c
     in if \<not> dir_ends name es then NotHere else case dir_find name es of None \<Rightarrow> EndOfDir | Some d \<Rightarrow> Found d)"
    by (simp add: scan_entries_find)
  then show ?thesis using rc len step by blast
qed

lemma lookup_step:
  assumes d: "disk_ready busy d0 s" and fs: "fat_ok fs" and buf: "length buf = 4096" and c: "c < cluster_count fs + 2"
  shows "\<exists>buf1 s1. length buf1 = 4096 \<and> disk_step busy d0 s s1 \<and>
    lookup_loop fs name c buf s =
      (let es = cluster_entries fs (disk_of d0 s) c; nxt = read_fat_entry fs (heap_mem s) c
       in if dir_ends name es then Some (Inr (dir_find name es, s1))
          else if 0x0FFFFFF8 \<le> nxt then Some (Inr (None, s1))
          else lookup_loop fs name nxt buf1 s1)"
proof -
  obtain buf1 s1 where s1: "length buf1 = 4096" "disk_step busy d0 s s1" "read_cluster fs c buf s = Some (Inr (1, buf1, s1))"
    "scan_entries name buf1 [0..<unat (cluster_size fs) div 32] = (let es = cluster_entries fs (disk_of d0 s) c
     in if \<not> dir_ends name es then NotHere else case dir_find name es of None \<Rightarrow> EndOfDir | Some d \<Rightarrow> Found d)"
    using lookup_cluster [OF d fs buf] by blast
  show ?thesis
    using c s1(4) by (intro exI [of _ buf1] exI [of _ s1], subst lookup_loop.simps)
      (simp add: s1(1-3) Let_def disk_stepD(1) [OF s1(2)] split: option.splits)
qed

text \<open>The clusters of a directory: linked, inside the volume, and ended by an entry that is no cluster.\<close>

definition dir_chain :: "fat_filesystem \<Rightarrow> mem \<Rightarrow> u32 list \<Rightarrow> bool" where
  "dir_chain fs m cs \<longleftrightarrow> cs \<noteq> [] \<and> chained fs m cs \<and> (\<forall>c\<in>set cs. c < cluster_count fs + 2) \<and>
     (0x0FFFFFF8 \<le> read_fat_entry fs m (last cs) \<or> cluster_count fs + 2 \<le> read_fat_entry fs m (last cs))"

lemma lookup_loop_finds:
  assumes "disk_ready busy d0 s" "fat_ok fs" "length buf = 4096" "dir_chain fs (heap_mem s) (c # cs)"
  shows "\<exists>s'. lookup_loop fs name c buf s =
      Some (Inr (dir_find name (concat (map (cluster_entries fs (disk_of d0 s)) (c # cs))), s')) \<and> disk_step busy d0 s s'"
  using assms
proof (induction cs arbitrary: c buf s)
  case Nil
  let ?nxt = "read_fat_entry fs (heap_mem s) c" and ?es = "cluster_entries fs (disk_of d0 s) c"
  have c: "c < cluster_count fs + 2" and e: "0x0FFFFFF8 \<le> ?nxt \<or> \<not> ?nxt < cluster_count fs + 2"
    using Nil.prems(4) by (auto simp: dir_chain_def not_less)
  obtain buf1 s1 where s1: "disk_step busy d0 s s1" and eq: "lookup_loop fs name c buf s =
      (if dir_ends name ?es then Some (Inr (dir_find name ?es, s1))
       else if 0x0FFFFFF8 \<le> ?nxt then Some (Inr (None, s1)) else lookup_loop fs name ?nxt buf1 s1)"
    using lookup_step [OF Nil.prems(1-3) c, of name] by (auto simp: Let_def)
  have "lookup_loop fs name ?nxt buf1 s1 = Some (Inr (None, s1))" if "\<not> ?nxt < cluster_count fs + 2"
    using that by (subst lookup_loop.simps) simp
  then show ?case using eq e s1 by (intro exI [of _ s1]) (auto simp: dir_find_None)
next
  case (Cons c' cs)
  let ?es = "cluster_entries fs (disk_of d0 s) c"
  have c: "c < cluster_count fs + 2" and nxt: "read_fat_entry fs (heap_mem s) c = c'" "\<not> 0x0FFFFFF8 \<le> c'"
    and ch: "dir_chain fs (heap_mem s) (c' # cs)"
    using Cons.prems(4) by (auto simp: dir_chain_def not_le)
  obtain buf1 s1 where b: "length buf1 = 4096" and s1: "disk_step busy d0 s s1" and eq: "lookup_loop fs name c buf s =
      (if dir_ends name ?es then Some (Inr (dir_find name ?es, s1)) else lookup_loop fs name c' buf1 s1)"
    using lookup_step [OF Cons.prems(1-3) c, of name] nxt by (auto simp: Let_def)
  obtain s2 where s2: "lookup_loop fs name c' buf1 s1 =
      Some (Inr (dir_find name (concat (map (cluster_entries fs (disk_of d0 s)) (c' # cs))), s2))" "disk_step busy d0 s1 s2"
    using Cons.IH [OF disk_stepD(3) [OF s1] Cons.prems(2) b, of c'] ch disk_stepD(1,2) [OF s1] by auto
  show ?case
  proof (cases "dir_ends name ?es")
    case True
    then show ?thesis using eq s1 by (simp add: dir_find_append)
  next
    case False
    then show ?thesis using eq s2 disk_step_trans [OF s1 s2(2)] by (simp add: dir_find_append [of _ ?es])
  qed
qed

text \<open>
  A directory whose chain of clusters runs in a circle is searched for ever.
\<close>

definition dir_cycle :: "fat_filesystem \<Rightarrow> u8 list \<Rightarrow> u32 set \<Rightarrow> mem \<Rightarrow> (u32 \<Rightarrow> u8 list) \<Rightarrow> bool" where
  "dir_cycle fs name S m disk \<longleftrightarrow> (\<forall>c\<in>S. c < cluster_count fs + 2 \<and> c < 0x0FFFFFF8 \<and>
     read_fat_entry fs m c \<in> S \<and> \<not> dir_ends name (cluster_entries fs disk c))"

lemma lookup_loop_cycle:
  assumes "lookup_loop fs name c buf s = Some r"
  shows "\<not> (fat_ok fs \<and> disk_ready busy d0 s \<and> length buf = 4096 \<and> c \<in> S \<and> dir_cycle fs name S (heap_mem s) (disk_of d0 s))"
proof (rule lookup_loop.raw_induct [OF _ assms], rule notI, elim conjE)
  fix f :: "fat_filesystem \<Rightarrow> u8 list \<Rightarrow> u32 \<Rightarrow> u8 list \<Rightarrow> 'a kata_scheme \<Rightarrow> (fat_dirent option \<times> 'a kata_scheme) run"
    and fs name c buf s r
  assume IH: "\<And>fs name c buf s r. f fs name c buf s = Some r \<Longrightarrow>
      \<not> (fat_ok fs \<and> disk_ready busy d0 s \<and> length buf = 4096 \<and> c \<in> S \<and> dir_cycle fs name S (heap_mem s) (disk_of d0 s))"
  assume res: "(if c < cluster_count fs + 2 then
        Option.bind (read_cluster fs c buf s) (\<lambda>r. case r of
            Inl e \<Rightarrow> Some (Inl e)
          | Inr (ok, buf1, s1) \<Rightarrow>
              if ok = 0 then Some (Inr (None, s1))
              else (case scan_entries name buf1 [0..<unat (cluster_size fs) div 32] of
                      EndOfDir \<Rightarrow> Some (Inr (None, s1))
                    | Found d \<Rightarrow> Some (Inr (Some d, s1))
                    | PastBuffer \<Rightarrow> Some (Inl BufferOverrun)
                    | NotHere \<Rightarrow>
                        let nxt = read_fat_entry fs (heap_mem s1) c
                        in if 0x0FFFFFF8 \<le> nxt then Some (Inr (None, s1)) else f fs name nxt buf1 s1))
      else Some (Inr (None, s))) = Some r"
  assume fs: "fat_ok fs" and d: "disk_ready busy d0 s" and buf: "length buf = 4096" and c: "c \<in> S"
    and cyc: "dir_cycle fs name S (heap_mem s) (disk_of d0 s)"
  let ?nxt = "read_fat_entry fs (heap_mem s) c"
  have nxt: "c < cluster_count fs + 2" "?nxt \<in> S" "\<not> 0x0FFFFFF8 \<le> ?nxt"
    and es: "\<not> dir_ends name (cluster_entries fs (disk_of d0 s) c)"
    using cyc c by (auto simp: dir_cycle_def not_le)
  obtain buf1 s1 where s1: "length buf1 = 4096" "disk_step busy d0 s s1" "read_cluster fs c buf s = Some (Inr (1, buf1, s1))"
    "scan_entries name buf1 [0..<unat (cluster_size fs) div 32] = NotHere"
    using lookup_cluster [OF d fs buf, of c name] es by (auto simp: Let_def)
  have "f fs name ?nxt buf1 s1 = Some r" using res nxt by (simp add: s1(3,4) disk_stepD(1) [OF s1(2)] Let_def)
  then show False using IH fs s1(1) nxt(2) cyc disk_stepD(1-3) [OF s1(2)] by force
qed

end
