(* ===== verification/Fat_Volume.thy ===== *)
theory Fat_Volume
  imports Fat_Files
begin

text \<open>
  Mounting, the layout of the volume and seeking in \<open>kernel/fs/fat.c\<close>, and the properties of the driver.
  Mounting brings together the disk, the heap that holds the cached FAT, and the geometry computed from the
  boot sector.
\<close>

section \<open>Mounting\<close>

lemma store_bytes_append: "store_bytes a (xs @ ys) m = store_bytes (a + of_nat (length xs)) ys (store_bytes a xs m)"
proof -
  have 1: "fold (\<lambda>i m. m(a + of_nat i := (xs @ ys) ! i)) [0..<length xs] m = store_bytes a xs m"
    unfolding store_bytes_def by (rule fold_cong) (simp_all add: nth_append)
  have "[length xs..<length xs + length ys] = map (\<lambda>i. i + length xs) [0..<length ys]"
    using map_add_upt [of "length xs" "length ys"] by (simp add: add.commute)
  then have "fold (\<lambda>i m. m(a + of_nat i := (xs @ ys) ! i)) [length xs..<length xs + length ys] m' =
      store_bytes (a + of_nat (length xs)) ys m'" for m'
    by (simp add: store_bytes_def fold_map comp_def ac_simps nth_append)
  then show ?thesis using 1 by (simp add: store_bytes_def [of a "xs @ ys"] upt_add_eq_append [of 0, simplified])
qed

lemma store_bytes_outside: "(\<And>i. i < length bs \<Longrightarrow> x \<noteq> a + of_nat i) \<Longrightarrow> store_bytes a bs m x = m x"
proof (induction bs arbitrary: m rule: rev_induct)
  case (snoc b bs)
  then show ?case by (simp add: store_bytes_append) (simp add: store_bytes_def)
qed (simp add: store_bytes_def)

lemma store_bytes_read:
  assumes "length bs \<le> 2 ^ 64" "i < length bs"
  shows "store_bytes a bs m (a + of_nat i) = bs ! i"
  using assms
proof (induction bs arbitrary: m rule: rev_induct)
  case (snoc b bs)
  show ?case
  proof (cases "i = length bs")
    case True
    then show ?thesis by (simp add: store_bytes_append) (simp add: store_bytes_def)
  next
    case False
    then have i: "i < length bs" using snoc.prems(2) by simp
    have "(of_nat i :: u64) \<noteq> of_nat (length bs)" using snoc.prems False by (subst of_nat_u64_inj) auto
    then have "store_bytes a (bs @ [b]) m (a + of_nat i) = store_bytes a bs m (a + of_nat i)"
      by (simp add: store_bytes_append) (simp add: store_bytes_def)
    then show ?thesis using snoc.IH i snoc.prems(1) by (simp add: nth_append)
  qed
qed simp

text \<open>Calls that use no port but those of the cursor leave the disk as it is.\<close>

definition quiet :: "'a kio_scheme \<Rightarrow> 'a kio_scheme \<Rightarrow> bool" where
  "quiet s s' \<longleftrightarrow> dev_log s' = dev_log s \<and> port_env (io s') = port_env (io s)"

lemma quiet_trans: "quiet s s1 \<Longrightarrow> quiet s1 s2 \<Longrightarrow> quiet s s2"
  by (simp add: quiet_def)

lemma quiet_kprint [simp]: "quiet s (kprint m s)"
  by (simp add: quiet_def)

lemma back_page_quiet: "back_page m1 m2 a s = (ok, s') \<Longrightarrow> quiet s s'"
  by (auto simp: back_page_def Let_def quiet_def split: prod.splits if_splits)

lemma heap_init_loop_quiet:
  assumes "heap_init_loop a s = Some (ok, s')" shows "quiet s s'"
proof -
  have "quiet s (snd r)" if "heap_init_loop a s = Some r" for r
    by (rule heap_init_loop.raw_induct [OF _ that])
      (auto split: if_splits prod.splits dest!: back_page_quiet intro: quiet_trans simp: quiet_def)
  from this [OF assms] show ?thesis by simp
qed

lemma heap_extend_loop_quiet:
  assumes "heap_extend_loop i n s = Some (ok, s')" shows "quiet s s'"
proof -
  have "quiet s (snd r)" if "heap_extend_loop i n s = Some r" for r
    by (rule heap_extend_loop.raw_induct [OF _ that])
      (auto split: if_splits prod.splits dest!: back_page_quiet intro: quiet_trans simp: quiet_def)
  from this [OF assms] show ?thesis by simp
qed

lemma heap_init_quiet: "heap_init s = Some (ok, s') \<Longrightarrow> quiet s s'"
  unfolding heap_init_def
  by (auto simp: Let_def quiet_def split: option.splits if_splits prod.splits dest!: heap_init_loop_quiet)

lemma heap_extend_quiet: "heap_extend n s = Some (p, s') \<Longrightarrow> quiet s s'"
  unfolding heap_extend_def
  by (auto simp: Let_def quiet_def split: option.splits if_splits prod.splits dest!: heap_extend_loop_quiet)

lemma kmalloc_quiet: "kmalloc n s = Some (p, s') \<Longrightarrow> quiet s s'"
  unfolding kmalloc_def
  by (auto simp: Let_def quiet_def split: option.splits if_splits prod.splits dest!: heap_init_quiet heap_extend_quiet)

lemma quiet_disk:
  fixes s :: "'a kata_scheme"
  assumes "quiet s s'" shows "disk_ready busy d0 s' = disk_ready busy d0 s" "disk_of d0 s' = disk_of d0 s"
proof -
  have "the_drive d0 s' = the_drive d0 s" using assms ata_dev_dev_ops unfolding quiet_def by metis
  then show "disk_ready busy d0 s' = disk_ready busy d0 s" "disk_of d0 s' = disk_of d0 s"
    using assms by (simp_all add: disk_ready_def disk_of_def fun_eq_iff ata_present_def quiet_def del: split_paired_All)
qed


lemma heap_ok_cong:
  assumes "vm s' = vm s" "heap_first_block s' = heap_first_block s" "heap_mem s' = heap_mem s"
  shows "heap_ok s' bs = heap_ok s bs"
  using assms by (simp add: heap_ok_def heap_wf_def)

lemma with_log_kmem [simp]: "vm (with_log l s) = vm s" "heap_first_block (with_log l s) = heap_first_block s"
  by (simp_all add: with_log_def)

lemma disk_memory [simp]:
  "disk_ready busy d0 (s\<lparr>heap_mem := m\<rparr>) = disk_ready busy d0 s" "disk_of d0 (s\<lparr>heap_mem := m\<rparr>) = disk_of d0 s"
  by (simp_all add: disk_ready_def disk_of_def fun_eq_iff ata_present_def)

lemma unat_ucast_u64: "ucast (w :: u32) = (of_nat (unat w) :: u64)"
  by simp

lemma load_fat_ok:
  assumes "disk_ready busy d0 s" "bytes_per_sector (boot fs) = 512" "(k + n) * 512 < 2 ^ 32"
  shows "\<exists>s'. load_fat fs [k..<k + n] s = Some (1, s') \<and>
    heap_mem s' = store_bytes (fat fs + of_nat (k * 512)) (concat (map (\<lambda>j. disk_of d0 s (fat_start fs + of_nat j)) [k..<k + n])) (heap_mem s) \<and>
    vm s' = vm s \<and> heap_first_block s' = heap_first_block s \<and> disk_ready busy d0 s' \<and> disk_of d0 s' = disk_of d0 s"
  using assms
proof (induction n arbitrary: k s)
  case 0
  then show ?case by (simp add: store_bytes_def)
next
  case (Suc n)
  let ?sec = "\<lambda>j. disk_of d0 s (fat_start fs + of_nat j)"
  let ?a = "fat fs + of_nat (k * 512)"
  obtain s1 where s1: "ata_read_sector ATA_DEVICE_PRIMARY_MASTER (fat_start fs + of_nat k) s = Some (1, ?sec k, s1)" "disk_step busy d0 s s1"
    using read_sector_disk [OF Suc.prems(1)] by blast
  have frame: "vm s1 = vm s" "heap_first_block s1 = heap_first_block s"
    using disk_stepD(4) [OF s1(2)] by (auto simp: logged_def)
  let ?s2 = "s1\<lparr>heap_mem := store_bytes ?a (?sec k) (heap_mem s1)\<rparr>"
  have "unat (of_nat (k * 512) :: u32) = k * 512" using Suc.prems(3) by (simp add: unat_of_nat del: of_nat_mult)
  then have addr: "ucast (of_nat k * ucast (bytes_per_sector (boot fs)) :: u32) = (of_nat (k * 512) :: u64)"
    using unat_ucast_u64 [of "of_nat (k * 512)"] Suc.prems(2) by simp
  have upt: "[k..<k + Suc n] = k # [Suc k..<Suc k + n]" by (simp add: upt_conv_Cons)
  obtain s' where IH: "load_fat fs [Suc k..<Suc k + n] ?s2 = Some (1, s') \<and>
    heap_mem s' = store_bytes (fat fs + of_nat (Suc k * 512)) (concat (map ?sec [Suc k..<Suc k + n])) (heap_mem ?s2) \<and>
    vm s' = vm ?s2 \<and> heap_first_block s' = heap_first_block ?s2 \<and> disk_ready busy d0 s' \<and> disk_of d0 s' = disk_of d0 s"
    using Suc.IH [of ?s2 "Suc k"] Suc.prems(2,3) disk_stepD [OF s1(2)] by auto
  have "length (?sec k) = 512" using disk_sector_length [OF Suc.prems(1)] .
  moreover have "?a + of_nat 512 = fat fs + of_nat (Suc k * 512)" by simp
  ultimately have "store_bytes ?a (?sec k @ concat (map ?sec [Suc k..<Suc k + n])) (heap_mem s) = heap_mem s'"
    using IH disk_stepD(1) [OF s1(2)] by (simp only: store_bytes_append) simp
  then show ?case
    using IH frame unfolding upt by (intro exI [of _ s']) (simp add: s1(1) addr del: upt_Suc)
qed

lemma unat_ucast_widen [simp]:
  "unat (ucast (x :: u16) :: u32) = unat x" "unat (ucast (y :: u8) :: u32) = unat y" "unat (ucast (z :: u32) :: u64) = unat z"
  using unsigned_less [of x, where 'a = nat] unsigned_less [of y, where 'a = nat] unsigned_less [of z, where 'a = nat]
  by (simp_all add: unsigned_ucast_eq take_bit_nat_eq_self)

definition boot_fat_size :: "fat_boot_sector \<Rightarrow> u32" where
  "boot_fat_size b = (if fat_size_16 b = 0 then fat_size_32 b else ucast (fat_size_16 b))"

definition boot_total_sectors :: "fat_boot_sector \<Rightarrow> u32" where
  "boot_total_sectors b = (if total_sectors_16 b = 0 then total_sectors_32 b else ucast (total_sectors_16 b))"

definition boot_root_sectors :: "fat_boot_sector \<Rightarrow> u32" where
  "boot_root_sectors b =
     (ucast (root_entries b) * 32 + (ucast (bytes_per_sector b) - 1)) div ucast (bytes_per_sector b)"

definition boot_data_start :: "fat_boot_sector \<Rightarrow> u32" where
  "boot_data_start b = ucast (reserved_sectors b) + ucast (num_fats b) * boot_fat_size b + boot_root_sectors b"

definition boot_cluster_count :: "fat_boot_sector \<Rightarrow> u32" where
  "boot_cluster_count b = (boot_total_sectors b - boot_data_start b) div ucast (sectors_per_cluster b)"

lemma fat_geometry_eq:
  assumes "bytes_per_sector (boot fs) \<noteq> 0" "sectors_per_cluster (boot fs) \<noteq> 0" and b: "b = boot fs"
  shows "fat_geometry fs = Inr (fs\<lparr>fat_start := ucast (reserved_sectors b), fat_size := boot_fat_size b,
    root_start := ucast (reserved_sectors b) + ucast (num_fats b) * boot_fat_size b,
    root_cluster := (if boot_cluster_count b < 65525 then root_cluster fs else fat32_root_cluster b),
    data_start := boot_data_start b, cluster_count := boot_cluster_count b,
    cluster_size := ucast (sectors_per_cluster b) * ucast (bytes_per_sector b),
    fat_type := (if boot_cluster_count b < 4085 then FAT_TYPE_FAT12
                 else if boot_cluster_count b < 65525 then FAT_TYPE_FAT16 else FAT_TYPE_FAT32)\<rparr>)"
proof -
  have nz: "(ucast (bytes_per_sector b) :: u32) \<noteq> 0" "(ucast (sectors_per_cluster b) :: u32) \<noteq> 0"
    using assms by (simp_all only: unat_eq_zero [symmetric] unat_ucast_widen) simp_all
  have "boot_cluster_count b < 65525" if "boot_cluster_count b < 4085"
    using that by (rule less_trans) simp
  then show ?thesis
    unfolding fat_geometry_def Let_def b [symmetric] boot_fat_size_def [symmetric] boot_total_sectors_def [symmetric]
      boot_root_sectors_def [symmetric]
    using nz by (simp add: boot_data_start_def [symmetric] boot_cluster_count_def [symmetric])
qed

lemma store_bytes_agree:
  assumes "length xs \<le> n" "unat p + n < 2 ^ 64"
  shows "agree (- {unat p..<unat p + n}) m (store_bytes p xs m)"
proof -
  have "store_bytes p xs m x = m x" if "unat x \<notin> {unat p..<unat p + n}" for x
  proof (rule store_bytes_outside)
    fix i assume i: "i < length xs"
    then have "unat (p + of_nat i) = unat p + i"
      using assms by (subst unat_add_small) (simp_all add: unat_of_nat_small)
    then show "x \<noteq> p + of_nat i" using that i assms(1) by auto
  qed
  then show ?thesis by (simp add: agree_def)
qed

text \<open>Loading the table into its block of the heap keeps the other blocks.\<close>

lemma load_fat_heap:
  fixes s :: "'a kata_scheme"
  assumes d: "disk_ready busy d0 s" and h: "heap_ok s bs" and blk: "(unat (fat fs), n) \<in> live (heap_base s) bs" "k * 512 \<le> n"
    and bps: "bytes_per_sector (boot fs) = 512" and k: "k * 512 < 2 ^ 32"
    and bytes: "bytes = concat (map (\<lambda>j. disk_of d0 s (fat_start fs + of_nat j)) [0..<k])"
  obtains s' where "load_fat fs [0..<k] s = Some (1, s')" "heap_ok s' bs" "heap_base s' = heap_base s" "disk_ready busy d0 s'"
    "disk_of d0 s' = disk_of d0 s" "\<forall>i<k * 512. heap_mem s' (fat fs + of_nat i) = bytes ! i"
proof -
  have len: "length bytes = k * 512"
    unfolding bytes by (subst length_concat_const [where n = 512]) (auto simp: disk_sector_length [OF d])
  obtain s' where s': "load_fat fs [0..<k] s = Some (1, s')" "heap_mem s' = store_bytes (fat fs) bytes (heap_mem s)"
    "vm s' = vm s" "heap_first_block s' = heap_first_block s" "disk_ready busy d0 s'" "disk_of d0 s' = disk_of d0 s"
    using load_fat_ok [of busy d0 s fs 0 k] d bps k bytes by auto
  have "agree (- {unat (fat fs)..<unat (fat fs) + n}) (heap_mem s) (heap_mem s')"
    unfolding s'(2) by (rule store_bytes_agree [OF _ heap_live_bound [OF h blk(1)]]) (simp only: len blk(2))
  from heap_ok_client_write [OF h blk(1) this] have "heap_ok s' bs" using s'(3,4) by (simp add: heap_ok_def heap_wf_def)
  moreover have "heap_mem s' (fat fs + of_nat i) = bytes ! i" if "i < k * 512" for i
    using store_bytes_read [of bytes i "fat fs" "heap_mem s"] that len k s'(2) by simp
  ultimately show thesis using that s'(1,3,5,6) by simp
qed

text \<open>\<open>fat_mount\<close> once the boot sector has been read and the buffer for the FAT requested.\<close>

lemma fat_mount_eq:
  fixes s :: "'a kata_scheme"
  assumes "ata_read_sector ATA_DEVICE_PRIMARY_MASTER 0 (kprint ''Mounting FAT filesystem...\<newline>'' s) = Some (1, bytes, s1)"
    and "b = boot_of_bytes bytes" "bytes_per_sector b = 512"
    and "fat_geometry (fs\<lparr>boot := b\<rparr>) = Inr fs1" "boot fs1 = b" "fat_size fs1 = boot_fat_size b"
    and "kmalloc (ucast (boot_fat_size b * 512))
      (kprint ''\<newline>'' (kprint ''Cluster count: '' (kprint (fat_type_name (fat_type fs1)) (kprint ''FAT type: '' s1)))) = Some (p, s3)"
  shows "fat_mount fs s = (if p = NULL then Some (Inr (0, fs1\<lparr>fat := p\<rparr>, kprint ''Failed to allocate memory for FAT\<newline>'' s3))
      else (case load_fat (fs1\<lparr>fat := p\<rparr>) [0..<unat (boot_fat_size b)] s3 of None \<Rightarrow> None
            | Some (r, s4) \<Rightarrow> if r = 0 then Some (Inr (0, fs1\<lparr>fat := p\<rparr>, s4))
                else Some (Inr (1, fs1\<lparr>fat := p\<rparr>, kprint ''FAT filesystem mounted successfully\<newline>'' s4))))"
  using assms by (simp add: fat_mount_def Let_def)

lemma mount_ok:
  fixes s :: "'a kata_scheme"
  assumes d: "disk_ready busy d0 s" and h: "heap_ok s bs" and b: "b = boot_of_bytes (disk_of d0 s 0)"
    and bps: "bytes_per_sector b = 512" and spc: "sectors_per_cluster b \<noteq> 0"
    and fsz: "unat (boot_fat_size b) * 512 < 2 ^ 32" and room: "unat (heap_end (vm s)) + 2 ^ 32 + 5010 < 2 ^ 64"
  shows "\<exists>r fs' s' bs'. fat_mount fs s = Some (Inr (r, fs', s')) \<and> heap_ok s' bs' \<and> disk_ready busy d0 s' \<and>
    disk_of d0 s' = disk_of d0 s \<and> fat_geometry (fs\<lparr>boot := b\<rparr>) = Inr (fs'\<lparr>fat := fat fs\<rparr>) \<and>
    (r = 0 \<and> fat fs' = NULL \<and> live (heap_base s') bs' = live (heap_base s) bs \<or>
     r = 1 \<and> fat fs' \<noteq> NULL \<and>
     (\<exists>n\<ge>unat (boot_fat_size b) * 512. (unat (fat fs'), n) \<notin> live (heap_base s) bs \<and>
        live (heap_base s') bs' = insert (unat (fat fs'), n) (live (heap_base s) bs)) \<and>
     (\<forall>i<unat (boot_fat_size b) * 512. heap_mem s' (fat fs' + of_nat i) =
        concat (map (\<lambda>j. disk_of d0 s (fat_start fs' + of_nat j)) [0..<unat (boot_fat_size b)]) ! i))"
proof -
  let ?s0 = "kprint ''Mounting FAT filesystem...\<newline>'' s" and ?n = "unat (boot_fat_size b)"
  have d0: "disk_ready busy d0 ?s0" "disk_of d0 ?s0 = disk_of d0 s" using quiet_disk [OF quiet_kprint] d by auto
  obtain s1 where s1: "ata_read_sector ATA_DEVICE_PRIMARY_MASTER 0 ?s0 = Some (1, disk_of d0 s 0, s1)" "disk_step busy d0 ?s0 s1"
    using read_sector_disk [OF d0(1)] d0(2) by metis
  obtain fs1 where fs1: "fat_geometry (fs\<lparr>boot := b\<rparr>) = Inr fs1" "boot fs1 = b" "fat fs1 = fat fs" "fat_size fs1 = boot_fat_size b"
    using fat_geometry_eq [of "fs\<lparr>boot := b\<rparr>" b] bps spc by simp
  let ?s2 = "kprint ''\<newline>'' (kprint ''Cluster count: '' (kprint (fat_type_name (fat_type fs1)) (kprint ''FAT type: '' s1)))"
  have s2: "disk_ready busy d0 ?s2" "disk_of d0 ?s2 = disk_of d0 s"
    using quiet_disk [of s1 ?s2] disk_stepD(2,3) [OF s1(2)] d0(2) by (simp_all add: quiet_def)
  have frame: "vm ?s2 = vm s" "heap_first_block ?s2 = heap_first_block s" "heap_mem ?s2 = heap_mem s"
    using disk_stepD(4) [OF s1(2)] by (auto simp: logged_def kprint_def)
  then have h2: "heap_ok ?s2 bs" using h heap_ok_cong [OF frame, of bs] by blast
  have sz: "unat (ucast (boot_fat_size b * 512) :: u64) = ?n * 512"
    using fsz by (simp add: unat_word_ariths)
  have "heap_room (ucast (boot_fat_size b * 512)) ?s2 bs"
    using room h2 frame(1) fsz unfolding heap_room_def sz by (simp add: heap_ok_def heap_wf_def)
  then obtain p s3 bs3 where p: "kmalloc (ucast (boot_fat_size b * 512)) ?s2 = Some (p, s3)" "heap_ok s3 bs3"
    and alloc: "p = NULL \<and> live (heap_base s3) bs3 = live (heap_base s) bs \<or>
       p \<noteq> NULL \<and> (\<exists>n\<ge>?n * 512. (unat p, n) \<notin> live (heap_base s) bs \<and>
         live (heap_base s3) bs3 = insert (unat p, n) (live (heap_base s) bs))"
    using kmalloc_regions [OF h2, of "ucast (boot_fat_size b * 512)"] unfolding sz frame(1) by blast
  have s3: "disk_ready busy d0 s3" "disk_of d0 s3 = disk_of d0 s"
    using quiet_disk [OF kmalloc_quiet [OF p(1)]] s2 by auto
  let ?fs = "fs1\<lparr>fat := p\<rparr>"
  have geo: "fat_geometry (fs\<lparr>boot := b\<rparr>) = Inr (?fs\<lparr>fat := fat fs\<rparr>)" using fs1(1,3) by (cases fs1) simp
  note mount = fat_mount_eq [OF s1(1) b bps fs1(1,2,4) p(1)]
  show ?thesis
  proof (cases "p = NULL")
    case True
    let ?s4 = "kprint ''Failed to allocate memory for FAT\<newline>'' s3"
    have "heap_ok ?s4 bs3" "heap_base ?s4 = heap_base s3" using p(2) by (simp_all add: kprint_def)
    moreover have "disk_ready busy d0 ?s4" "disk_of d0 ?s4 = disk_of d0 s" using quiet_disk [of s3 ?s4] s3 by simp_all
    ultimately show ?thesis using True mount geo alloc by auto
  next
    case False
    then obtain n where n: "?n * 512 \<le> n" "(unat p, n) \<notin> live (heap_base s) bs"
      "live (heap_base s3) bs3 = insert (unat p, n) (live (heap_base s) bs)" using alloc by blast
    have "(unat (fat ?fs), n) \<in> live (heap_base s3) bs3" "bytes_per_sector (boot ?fs) = 512" using n(3) fs1(2) bps by simp_all
    then obtain s4 where s4: "load_fat ?fs [0..<?n] s3 = Some (1, s4)" "heap_ok s4 bs3" "heap_base s4 = heap_base s3"
      "disk_ready busy d0 s4" "disk_of d0 s4 = disk_of d0 s3" "\<forall>i<?n * 512. heap_mem s4 (fat ?fs + of_nat i) =
        concat (map (\<lambda>j. disk_of d0 s3 (fat_start ?fs + of_nat j)) [0..<?n]) ! i"
      by (rule load_fat_heap [OF s3(1) p(2) _ n(1) _ fsz refl]) (rule that)
    let ?s5 = "kprint ''FAT filesystem mounted successfully\<newline>'' s4"
    have "disk_ready busy d0 ?s5" "disk_of d0 ?s5 = disk_of d0 s" using quiet_disk [of s4 ?s5] s4(4,5) s3(2) by simp_all
    moreover have "heap_ok ?s5 bs3" "heap_base ?s5 = heap_base s3" "heap_mem ?s5 = heap_mem s4" using s4(2,3) by (simp_all add: kprint_def)
    ultimately show ?thesis
      using False mount geo n s4(1,6) s3(2) by (intro exI [of _ 1] exI [of _ ?fs] exI [of _ ?s5] exI [of _ bs3]) auto
  qed
qed

section \<open>The data area\<close>

text \<open>A boot sector whose counts describe a volume that is not larger than it says.\<close>

definition boot_fits :: "fat_boot_sector \<Rightarrow> bool" where
  "boot_fits b \<longleftrightarrow> sectors_per_cluster b \<noteq> 0 \<and>
     unat (reserved_sectors b) + unat (num_fats b) * unat (boot_fat_size b) + unat (boot_root_sectors b) \<le> unat (boot_total_sectors b)"

lemma boot_data_start_unat:
  assumes "boot_fits b"
  shows "unat (boot_data_start b) = unat (reserved_sectors b) + unat (num_fats b) * unat (boot_fat_size b) + unat (boot_root_sectors b)"
proof -
  have le: "unat (reserved_sectors b) + unat (num_fats b) * unat (boot_fat_size b) + unat (boot_root_sectors b) < 2 ^ 32"
    using assms unsigned_less [of "boot_total_sectors b", where 'a = nat] by (simp add: boot_fits_def)
  then have m: "unat (ucast (num_fats b) * boot_fat_size b) = unat (num_fats b) * unat (boot_fat_size b)"
    by (subst unat_mult_small) auto
  then have a: "unat (ucast (reserved_sectors b) + ucast (num_fats b) * boot_fat_size b) =
      unat (reserved_sectors b) + unat (num_fats b) * unat (boot_fat_size b)"
    using le by (subst unat_add_small) auto
  show ?thesis unfolding boot_data_start_def using le a by (subst unat_add_small) auto
qed

lemma cluster_sector_range:
  assumes fits: "boot_fits (boot fs)" and ds: "data_start fs = boot_data_start (boot fs)"
    and cc: "cluster_count fs = boot_cluster_count (boot fs)"
    and c: "2 \<le> unat c" "unat c < unat (cluster_count fs) + 2"
  shows "unat (cluster_to_sector fs c) = unat (data_start fs) + (unat c - 2) * unat (sectors_per_cluster (boot fs))"
    "unat (cluster_to_sector fs c) + unat (sectors_per_cluster (boot fs)) \<le> unat (boot_total_sectors (boot fs))"
proof -
  let ?b = "boot fs" and ?n = "unat (sectors_per_cluster (boot fs))"
  let ?free = "unat (boot_total_sectors ?b) - unat (boot_data_start ?b)"
  have le: "unat (boot_data_start ?b) \<le> unat (boot_total_sectors ?b)"
    unfolding boot_data_start_unat [OF fits] using fits by (simp add: boot_fits_def)
  then have "unat (cluster_count fs) = ?free div ?n"
    unfolding cc boot_cluster_count_def by (simp add: unat_div unat_sub word_le_nat_alt)
  then have "unat (cluster_count fs) * ?n \<le> ?free" by simp
  moreover have "(unat c - 2) * ?n + ?n \<le> unat (cluster_count fs) * ?n"
  proof -
    have "Suc (unat c - 2) \<le> unat (cluster_count fs)" using c by linarith
    from mult_le_mono1 [OF this, of ?n] show ?thesis by simp
  qed
  ultimately have bound: "unat (data_start fs) + ((unat c - 2) * ?n + ?n) \<le> unat (boot_total_sectors ?b)"
    using le ds by simp
  have tot: "unat (boot_total_sectors ?b) < 2 ^ 32" using unsigned_less [of "boot_total_sectors ?b", where 'a = nat] by simp
  have sub: "unat (c - 2) = unat c - 2" using c(1) by (subst unat_sub) (simp_all add: word_le_nat_alt)
  have mul: "unat ((c - 2) * ucast (sectors_per_cluster ?b)) = (unat c - 2) * ?n"
    using bound tot sub by (subst unat_mult_small) auto
  have "\<not> c < 2" using c(1) by (simp add: word_less_nat_alt)
  then show eq: "unat (cluster_to_sector fs c) = unat (data_start fs) + (unat c - 2) * ?n"
    unfolding cluster_to_sector_def using bound tot mul by (simp add: unat_add_small)
  show "unat (cluster_to_sector fs c) + ?n \<le> unat (boot_total_sectors ?b)" unfolding eq using bound by simp
qed

lemma cluster_sector_beyond:
  assumes fits: "boot_fits (boot fs)" and ds: "data_start fs = boot_data_start (boot fs)"
    and cc: "cluster_count fs = boot_cluster_count (boot fs)"
    and c: "unat (cluster_count fs) + 2 \<le> unat c" "unat (data_start fs) + (unat c - 2) * unat (sectors_per_cluster (boot fs)) < 2 ^ 32"
  shows "unat (boot_total_sectors (boot fs)) < unat (cluster_to_sector fs c) + unat (sectors_per_cluster (boot fs))"
proof -
  let ?b = "boot fs" and ?n = "unat (sectors_per_cluster (boot fs))"
  let ?free = "unat (boot_total_sectors ?b) - unat (boot_data_start ?b)"
  have n: "0 < ?n" using fits by (simp add: boot_fits_def unat_gt_0)
  have le: "unat (boot_data_start ?b) \<le> unat (boot_total_sectors ?b)"
    unfolding boot_data_start_unat [OF fits] using fits by (simp add: boot_fits_def)
  then have "unat (cluster_count fs) = ?free div ?n"
    unfolding cc boot_cluster_count_def by (simp add: unat_div unat_sub word_le_nat_alt)
  then have "?free < ?n + unat (cluster_count fs) * ?n" using dividend_less_times_div [OF n, of ?free] by (simp add: mult.commute)
  also have "unat (cluster_count fs) * ?n \<le> (unat c - 2) * ?n" using c(1) by (intro mult_le_mono1) simp
  finally have *: "unat (boot_total_sectors ?b) < unat (data_start fs) + (unat c - 2) * ?n + ?n" using le ds by simp
  have sub: "unat (c - 2) = unat c - 2" using c(1) by (subst unat_sub) (simp_all add: word_le_nat_alt)
  have mul: "unat ((c - 2) * ucast (sectors_per_cluster ?b)) = (unat c - 2) * ?n"
    using c(2) sub by (subst unat_mult_small) auto
  have "\<not> c < 2" using c(1) by (simp add: word_less_nat_alt)
  then have "unat (cluster_to_sector fs c) = unat (data_start fs) + (unat c - 2) * ?n"
    using c(2) mul by (simp add: cluster_to_sector_def unat_add_small)
  then show ?thesis using * by simp
qed

section \<open>Seeking\<close>

lemma seek_set: "0 \<le> pos \<Longrightarrow> pos \<le> uint (f_size vf) \<Longrightarrow> fat_seek vf pos 0 = (1, vf\<lparr>f_position := word_of_int pos\<rparr>)"
proof -
  assume pos: "0 \<le> pos" "pos \<le> uint (f_size vf)"
  then have "uint (word_of_int pos :: u32) = pos" by (intro word_of_int_inverse) (use unsigned_less [of "f_size vf", where 'a = int] in auto)
  then have "\<not> f_size vf < word_of_int pos" using pos by (simp add: word_less_def)
  then show ?thesis by (simp add: fat_seek_def Let_def)
qed

lemma read_one_round:
  assumes d: "disk_ready busy d0 s" and fs: "fat_ok fs" and buf: "length buf = 4096"
    and p: "unat (f_position vf) + unat sz \<le> unat (f_size vf)" and sz: "0 < sz"
    and in_cluster: "unat (f_position vf) mod unat (cluster_size fs) + unat sz \<le> unat (cluster_size fs)"
    and nxt: "nxt = read_fat_entry fs (heap_mem s) (current_cluster ff)"
  shows "\<exists>s'. fat_read fs vf ff sz buf s =
    Some (Inr (1, sz, segment (unat (f_position vf) mod unat (cluster_size fs)) (unat sz)
        (cluster_bytes fs (disk_of d0 s) (current_cluster ff)), vf\<lparr>f_position := f_position vf + sz\<rparr>,
        if cluster_size fs \<le> f_position vf mod cluster_size fs + sz \<and> nxt < 0x0FFFFFF8 then ff\<lparr>current_cluster := nxt\<rparr> else ff, s')) \<and>
    disk_step busy d0 s s'"
proof -
  let ?c = "cluster_bytes fs (disk_of d0 s) (current_cluster ff)"
  obtain rest s1 where rc: "read_cluster fs (current_cluster ff) buf s = Some (Inr (1, ?c @ rest, s1))"
    and len: "length (?c @ rest) = 4096" and step: "disk_step busy d0 s s1"
    using read_cluster_disk [OF d fs buf, of "current_cluster ff"] by blast
  have clen: "length ?c = unat (cluster_size fs)" using cluster_bytes_length [OF d] fs by (simp add: fat_ok_def)
  have more: "0 < sz" "f_position vf < f_size vf"
    using p sz by (simp_all add: word_less_nat_alt)
  have k: "round_count fs vf sz 0 = sz"
    using round_count_unat(1) [OF fs more] p in_cluster by (simp add: word_unat_eq_iff read_count_def)
  then have kk: "min (cluster_size fs - f_position vf mod cluster_size fs) (min (sz - 0) (f_size vf - f_position vf)) = sz"
    by (simp add: round_count_def)
  have fits: "unat (f_position vf mod cluster_size fs) + unat sz \<le> length ?c"
    using in_cluster clen by (simp add: unat_mod)
  have stop: "fat_read_loop fs sz vf' ff' sz out buf' s' = Some (Inr (vf', ff', sz, out, s'))" for vf' ff' out buf' s'
    by (subst fat_read_loop.simps) simp
  have nxt1: "read_fat_entry fs (heap_mem s1) (current_cluster ff) = nxt" using disk_stepD(1) [OF step] nxt by simp
  have "\<not> length (?c @ rest) < unat (f_position vf mod cluster_size fs) + unat sz" using fits by simp
  then have "fat_read_loop fs sz vf ff 0 [] buf s = Some (Inr (vf\<lparr>f_position := f_position vf + sz\<rparr>,
      if cluster_size fs \<le> f_position vf mod cluster_size fs + sz \<and> nxt < 0x0FFFFFF8 then ff\<lparr>current_cluster := nxt\<rparr> else ff, sz,
      segment (unat (f_position vf mod cluster_size fs)) (unat sz) (?c @ rest), s1))"
    using more fat_ok_size(3) [OF fs] by (subst fat_read_loop.simps) (simp add: rc kk [simplified] stop Let_def nxt1 not_le [symmetric])
  then show ?thesis using fits step unfolding fat_read_def by (auto simp: segment_prefix unat_mod)
qed

section \<open>Properties\<close>

text \<open>
  A small FAT32 volume for examples: one sector per cluster, one FAT of one sector, 131072 sectors. All sectors of
  the example disks hold the same words.
\<close>

definition sample_boot_words :: "u16 list" where
  "sample_boot_words = [0, 0, 0, 0, 0, 0, 0x0102, 1, 1, 0, 0, 1, 0, 0, 0, 0, 0, 2] @ replicate 238 0"

definition sample_boot :: fat_boot_sector where
  "sample_boot = boot_of_bytes (sector_bytes sample_boot_words)"

definition sample_fs :: fat_filesystem where
  "sample_fs = \<lparr>boot = sample_boot, fat_start = 1, fat_size = 1, root_start = 2, root_cluster = 5, data_start = boot_data_start sample_boot,
     cluster_count = boot_cluster_count sample_boot, cluster_size = 512, fat_type = FAT_TYPE_FAT32, fat = 0\<rparr>"

definition volume :: "u16 list \<Rightarrow> ata" where
  "volume ws = sample_drive\<lparr>a_disk := \<lambda>_. ws\<rparr>"

definition volume_machine :: "u16 list \<Rightarrow> mem \<Rightarrow> kata" where
  "volume_machine ws m = (sample_ata (ata_env sample_busy (volume ws)))\<lparr>heap_mem := m\<rparr>"

lemma volume_machine_ready:
  "length ws = 256 \<Longrightarrow> disk_ready sample_busy (volume ws) (volume_machine ws m)"
  "disk_of (volume ws) (volume_machine ws m) = (\<lambda>_. sector_bytes ws)"
  "heap_mem (volume_machine ws m) = m"
  by (auto simp: disk_ready_def disk_of_def ata_present_def volume_machine_def volume_def sample_drive_def sample_settles sample_ata_io
      ata_env_def ata_dev_def status_byte fun_eq_iff)

lemma sample_boot_fields:
  "bytes_per_sector sample_boot = 512" "sectors_per_cluster sample_boot = 1" "reserved_sectors sample_boot = 1"
  "num_fats sample_boot = 1" "root_entries sample_boot = 0" "total_sectors_16 sample_boot = 0" "fat_size_16 sample_boot = 1"
  "total_sectors_32 sample_boot = 131072"
  by (simp_all add: sample_boot_def sample_boot_words_def boot_of_bytes_def sector_bytes_def le16_def le32_def)

lemma sample_boot_geometry:
  "boot_fat_size sample_boot = 1" "boot_data_start sample_boot = 2" "boot_cluster_count sample_boot = 131070" "boot_fits sample_boot"
  by (simp_all add: boot_fat_size_def boot_data_start_def boot_cluster_count_def boot_total_sectors_def boot_root_sectors_def
      boot_fits_def sample_boot_fields)

lemma sample_fs_fields:
  "boot sample_fs = sample_boot" "cluster_size sample_fs = 512" "fat_type sample_fs = FAT_TYPE_FAT32" "fat sample_fs = 0"
  "root_cluster sample_fs = 5" "data_start sample_fs = boot_data_start sample_boot"
  "cluster_count sample_fs = boot_cluster_count sample_boot" "fat_ok sample_fs"
  by (simp_all add: sample_fs_def fat_ok_def sample_boot_fields)

lemma sample_cluster: "cluster_bytes sample_fs (\<lambda>_. bs) c = bs"
  by (simp add: cluster_bytes_def sample_fs_fields sample_boot_fields)

definition sample_vfs_file :: vfs_file where
  "sample_vfs_file = \<lparr>f_path = [], f_flags = 0, f_position = 0, f_size = 600, f_attributes = 0, private_data = 0\<rparr>"

definition sample_fat_file :: fat_file where
  "sample_fat_file = \<lparr>first_cluster = 5, current_cluster = 5, cluster_offset = 0\<rparr>"

lemma sector_replicate:
  assumes "ucast w = b" "ucast (drop_bit 8 w) = b"
  shows "sector_bytes (replicate n w) = replicate (2 * n) b"
  using assms by (induction n) (simp_all add: sector_bytes_def)

lemma sample_sectors:
  "sector_bytes (replicate 256 0x4141) = replicate 512 0x41" "sector_bytes (replicate 256 0xE5E5) = replicate 512 0xE5"
  by (simp_all add: sector_replicate)

text \<open>
  C14. Reading a file. When the clusters of a file are linked in the cached FAT and the file is positioned,
  \<open>fat_read\<close> returns 1 and exactly the bytes of the file from its position on, as many as
  were asked for and the size of the file allows, across cluster boundaries; the position advances by that number
  and the file stays positioned, so the next read continues there. It ends on every request.
\<close>

theorem fat_read_returns_file_bytes:
  assumes "disk_ready busy d0 s" "fat_ok fs" "chained fs (heap_mem s) cs" "positioned fs cs vf ff" "length buf = 4096"
    and "n = min (unat sz) (unat (f_size vf) - unat (f_position vf))"
  shows "\<exists>ff' s'. fat_read fs vf ff sz buf s =
      Some (Inr (1, of_nat n, segment (unat (f_position vf)) n (file_bytes fs (disk_of d0 s) cs),
        vf\<lparr>f_position := f_position vf + of_nat n\<rparr>, ff', s')) \<and>
    positioned fs cs (vf\<lparr>f_position := f_position vf + of_nat n\<rparr>) ff' \<and> disk_step busy d0 s s'"
  using read_loop_ok [OF assms(2,3,4,1,5), of n sz 0 "[]"] assms(6) by (auto simp: fat_read_def read_count_def)

theorem fat_read_returns_file_bytes_witness:
  "\<exists>ff' s'. fat_read sample_fs (sample_vfs_file\<lparr>f_position := 510\<rparr>) sample_fat_file 4 (replicate 4096 0)
      (volume_machine (replicate 256 0x4141) (wr32 20 6 (\<lambda>_. 0xFF))) =
    Some (Inr (1, 4, replicate 4 0x41, sample_vfs_file\<lparr>f_position := 514\<rparr>, ff', s')) \<and>
    positioned sample_fs [5, 6] (sample_vfs_file\<lparr>f_position := 514\<rparr>) ff'"
proof -
  let ?ws = "replicate 256 0x4141" and ?m = "wr32 20 6 (\<lambda>_. 0xFF)"
  let ?s = "volume_machine ?ws ?m" and ?vf = "sample_vfs_file\<lparr>f_position := 510\<rparr>"
  have ready: "disk_ready sample_busy (volume ?ws) ?s" by (rule volume_machine_ready) simp
  have ch: "chained sample_fs (heap_mem ?s) [5, 6]"
    by (simp add: volume_machine_ready(3) read_fat_entry_def sample_fs_fields)
  have pos: "positioned sample_fs [5, 6] ?vf sample_fat_file"
    by (simp add: positioned_def sample_vfs_file_def sample_fat_file_def sample_fs_fields)
  have bytes: "segment 510 4 (file_bytes sample_fs (disk_of (volume ?ws) ?s) [5, 6]) = replicate 4 0x41"
    by (simp add: file_bytes_def volume_machine_ready(2) sample_cluster sample_sectors segment_def replicate_add [symmetric])
  show ?thesis
    using fat_read_returns_file_bytes [OF ready sample_fs_fields(8) ch pos, of "replicate 4096 0" 4 4] bytes
    by (auto simp: sample_vfs_file_def)
qed

text \<open>
  C15. Opening a file. On a FAT32 volume whose root directory is a chain of clusters, \<open>fat_open\<close> searches the
  entries of the whole chain in order, up to the first free one, and skips deleted ones: it returns 1 with the size,
  attributes and first cluster of the first entry that bears the 8.3 name of the path, and 0 without
  effect when there is none.
\<close>

theorem fat_open_finds_first_entry:
  assumes "disk_ready busy d0 s" "fat_ok fs" "length buf = 4096" "fat_type fs = FAT_TYPE_FAT32"
    and "dir_chain fs (heap_mem s) (root_cluster fs # cs)" "length path < 256"
  shows "\<exists>s'. disk_step busy d0 s s' \<and> fat_open fs vf ff path flags buf s =
    (case dir_find (fat_name path) (concat (map (cluster_entries fs (disk_of d0 s)) (root_cluster fs # cs))) of
       None \<Rightarrow> Some (Inr (0, vf, ff, s'))
     | Some d \<Rightarrow>
         let first = push_bit 16 (ucast (fst_clus_hi d)) OR ucast (fst_clus_lo d)
         in Some (Inr (1, vf\<lparr>f_path := path, f_flags := flags, f_size := d_file_size d, f_attributes := ucast (d_attr d)\<rparr>,
              ff\<lparr>first_cluster := first, current_cluster := first, cluster_offset := 0\<rparr>, s')))"
proof -
  obtain s' where s': "lookup_loop fs (fat_name path) (root_cluster fs) buf s =
      Some (Inr (dir_find (fat_name path) (concat (map (cluster_entries fs (disk_of d0 s)) (root_cluster fs # cs))), s'))"
    "disk_step busy d0 s s'"
    using lookup_loop_finds [OF assms(1-3,5), of "fat_name path"] by blast
  show ?thesis
    by (rule exI [of _ s'], rule conjI [OF s'(2)])
      (use s'(1) assms(4,6) in \<open>simp add: fat_open_def lookup_file_in_dir_def Let_def split: option.split\<close>)
qed

definition sample_path :: "u8 list" where
  "sample_path = [0x61, 0x61, 0x61, 0x61, 0x61, 0x61, 0x61, 0x61, 0x2E, 0x61, 0x61, 0x61]"

lemma sample_path_name: "fat_name sample_path = replicate 11 0x41"
  by (simp add: sample_path_def fat_name_eq pad_def to_upper_def) (simp add: numeral_eq_Suc)

lemma sample_entries:
  "cluster_entries sample_fs (\<lambda>_. replicate 512 b) c = replicate 16 (replicate 32 b)"
proof -
  have "map (\<lambda>i. segment (i * 32) 32 (replicate 512 b)) [0..<16] = map (\<lambda>_. replicate 32 b) [0..<16]"
    by (intro map_cong) (auto simp: segment_def min_def)
  then show ?thesis by (simp add: cluster_entries_def sample_cluster sample_fs_fields map_replicate_const)
qed

theorem fat_open_finds_first_entry_witness:
  "\<exists>s'. fat_open sample_fs sample_vfs_file sample_fat_file sample_path 1 (replicate 4096 0)
      (volume_machine (replicate 256 0x4141) (wr32 20 0x0FFFFFFF (\<lambda>_. 0))) =
    Some (Inr (1, \<lparr>f_path = sample_path, f_flags = 1, f_position = 0, f_size = 0x41414141, f_attributes = 0x41, private_data = 0\<rparr>,
      \<lparr>first_cluster = 0x41414141, current_cluster = 0x41414141, cluster_offset = 0\<rparr>, s'))"
proof -
  let ?ws = "replicate 256 0x4141" and ?m = "wr32 20 0x0FFFFFFF (\<lambda>_. 0)"
  let ?s = "volume_machine ?ws ?m" and ?e = "replicate 32 0x41 :: u8 list"
  have ready: "disk_ready sample_busy (volume ?ws) ?s" by (rule volume_machine_ready) simp
  have ch: "dir_chain sample_fs (heap_mem ?s) [root_cluster sample_fs]"
    by (simp add: dir_chain_def volume_machine_ready(3) sample_fs_fields sample_boot_geometry read_fat_entry_def)
  have dir: "concat (map (cluster_entries sample_fs (disk_of (volume ?ws) ?s)) [root_cluster sample_fs]) = ?e # replicate 15 ?e"
    unfolding volume_machine_ready(2) sample_sectors by (simp add: sample_entries flip: replicate_Suc)
  have d: "dir_find (replicate 11 0x41) (?e # replicate 15 ?e) = Some (dirent_of_bytes ?e)" by simp
  have f: "d_file_size (dirent_of_bytes ?e) = 0x41414141" "d_attr (dirent_of_bytes ?e) = 0x41"
     "fst_clus_hi (dirent_of_bytes ?e) = 0x4141" "fst_clus_lo (dirent_of_bytes ?e) = 0x4141"
    by (simp_all add: dirent_of_bytes_def le16_def le32_def)
  obtain s' where "fat_open sample_fs sample_vfs_file sample_fat_file sample_path 1 (replicate 4096 0) ?s =
    Some (Inr (1, sample_vfs_file\<lparr>f_path := sample_path, f_flags := 1, f_size := 0x41414141, f_attributes := 0x41\<rparr>,
              sample_fat_file\<lparr>first_cluster := 0x41414141, current_cluster := 0x41414141, cluster_offset := 0\<rparr>, s'))"
    using fat_open_finds_first_entry [OF ready sample_fs_fields(8) _ sample_fs_fields(3) ch, of "replicate 4096 0" sample_path sample_vfs_file sample_fat_file 1]
    unfolding dir sample_path_name d by (auto simp: f Let_def sample_path_def)
  then show ?thesis by (simp add: sample_vfs_file_def sample_fat_file_def)
qed

text \<open>
  File names. The name \<open>lookup_file_in_dir\<close> searches for is the upper-case form of the first eight
  characters before the first dot and the first three behind it, each padded with blanks; a later
  dot is part of the extension.
\<close>

theorem fat_name_is_8_3:
  "fat_name filename =
     map to_upper (pad 8 (takeWhile (\<lambda>c. c \<noteq> 0x2E) filename) @
                   pad 3 (drop (length (takeWhile (\<lambda>c. c \<noteq> 0x2E) filename) + 1) filename))"
  by (rule fat_name_eq)


definition mount_machine :: kata where
  "mount_machine = (volume_machine sample_boot_words (heap_mem sample_heap))
     \<lparr>vm := vm sample_heap, heap_first_block := heap_first_block sample_heap\<rparr>"

lemma mount_machine_ok:
  "disk_ready sample_busy (volume sample_boot_words) mount_machine" "heap_ok mount_machine sample_blocks"
  "disk_of (volume sample_boot_words) mount_machine = (\<lambda>_. sector_bytes sample_boot_words)"
  "vm mount_machine = vm sample_heap"
proof -
  have io: "io mount_machine = io (volume_machine sample_boot_words (heap_mem sample_heap))" by (simp add: mount_machine_def)
  have "length sample_boot_words = 256" by (simp add: sample_boot_words_def)
  then show "disk_ready sample_busy (volume sample_boot_words) mount_machine"
    using volume_machine_ready(1) [of sample_boot_words "heap_mem sample_heap"]
    by (simp add: disk_ready_def ata_present_def io del: split_paired_All)
  show "heap_ok mount_machine sample_blocks"
    using sample_heap_ok(1) by (simp add: heap_ok_def heap_wf_def mount_machine_def volume_machine_def)
  show "disk_of (volume sample_boot_words) mount_machine = (\<lambda>_. sector_bytes sample_boot_words)"
    using volume_machine_ready(2) [of sample_boot_words "heap_mem sample_heap"] by (simp add: disk_of_def fun_eq_iff io)
  show "vm mount_machine = vm sample_heap" by (simp add: mount_machine_def)
qed


text \<open>
  C36. The data area. When the counts of the boot sector fit the volume, the cluster numbers from 2 up to the number of clusters plus 1 denote
  sectors behind the FATs and the root directory and inside the volume, and different ones denote disjoint groups of sectors. These are
  the only numbers of which that holds, and the driver leaves it to its callers to use no others: 0 and 1 give sector 0, where the boot sector is, and every larger number
  gives sectors that reach beyond the end of the volume, as long as the sector number does not wrap around in 32 bits.
\<close>

theorem fat_clusters_in_volume:
  assumes "fat_geometry fs = Inr fs'" "boot_fits (boot fs)" "bytes_per_sector (boot fs) \<noteq> 0"
  shows "(2 \<le> unat c \<and> unat c < unat (cluster_count fs') + 2 \<longrightarrow>
      unat (reserved_sectors (boot fs)) + unat (num_fats (boot fs)) * unat (boot_fat_size (boot fs)) + unat (boot_root_sectors (boot fs))
        \<le> unat (cluster_to_sector fs' c) \<and>
      unat (cluster_to_sector fs' c) + unat (sectors_per_cluster (boot fs)) \<le> unat (boot_total_sectors (boot fs)) \<and>
      (c < c' \<and> unat c' < unat (cluster_count fs') + 2 \<longrightarrow>
        unat (cluster_to_sector fs' c) + unat (sectors_per_cluster (boot fs)) \<le> unat (cluster_to_sector fs' c'))) \<and>
    (unat c < 2 \<longrightarrow> cluster_to_sector fs' c = 0) \<and>
    (unat (cluster_count fs') + 2 \<le> unat c \<and>
       unat (data_start fs') + (unat c - 2) * unat (sectors_per_cluster (boot fs)) < 2 ^ 32 \<longrightarrow>
      unat (boot_total_sectors (boot fs)) < unat (cluster_to_sector fs' c) + unat (sectors_per_cluster (boot fs)))"
proof -
  let ?n = "unat (sectors_per_cluster (boot fs))"
  have g: "boot fs' = boot fs" "data_start fs' = boot_data_start (boot fs')" "cluster_count fs' = boot_cluster_count (boot fs')"
    using assms(1) fat_geometry_eq [OF assms(3) _ refl] assms(2) by (auto simp: boot_fits_def)
  have fits: "boot_fits (boot fs')" using assms(2) g(1) by simp
  note range = cluster_sector_range [OF fits g(2,3), unfolded g(1)]
  have "unat (reserved_sectors (boot fs)) + unat (num_fats (boot fs)) * unat (boot_fat_size (boot fs)) + unat (boot_root_sectors (boot fs))
      \<le> unat (cluster_to_sector fs' c)" if "2 \<le> unat c" "unat c < unat (cluster_count fs') + 2"
    using range(1) [OF that] boot_data_start_unat [OF fits] g(1,2) by simp
  moreover have "unat (cluster_to_sector fs' c) + ?n \<le> unat (cluster_to_sector fs' c')"
    if c: "2 \<le> unat c" "unat c < unat (cluster_count fs') + 2" and c': "c < c'" "unat c' < unat (cluster_count fs') + 2"
  proof -
    have "Suc (unat c - 2) \<le> unat c' - 2" using c(1) c'(1) by (simp add: word_less_nat_alt)
    from mult_le_mono1 [OF this, of ?n] show ?thesis
      using range(1) [OF c] range(1) [of c'] c' c(1) by (simp add: word_less_nat_alt)
  qed
  moreover have "cluster_to_sector fs' c = 0" if "unat c < 2" using that by (simp add: cluster_to_sector_def word_less_nat_alt)
  moreover have "unat (boot_total_sectors (boot fs)) < unat (cluster_to_sector fs' c) + ?n"
    if "unat (cluster_count fs') + 2 \<le> unat c" "unat (data_start fs') + (unat c - 2) * ?n < 2 ^ 32"
    using cluster_sector_beyond [OF fits g(2,3) that(1)] that(2) g(1) by simp
  ultimately show ?thesis using range(2) by blast
qed

theorem fat_clusters_in_volume_witness:
  "\<exists>fs'. fat_geometry sample_fs = Inr fs' \<and> unat (cluster_to_sector fs' 7) + 1 \<le> 131072 \<and>
    unat (cluster_to_sector fs' 7) + 1 \<le> unat (cluster_to_sector fs' 8) \<and> cluster_to_sector fs' 1 = 0 \<and>
    131072 < unat (cluster_to_sector fs' 131072) + 1"
proof -
  have nz: "bytes_per_sector (boot sample_fs) \<noteq> 0" "sectors_per_cluster (boot sample_fs) \<noteq> 0"
    by (simp_all add: sample_fs_fields sample_boot_fields)
  obtain fs' where g: "fat_geometry sample_fs = Inr fs'" "cluster_count fs' = 131070" "data_start fs' = 2"
    using fat_geometry_eq [OF nz refl] by (simp add: sample_fs_fields sample_boot_geometry)
  have fits: "boot_fits (boot sample_fs)" by (simp add: sample_fs_fields sample_boot_geometry)
  note f = sample_fs_fields sample_boot_fields boot_total_sectors_def g(2,3)
  have "unat (cluster_to_sector fs' 7) + 1 \<le> 131072" "unat (cluster_to_sector fs' 7) + 1 \<le> unat (cluster_to_sector fs' 8)"
    using fat_clusters_in_volume [OF g(1) fits nz(1), of 7 8] by (simp_all add: f)
  moreover have "cluster_to_sector fs' 1 = 0" using fat_clusters_in_volume [OF g(1) fits nz(1), of 1 8] by simp
  moreover have "131072 < unat (cluster_to_sector fs' 131072) + 1"
    using fat_clusters_in_volume [OF g(1) fits nz(1), of 131072 8] by (simp add: f)
  ultimately show ?thesis using g(1) by blast
qed

text \<open>
  A circular directory. When the clusters of the root directory link back to one another, every entry is in use or
  deleted and none bears the name, the search of \<open>fat_open\<close> goes round for ever: it does not return. Nothing bounds
  the walk by the number of clusters.
\<close>

theorem fat_open_circular_directory:
  fixes s :: "'a kata_scheme"
  assumes "disk_ready busy d0 s" "fat_ok fs" "length buf = 4096" "fat_type fs = FAT_TYPE_FAT32" "root_cluster fs \<in> S"
    and "dir_cycle fs (fat_name path) S (heap_mem s) (disk_of d0 s)"
  shows "fat_open fs vf ff path flags buf s = None"
proof -
  have "lookup_loop fs (fat_name path) (root_cluster fs) buf s = None"
    using lookup_loop_cycle assms(1,2,3,5,6) by (metis not_Some_eq)
  then show ?thesis using assms(4) by (simp add: fat_open_def lookup_file_in_dir_def)
qed

theorem fat_open_circular_directory_witness:
  "fat_open sample_fs sample_vfs_file sample_fat_file sample_path 1 (replicate 4096 0)
     (volume_machine (replicate 256 0xE5E5) (wr32 20 5 (\<lambda>_. 0))) = None"
proof -
  let ?ws = "replicate 256 0xE5E5" and ?m = "wr32 20 5 (\<lambda>_. 0)"
  let ?s = "volume_machine ?ws ?m"
  have ready: "disk_ready sample_busy (volume ?ws) ?s" by (rule volume_machine_ready) simp
  have "\<not> dir_ends name (replicate n (replicate 32 0xE5))" for name n by (induction n) simp_all
  then have "dir_cycle sample_fs (fat_name sample_path) {5} (heap_mem ?s) (disk_of (volume ?ws) ?s)"
    by (simp add: dir_cycle_def volume_machine_ready(2,3) sample_sectors sample_entries sample_fs_fields sample_boot_geometry
        read_fat_entry_def)
  from fat_open_circular_directory [OF ready sample_fs_fields(8) _ sample_fs_fields(3) _ this]
  show ?thesis by (simp add: sample_fs_fields)
qed

text \<open>
  Seeking. \<open>fat_seek\<close> moves the position but not the current cluster, and \<open>fat_read\<close> takes only the
  offset inside a cluster from the position: after seeking to any position of the file, a read
  inside one cluster returns bytes of the cluster the file was at before the seek.
\<close>

theorem fat_seek_keeps_cluster:
  fixes s :: "'a kata_scheme"
  assumes "disk_ready busy d0 s" "fat_ok fs" "length buf = 4096" "0 < sz" "unat pos + unat sz \<le> unat (f_size vf)"
    and "unat pos mod unat (cluster_size fs) + unat sz \<le> unat (cluster_size fs)"
  shows "\<exists>vf' ff' s'. fat_seek vf (uint pos) 0 = (1, vf\<lparr>f_position := pos\<rparr>) \<and>
    fat_read fs (vf\<lparr>f_position := pos\<rparr>) ff sz buf s =
      Some (Inr (1, sz, segment (unat pos mod unat (cluster_size fs)) (unat sz)
          (cluster_bytes fs (disk_of d0 s) (current_cluster ff)), vf', ff', s'))"
proof -
  have "pos \<le> f_size vf" using assms(5) by (simp add: word_le_nat_alt)
  then have "fat_seek vf (uint pos) 0 = (1, vf\<lparr>f_position := pos\<rparr>)"
    using seek_set [of "uint pos" vf] by (simp add: word_le_def)
  moreover have "\<exists>ff' s'. fat_read fs (vf\<lparr>f_position := pos\<rparr>) ff sz buf s =
      Some (Inr (1, sz, segment (unat pos mod unat (cluster_size fs)) (unat sz)
          (cluster_bytes fs (disk_of d0 s) (current_cluster ff)), vf\<lparr>f_position := pos + sz\<rparr>, ff', s'))"
    using read_one_round [OF assms(1-3) _ assms(4) _ refl, of "vf\<lparr>f_position := pos\<rparr>" ff] assms(5,6) by auto
  ultimately show ?thesis by blast
qed

theorem fat_seek_keeps_cluster_witness:
  "\<exists>vf' ff' s'. fat_seek sample_vfs_file (uint (513 :: u32)) 0 = (1, sample_vfs_file\<lparr>f_position := 513\<rparr>) \<and>
    fat_read sample_fs (sample_vfs_file\<lparr>f_position := 513\<rparr>) sample_fat_file 2 (replicate 4096 0)
      (volume_machine (replicate 256 0x4141) (\<lambda>_. 0)) =
    Some (Inr (1, 2, segment 1 2 (cluster_bytes sample_fs (disk_of (volume (replicate 256 0x4141)) (volume_machine (replicate 256 0x4141) (\<lambda>_. 0))) 5),
      vf', ff', s'))"
proof -
  let ?ws = "replicate 256 0x4141"
  have ready: "disk_ready sample_busy (volume ?ws) (volume_machine ?ws (\<lambda>_. 0))" by (rule volume_machine_ready) simp
  show ?thesis
    using fat_seek_keeps_cluster [OF ready sample_fs_fields(8), of "replicate 4096 0" 2 513 sample_vfs_file sample_fat_file]
    by (simp add: sample_vfs_file_def sample_fat_file_def sample_fs_fields)
qed

text \<open>A seek to before the start of the file ends at its end: the test for a negative position is on an unsigned value.\<close>

theorem fat_seek_before_start:
  assumes "- (2 ^ 31) \<le> offset" "uint (f_position vf) + offset < 0" "f_size vf < 2 ^ 31"
  shows "fat_seek vf offset 1 = (1, vf\<lparr>f_position := f_size vf\<rparr>)"
proof -
  let ?x = "uint (f_position vf) + offset + 4294967296"
  have pos: "0 \<le> uint (f_position vf)" and size: "uint (f_size vf) < 2147483648" and low: "- 2147483648 \<le> offset"
    using assms(1,3) by (simp_all add: word_less_def)
  have "f_position vf + word_of_int offset = (word_of_int ?x :: u32)" by (simp add: word_of_int_eq_iff take_bit_eq_mod)
  moreover have x: "uint (f_size vf) < ?x" using low size pos by linarith
  moreover have x2: "?x < 2 ^ 32" using assms(2) by simp
  moreover have "uint (word_of_int ?x :: u32) = ?x"
    using order_trans [OF unsigned_greater_eq less_imp_le [OF x]] x2 by (intro word_of_int_inverse) simp_all
  ultimately have "uint (f_position vf + word_of_int offset) = ?x" by (simp only:)
  then have "f_size vf < f_position vf + word_of_int offset"
    using x by (simp add: word_less_def)
  then show ?thesis by (simp add: fat_seek_def Let_def)
qed

end
