(* ===== verification/Elf.thy ===== *)
theory Elf
  imports Fat_Volume
begin

text \<open>
  The ELF loader of \<open>kernel/elf.c\<close> with the structures of \<open>kernel/elf.h\<close>. It calls the functions of
  \<open>kernel/fs/vfs.h\<close>, which are declared there but defined nowhere in the sources: they are a parameter, the record \<open>vfs\<close>, and an
  open file is a value of a type the loader does not look into. Memory is read and written by virtual address. A
  page that is mapped afresh shows the bytes of its frame; they are the parameter \<open>frame\<close>.
\<close>

section \<open>Operations\<close>

record ('f, 's) vfs =
  vfs_open :: "string \<Rightarrow> u32 \<Rightarrow> 's \<Rightarrow> (int \<times> 'f \<times> 's) run"
  vfs_read :: "'f \<Rightarrow> u32 \<Rightarrow> 's \<Rightarrow> (int \<times> u32 \<times> u8 list \<times> 'f \<times> 's) run"
  vfs_seek :: "'f \<Rightarrow> int \<Rightarrow> int \<Rightarrow> 's \<Rightarrow> (int \<times> 'f \<times> 's) run"
  vfs_close :: "'f \<Rightarrow> 's \<Rightarrow> 's run"

fun run_bind :: "'x run \<Rightarrow> ('x \<Rightarrow> 'y run) \<Rightarrow> 'y run" where
  "run_bind None f = None"
| "run_bind (Some (Inl e)) f = Some (Inl e)"
| "run_bind (Some (Inr x)) f = f x"

definition ret :: "'x \<Rightarrow> 'x run" where
  "ret x = Some (Inr x)"

definition total_run :: "'x option \<Rightarrow> 'x run" where
  "total_run m = map_option Inr m"

record elf64_ehdr =
  e_ident :: "u8 list"
  e_type :: u16
  e_machine :: u16
  e_version :: u32
  e_entry :: u64
  e_phoff :: u64
  e_shoff :: u64
  e_flags :: u32
  e_ehsize :: u16
  e_phentsize :: u16
  e_phnum :: u16
  e_shentsize :: u16
  e_shnum :: u16
  e_shstrndx :: u16

definition le64 :: "u8 list \<Rightarrow> nat \<Rightarrow> u64" where
  "le64 bs i = ucast (le32 bs i) OR push_bit 32 (ucast (le32 bs (i + 4)))"

definition ehdr_of_bytes :: "u8 list \<Rightarrow> elf64_ehdr" where
  "ehdr_of_bytes bs =
     \<lparr>e_ident = take 16 bs, e_type = le16 bs 16, e_machine = le16 bs 18, e_version = le32 bs 20, e_entry = le64 bs 24,
      e_phoff = le64 bs 32, e_shoff = le64 bs 40, e_flags = le32 bs 48, e_ehsize = le16 bs 52, e_phentsize = le16 bs 54,
      e_phnum = le16 bs 56, e_shentsize = le16 bs 58, e_shnum = le16 bs 60, e_shstrndx = le16 bs 62\<rparr>"

record elf64_phdr =
  p_type :: u32
  p_flags :: u32
  p_offset :: u64
  p_vaddr :: u64
  p_paddr :: u64
  p_filesz :: u64
  p_memsz :: u64
  p_align :: u64

text \<open>\<open>phdrs[i]\<close>, in memory.\<close>

definition phdr_at :: "mem \<Rightarrow> u64 \<Rightarrow> elf64_phdr" where
  "phdr_at m a =
     \<lparr>p_type = rd32 m a, p_flags = rd32 m (a + 4), p_offset = rd64 m (a + 8), p_vaddr = rd64 m (a + 16),
      p_paddr = rd64 m (a + 24), p_filesz = rd64 m (a + 32), p_memsz = rd64 m (a + 40), p_align = rd64 m (a + 48)\<rparr>"

abbreviation ELFCLASS64 :: u8 where "ELFCLASS64 \<equiv> 2"
abbreviation ET_EXEC :: u16 where "ET_EXEC \<equiv> 2"
abbreviation PT_LOAD :: u32 where "PT_LOAD \<equiv> 1"
abbreviation PF_W :: u32 where "PF_W \<equiv> 0x2"

text \<open>The message of the first check the header fails.\<close>

definition header_error :: "elf64_ehdr \<Rightarrow> string option" where
  "header_error h =
     (if e_ident h ! 0 \<noteq> 0x7F \<or> e_ident h ! 1 \<noteq> 0x45 \<or> e_ident h ! 2 \<noteq> 0x4C \<or> e_ident h ! 3 \<noteq> 0x46
      then Some ''ERROR: Invalid ELF magic numbers\<newline>''
      else if e_ident h ! 4 \<noteq> ELFCLASS64 then Some ''ERROR: Not a 64-bit ELF file\<newline>''
      else if e_type h \<noteq> ET_EXEC then Some ''ERROR: Not an executable ELF file\<newline>'' else None)"

definition page_flags :: "elf64_phdr \<Rightarrow> u64 \<Rightarrow> u64" where
  "page_flags ph virt_addr =
     (let flags = PAGE_PRESENT;
          flags1 = (if p_flags ph AND PF_W \<noteq> 0 then flags OR PAGE_WRITABLE else flags)
      in if 0x100000000 \<le> virt_addr then flags1 OR PAGE_USER else flags1)"

definition show_frame :: "(u64 \<Rightarrow> u8) \<Rightarrow> u64 \<Rightarrow> u64 \<Rightarrow> mem \<Rightarrow> mem" where
  "show_frame frame va pa m = (\<lambda>x. if page_base x = page_base va then frame (pa + (x AND 0xFFF)) else m x)"

text \<open>
  The loop over the pages of a segment, for the indices that are left. The program header is in memory
  at the address \<open>phdr\<close>, and every use of a field reads it there again.
\<close>

fun load_pages :: "(u64 \<Rightarrow> u8) \<Rightarrow> u64 \<Rightarrow> u64 \<Rightarrow> nat list \<Rightarrow> 'a kmem_scheme \<Rightarrow> bool \<times> 'a kmem_scheme" where
  "load_pages frame phdr start_page [] s = (True, s)"
| "load_pages frame phdr start_page (page # pages) s =
     (let (phys_page, v1) = alloc_physical_page (vm s); s1 = s\<lparr>vm := v1\<rparr>
      in if phys_page = NULL then (False, kprint ''ERROR: Failed to allocate physical page\<newline>'' s1)
         else
           let virt_addr = start_page + of_nat page * PAGE_SIZE;
               flags = page_flags (phdr_at (heap_mem s1) phdr) virt_addr;
               (r, v2) = map_page virt_addr phys_page flags (vm s1); s2 = s1\<lparr>vm := v2\<rparr>
           in if r \<noteq> 0 then (False, kprint ''ERROR: Failed to map page\<newline>'' s2)
              else load_pages frame phdr start_page pages
                     (s2\<lparr>heap_mem := show_frame frame virt_addr phys_page (heap_mem s2)\<rparr>))"

definition num_pages :: "elf64_phdr \<Rightarrow> u64" where
  "num_pages ph =
     (let start_page = page_base (p_vaddr ph);
          end_page = page_base (p_vaddr ph + p_memsz ph + PAGE_SIZE - 1)
      in (end_page - start_page) div PAGE_SIZE)"

definition clear_bss :: "u64 \<Rightarrow> 'a kmem_scheme \<Rightarrow> 'a kmem_scheme" where
  "clear_bss phdr s =
     (let ph = phdr_at (heap_mem s) phdr
      in if p_filesz ph < p_memsz ph
         then s\<lparr>heap_mem := store_bytes (p_vaddr ph + p_filesz ph) (replicate (unat (p_memsz ph - p_filesz ph)) 0) (heap_mem s)\<rparr>
         else s)"

text \<open>\<open>memcpy\<close> to the segment's address, from the buffer the file was read into.\<close>

definition copy_segment :: "u64 \<Rightarrow> u64 \<Rightarrow> 'a kmem_scheme \<Rightarrow> 'a kmem_scheme" where
  "copy_segment phdr buffer s =
     (let ph = phdr_at (heap_mem s) phdr
      in s\<lparr>heap_mem := store_bytes (p_vaddr ph)
             (map (\<lambda>i. heap_mem s (buffer + of_nat i)) [0..<unat (p_filesz ph)]) (heap_mem s)\<rparr>)"

text \<open>
  Reading the bytes of a segment through a buffer from the heap, and one loadable segment. The first component of
  the result is false when the segment could not be loaded; the message has then been printed and the buffer released.
\<close>

definition read_segment :: "('f, 'a kmem_scheme) vfs \<Rightarrow> u64 \<Rightarrow> 'f \<Rightarrow> 'a kmem_scheme \<Rightarrow> (bool \<times> 'f \<times> 'a kmem_scheme) run" where
  "read_segment V phdr f s =
     (let filesz = (\<lambda>s. p_filesz (phdr_at (heap_mem s) phdr))
      in if 0 < filesz s then
           run_bind (total_run (kmalloc (filesz s) s)) (\<lambda>(buffer, s1).
           if buffer = NULL then ret (False, f, kprint ''ERROR: Failed to allocate buffer for segment data\<newline>'' s1)
           else
             run_bind (vfs_read V f (ucast (filesz s1)) s1) (\<lambda>(r, bytes_read, bs, f1, s2).
             let s3 = s2\<lparr>heap_mem := store_bytes buffer bs (heap_mem s2)\<rparr>
             in if r = 0 \<or> ucast bytes_read \<noteq> filesz s3 then
                  run_bind (total_run (kfree buffer (kprint ''ERROR: Failed to read segment data\<newline>'' s3))) (\<lambda>s4.
                  ret (False, f1, s4))
                else
                  run_bind (total_run (kfree buffer (copy_segment phdr buffer s3))) (\<lambda>s4. ret (True, f1, s4))))
         else ret (True, f, s))"

definition load_segment ::
    "('f, 'a kmem_scheme) vfs \<Rightarrow> (u64 \<Rightarrow> u8) \<Rightarrow> u64 \<Rightarrow> 'f \<Rightarrow> 'a kmem_scheme \<Rightarrow> (bool \<times> 'f \<times> 'a kmem_scheme) run" where
  "load_segment V frame phdr f s =
     (let start_page = page_base (p_vaddr (phdr_at (heap_mem s) phdr));
          n = num_pages (phdr_at (heap_mem s) phdr);
          (ok, s1) = load_pages frame phdr start_page [0..<unat n] s
      in if \<not> ok then ret (False, f, s1)
         else
           run_bind (vfs_seek V f (sint (ucast (p_offset (phdr_at (heap_mem s1) phdr)) :: 32 word)) 0 s1) (\<lambda>(r, f1, s2).
           if r = 0 then ret (False, f1, kprint ''ERROR: Failed to seek to segment data\<newline>'' s2)
           else
             run_bind (read_segment V phdr f1 s2) (\<lambda>(ok, f2, s3).
             ret (if ok then (True, f2, clear_bss phdr s3) else (False, f2, s3)))))"

fun load_segments ::
    "('f, 'a kmem_scheme) vfs \<Rightarrow> (u64 \<Rightarrow> u8) \<Rightarrow> u64 \<Rightarrow> nat list \<Rightarrow> 'f \<Rightarrow> 'a kmem_scheme \<Rightarrow> (bool \<times> 'f \<times> 'a kmem_scheme) run" where
  "load_segments V frame phdrs [] f s = ret (True, f, s)"
| "load_segments V frame phdrs (i # is) f s =
     (let phdr = phdrs + 56 * of_nat i
      in if p_type (phdr_at (heap_mem s) phdr) \<noteq> PT_LOAD then load_segments V frame phdrs is f s
         else
           run_bind (load_segment V frame phdr f s) (\<lambda>(ok, f1, s1).
           if \<not> ok then ret (False, f1, s1) else load_segments V frame phdrs is f1 s1))"

text \<open>
  The table of program headers, read into a block from the heap, and the segments it lists. The block is released
  on every path that took it.
\<close>

definition load_table ::
    "('f, 'a kmem_scheme) vfs \<Rightarrow> (u64 \<Rightarrow> u8) \<Rightarrow> elf64_ehdr \<Rightarrow> 'f \<Rightarrow> 'a kmem_scheme \<Rightarrow> (bool \<times> 'f \<times> 'a kmem_scheme) run" where
  "load_table V frame ehdr f s =
     (let ph_size = ucast (e_phnum ehdr) * ucast (e_phentsize ehdr) :: u32
      in run_bind (total_run (kmalloc (ucast ph_size) s)) (\<lambda>(phdrs, s1).
         if phdrs = NULL then ret (False, f, kprint ''ERROR: Failed to allocate memory for program headers\<newline>'' s1)
         else
           run_bind (vfs_read V f ph_size s1) (\<lambda>(r, bytes_read, bs, f1, s2).
           let s3 = s2\<lparr>heap_mem := store_bytes phdrs bs (heap_mem s2)\<rparr>
           in if r = 0 \<or> bytes_read \<noteq> ph_size then
                run_bind (total_run (kfree phdrs (kprint ''ERROR: Failed to read program headers\<newline>'' s3))) (\<lambda>s4.
                ret (False, f1, s4))
              else
                run_bind (load_segments V frame phdrs [0..<unat (e_phnum ehdr)] f1 s3) (\<lambda>(ok, f2, s4).
                run_bind (total_run (kfree phdrs s4)) (\<lambda>s5. ret (ok, f2, s5))))))"

text \<open>Print a message, close the file and return 0.\<close>

definition give_up :: "('f, 'a kmem_scheme) vfs \<Rightarrow> string \<Rightarrow> 'f \<Rightarrow> process \<Rightarrow> 'a kmem_scheme \<Rightarrow> (int \<times> process \<times> 'a kmem_scheme) run" where
  "give_up V msg f proc s = run_bind (vfs_close V f (kprint msg s)) (\<lambda>s1. ret (0, proc, s1))"

definition elf_load ::
    "('f, 'a kmem_scheme) vfs \<Rightarrow> (u64 \<Rightarrow> u8) \<Rightarrow> string \<Rightarrow> process \<Rightarrow> 'a kmem_scheme \<Rightarrow> (int \<times> process \<times> 'a kmem_scheme) run" where
  "elf_load V frame filename proc s =
     (let s1 = kprint ''\<newline>'' (kprint filename (kprint ''Loading ELF executable: '' s))
      in run_bind (vfs_open V filename VFS_MODE_READ s1) (\<lambda>(r, f, s2).
         if r = 0 then ret (0, proc, kprint ''ERROR: Failed to open file\<newline>'' s2)
         else
           run_bind (vfs_read V f 64 s2) (\<lambda>(r, bytes_read, bs, f, s3).
           if r = 0 \<or> bytes_read \<noteq> 64 then give_up V ''ERROR: Failed to read ELF header\<newline>'' f proc s3
           else
             let ehdr = ehdr_of_bytes bs
             in case header_error ehdr of
                  Some msg \<Rightarrow> give_up V msg f proc s3
                | None \<Rightarrow>
                    let proc = proc\<lparr>p_entry := e_entry ehdr\<rparr>
                    in if e_phnum ehdr = 0 then give_up V ''ERROR: No program headers\<newline>'' f proc s3
                       else
                         run_bind (vfs_seek V f (sint (ucast (e_phoff ehdr) :: 32 word)) 0 s3) (\<lambda>(r, f, s4).
                         if r = 0 then give_up V ''ERROR: Failed to seek to program headers\<newline>'' f proc s4
                         else
                           run_bind (load_table V frame ehdr f s4) (\<lambda>(ok, f, s5).
                           run_bind (vfs_close V f s5) (\<lambda>s6.
                           ret (if ok then (1, proc, kprint ''ELF executable loaded successfully\<newline>'' s6) else (0, proc, s6))))))))"

section \<open>Allocation around a use\<close>

text \<open>The heap depends on nothing but its headers and its limits.\<close>

lemma heap_ok_agree:
  assumes "heap_ok s bs" "agree (hdr_bytes (heap_base s) bs) (heap_mem s) (heap_mem t)" "heap_first_block t = heap_first_block s"
    and "heap_start (vm t) = heap_start (vm s)" "heap_end (vm t) = heap_end (vm s)"
  shows "heap_ok t bs"
proof -
  have "seg (heap_mem t) (heap_base s) bs 0"
    using assms(1) seg_agree [OF assms(2) order_refl, of 0] heap_wf_bounds(1) [of s bs] by (simp add: heap_ok_def heap_wf_def)
  then show ?thesis using assms by (simp add: heap_ok_def heap_wf_def)
qed

section \<open>The pages of a segment\<close>

abbreviation page_addr :: "u64 \<Rightarrow> nat \<Rightarrow> u64" where
  "page_addr start i \<equiv> start + of_nat i * PAGE_SIZE"

lemma page_addr_unat:
  assumes "i < n" "unat start + 4096 * n < 2 ^ 64"
  shows "unat (page_addr start i) = unat start + 4096 * i"
proof -
  have "unat (of_nat (i * 4096) :: u64) = i * 4096" using assms by (intro unat_of_nat_small) simp
  then show ?thesis using assms by (subst unat_add_small) simp_all
qed

lemma show_frame_agree:
  assumes "aligned start" "i < n" "unat start + 4096 * n < 2 ^ 64"
  shows "agree (- {unat start..<unat start + 4096 * n}) m (show_frame frame (page_addr start i) pa m)"
proof -
  have "unat start + 4096 * i \<le> unat x \<and> unat x < unat start + 4096 * i + 4096"
    if "page_base x = page_base (page_addr start i)" for x
  proof -
    have "unat start div 4096 * 4096 = unat start" using assms(1) by (simp add: aligned_unat)
    then have "unat (page_base (page_addr start i)) = unat start + 4096 * i"
      unfolding unat_page_base page_addr_unat [OF assms(2,3)] by simp
    then have "unat x div 4096 * 4096 = unat start + 4096 * i" using that unat_page_base [of x] by simp
    then show ?thesis using div_mult_mod_eq [of "unat x" 4096] mod_less_divisor [of 4096 "unat x"] by linarith
  qed
  then show ?thesis using assms(2) by (fastforce simp: agree_def show_frame_def)
qed

lemma rd_le_shift: "(\<And>i. i < n \<Longrightarrow> m (a + of_nat i) = m' (b + of_nat i)) \<Longrightarrow> rd_le n a m = rd_le n b m'"
proof (induction n arbitrary: a b)
  case (Suc n)
  have "m (a + 1 + of_nat i) = m' (b + 1 + of_nat i)" if "i < n" for i using Suc.prems [of "Suc i"] that by (simp add: add.assoc)
  then show ?case using Suc.IH [of "a + 1" "b + 1"] Suc.prems [of 0] by simp
qed simp

lemma phdr_at_shift:
  assumes "\<And>i. i < 56 \<Longrightarrow> m (a + of_nat i) = m' (b + of_nat i)"
  shows "phdr_at m a = phdr_at m' b"
proof -
  have "rd_le n (a + of_nat k) m = rd_le n (b + of_nat k) m'" if "k + n \<le> 56" for n k
  proof (rule rd_le_shift)
    fix i assume "i < n"
    then show "m (a + of_nat k + of_nat i) = m' (b + of_nat k + of_nat i)"
      using assms [of "k + i"] that by (simp add: add.assoc)
  qed
  from this [of 0 4] this [of 4 4] this [of 8 8] this [of 16 8] this [of 24 8] this [of 32 8] this [of 40 8] this [of 48 8]
  show ?thesis by (simp only: phdr_at_def rd32_def rd64_def of_nat_0 of_nat_numeral add_0_right) simp
qed

lemma phdr_at_agree:
  assumes "agree X m m'" "unat a + 56 < 2 ^ 64" "{unat a..<unat a + 56} \<subseteq> X"
  shows "phdr_at m a = phdr_at m' a"
proof (rule phdr_at_shift)
  fix i :: nat assume i: "i < 56"
  then have "unat (a + of_nat i) = unat a + i" using assms(2) by (subst unat_add_small) (simp_all add: unat_of_nat_small)
  then have "unat (a + of_nat i) \<in> X" using assms(3) i by (simp add: subset_iff)
  then show "m (a + of_nat i) = m' (a + of_nat i)" using assms(1) by (simp add: agree_def)
qed

text \<open>What the loop leaves in the kernel's page tables, from \<open>v0\<close> to \<open>v\<close>.\<close>

definition pages_mapped :: "elf64_phdr \<Rightarrow> u64 \<Rightarrow> nat list \<Rightarrow> mm \<Rightarrow> mm \<Rightarrow> bool" where
  "pages_mapped ph start ps v0 v \<longleftrightarrow>
     (\<forall>va. vpage_of va \<notin> (\<lambda>i. vpage_of (page_addr start i)) ` set ps \<longrightarrow> lookup_pte v va = lookup_pte v0 va) \<and>
     (distinct (map (\<lambda>i. vpage_of (page_addr start i)) ps) \<longrightarrow>
       (\<forall>j<length ps. lookup_pte v (page_addr start (ps ! j)) =
          Some ((next_free_page v0 + 4096 * of_nat j) OR page_flags ph (page_addr start (ps ! j)) OR PAGE_PRESENT)))"

lemma pages_mapped_Cons:
  assumes ok: "pt_ok v0" "aligned (next_free_page v0)"
    and mp: "map_page (page_addr start i) (next_free_page v0) (page_flags ph (page_addr start i))
      (v0\<lparr>next_free_page := next_free_page v0 + 4096\<rparr>) = (0, v1)"
    and rest: "pages_mapped ph start ps v1 v"
  shows "pages_mapped ph start (i # ps) v0 v"
proof -
  let ?nf = "next_free_page v0" and ?va = "page_addr start i" and ?fl = "page_flags ph (page_addr start i)"
  let ?v0 = "v0\<lparr>next_free_page := ?nf + 4096\<rparr>"
  have ok1: "pt_ok ?v0" using ok(1) by simp
  have v1: "v1 = snd (map_page ?va ?nf ?fl ?v0)" and r: "fst (map_page ?va ?nf ?fl ?v0) = 0" using mp by simp_all
  have nf: "next_free_page v1 = ?nf + 4096" by (simp add: v1)
  note other = rest [unfolded pages_mapped_def, THEN conjunct1, rule_format]
  note maps = rest [unfolded pages_mapped_def, THEN conjunct2, rule_format]
  have "lookup_pte v va = lookup_pte v0 va" if "vpage_of va \<notin> (\<lambda>i. vpage_of (page_addr start i)) ` set (i # ps)" for va
    using that other [of va] map_page_other [OF ok1, of va ?va ?nf ?fl] by (simp add: v1)
  moreover have "lookup_pte v (page_addr start ((i # ps) ! j)) =
      Some ((?nf + 4096 * of_nat j) OR page_flags ph (page_addr start ((i # ps) ! j)) OR PAGE_PRESENT)"
    if d: "distinct (map (\<lambda>i. vpage_of (page_addr start i)) (i # ps))" and j: "j < length (i # ps)" for j
  proof (cases j)
    case 0
    have "lookup_pte v ?va = lookup_pte v1 ?va" using d by (intro other) auto
    then show ?thesis using 0 map_page_lookup [OF ok1 r] ok(2) by (simp add: v1 page_base_aligned)
  next
    case (Suc j')
    then show ?thesis using maps [of j'] d j nf by (simp add: algebra_simps)
  qed
  ultimately show ?thesis unfolding pages_mapped_def by blast
qed

lemma load_pages_ok:
  fixes s :: "'a kmem_scheme"
  assumes "pt_ok (vm s)" "frames_left (length ps + k) (vm s)" "used (vm s) + 3 * 4096 * length ps \<le> 65536"
    and "aligned start" "set ps \<subseteq> {..<n}" "unat start + 4096 * n < 2 ^ 64"
    and "phdr_at (heap_mem s) phdr = ph" "unat phdr + 56 < 2 ^ 64"
    and "{unat phdr..<unat phdr + 56} \<inter> {unat start..<unat start + 4096 * n} = {}"
  shows "\<exists>v m. load_pages frame phdr start ps s = (True, s\<lparr>vm := v, heap_mem := m\<rparr>) \<and> pt_ok v \<and>
    used v \<le> used (vm s) + 3 * 4096 * length ps \<and> frames_left k v \<and> heap_start v = heap_start (vm s) \<and> heap_end v = heap_end (vm s) \<and>
    agree (- {unat start..<unat start + 4096 * n}) (heap_mem s) m \<and> pages_mapped ph start ps (vm s) v"
  using assms(1-3,5,7)
proof (induction ps arbitrary: s)
  case Nil
  then show ?case by (intro exI [of _ "vm s"] exI [of _ "heap_mem s"]) (simp add: pages_mapped_def)
next
  case (Cons i ps)
  let ?nf = "next_free_page (vm s)" and ?va = "page_addr start i"
  let ?v1 = "(vm s)\<lparr>next_free_page := ?nf + 4096\<rparr>" and ?fl = "page_flags ph ?va"
  have al: "aligned ?nf" "?nf \<noteq> NULL" using Cons.prems(2) by (simp_all add: frames_left_def)
  have alloc: "alloc_physical_page (vm s) = (?nf, ?v1)" using al by (simp add: alloc_physical_page_aligned)
  have ok1: "pt_ok ?v1" using Cons.prems(1) by simp
  have r: "fst (map_page ?va ?nf ?fl ?v1) = 0" using map_page_used(1) [OF ok1] Cons.prems(3) by simp
  define v2 where "v2 = snd (map_page ?va ?nf ?fl ?v1)"
  have mp: "map_page ?va ?nf ?fl ?v1 = (0, v2)" using r by (simp add: v2_def prod_eq_iff)
  let ?m2 = "show_frame frame ?va ?nf (heap_mem s)"
  let ?s2 = "s\<lparr>vm := v2, heap_mem := ?m2\<rparr>"
  have step: "load_pages frame phdr start (i # ps) s = load_pages frame phdr start ps ?s2"
    using al Cons.prems(5) by (simp add: alloc mp Let_def)
  have ok2: "pt_ok v2" using map_page_ok [OF ok1] by (simp add: v2_def)
  have nf2: "next_free_page v2 = ?nf + 4096" "heap_start v2 = heap_start (vm s)" "heap_end v2 = heap_end (vm s)" by (simp_all add: v2_def)
  have fr: "frames_left (length ps + k) v2"
    using frames_left_Suc [of "length ps + k" "vm s"] Cons.prems(2) nf2(1) by (simp add: frames_left_def)
  have u2: "used v2 \<le> used (vm s) + 3 * 4096" using map_page_used(2) [OF ok1 r] by (simp add: v2_def)
  have m2: "agree (- {unat start..<unat start + 4096 * n}) (heap_mem s) ?m2"
    using show_frame_agree [OF assms(4) _ assms(6), of i] Cons.prems(4) by auto
  have ph: "phdr_at ?m2 phdr = ph"
    using phdr_at_agree [OF m2 assms(8) assms(9) [unfolded disjoint_eq_subset_Compl]] Cons.prems(5) by simp
  obtain v m where IH: "load_pages frame phdr start ps ?s2 = (True, s\<lparr>vm := v, heap_mem := m\<rparr>)" "pt_ok v"
    "used v \<le> used v2 + 3 * 4096 * length ps" "frames_left k v" "heap_start v = heap_start v2" "heap_end v = heap_end v2"
    "agree (- {unat start..<unat start + 4096 * n}) ?m2 m" "pages_mapped ph start ps v2 v"
    using Cons.IH [of ?s2] ok2 fr u2 Cons.prems(3,4) ph by auto
  have "pages_mapped ph start (i # ps) (vm s) v" by (rule pages_mapped_Cons [OF Cons.prems(1) al(1) mp IH(8)])
  then show ?case
    using IH u2 nf2 agree_trans [OF m2 IH(7)] unfolding step by (intro exI [of _ v] exI [of _ m]) auto
qed

section \<open>Reading a file\<close>

text \<open>A call that changes neither memory nor page tables.\<close>

definition mem_kept :: "'a kmem_scheme \<Rightarrow> 'a kmem_scheme \<Rightarrow> bool" where
  "mem_kept s t \<longleftrightarrow> heap_mem t = heap_mem s \<and> heap_first_block t = heap_first_block s \<and> vm t = vm s"

text \<open>A step that has no traffic with the devices and keeps the bytes in \<open>K\<close>.\<close>

definition calm :: "nat set \<Rightarrow> 'a kmem_scheme \<Rightarrow> 'a kmem_scheme \<Rightarrow> bool" where
  "calm K s t \<longleftrightarrow> quiet s t \<and> agree K (heap_mem s) (heap_mem t)"

text \<open>
  What the interface promises of a file that can be opened and read: \<open>pos\<close> is the offset in an open file; reading
  within the file returns the bytes there and moves on, seeking from the start sets the offset. No call touches the
  kernel's memory or page tables. The promise is made for files that have been \<open>opened\<close> through the interface, in states that satisfy
  \<open>steady\<close>: every call keeps it, and so does every step of the kernel that leaves the devices and the bytes in \<open>K\<close>, where a driver may
  have its tables, alone.
\<close>

definition serves ::
    "('f, 'a kmem_scheme) vfs \<Rightarrow> string \<Rightarrow> u8 list \<Rightarrow> ('f \<Rightarrow> nat) \<Rightarrow> ('f \<Rightarrow> bool) \<Rightarrow> ('a kmem_scheme \<Rightarrow> bool) \<Rightarrow> nat set \<Rightarrow> bool" where
  "serves V name content pos opened steady K \<longleftrightarrow>
     (\<forall>s. steady s \<longrightarrow> (\<exists>r f t. vfs_open V name VFS_MODE_READ s = ret (r, f, t) \<and> r \<noteq> 0 \<and> pos f = 0 \<and> mem_kept s t \<and> opened f \<and> steady t)) \<and>
     (\<forall>f n s. steady s \<longrightarrow> opened f \<longrightarrow> pos f + unat n \<le> length content \<longrightarrow>
        (\<exists>r f' t. vfs_read V f n s = ret (r, n, take (unat n) (drop (pos f) content), f', t) \<and> r \<noteq> 0 \<and>
           pos f' = pos f + unat n \<and> mem_kept s t \<and> opened f' \<and> steady t)) \<and>
     (\<forall>f i s. steady s \<longrightarrow> opened f \<longrightarrow> i \<le> length content \<longrightarrow>
        (\<exists>r f' t. vfs_seek V f (int i) 0 s = ret (r, f', t) \<and> r \<noteq> 0 \<and> pos f' = i \<and> mem_kept s t \<and> opened f' \<and> steady t)) \<and>
     (\<forall>f s. steady s \<longrightarrow> opened f \<longrightarrow> (\<exists>t. vfs_close V f s = ret t \<and> mem_kept s t \<and> steady t)) \<and>
     (\<forall>s t. steady s \<longrightarrow> calm K s t \<longrightarrow> steady t)"

lemma calm_intros:
  "calm K s (kprint msg s)" "agree K (heap_mem s) m \<Longrightarrow> calm K s (s\<lparr>heap_mem := m\<rparr>)"
  "agree K (heap_mem s) m \<Longrightarrow> calm K s (s\<lparr>vm := v, heap_mem := m\<rparr>)"
  by (simp_all add: calm_def quiet_def)

lemma mem_kept_refl [simp]: "mem_kept s s"
  by (simp add: mem_kept_def)

lemma mem_kept_kprint: "mem_kept s (kprint msg s)"
  by (simp add: mem_kept_def)

lemma mem_kept_trans: "mem_kept s t \<Longrightarrow> mem_kept t u \<Longrightarrow> mem_kept s u"
  by (simp add: mem_kept_def)

lemma mem_kept_heap_ok: "mem_kept s t \<Longrightarrow> heap_ok t bs = heap_ok s bs"
  by (simp add: mem_kept_def heap_ok_def heap_wf_def)

lemma serves_open:
  assumes "serves V name content pos opened steady K" "steady s"
  obtains r f t where "vfs_open V name VFS_MODE_READ s = ret (r, f, t)" "r \<noteq> 0" "pos f = 0" "mem_kept s t" "opened f" "steady t"
  using assms unfolding serves_def by blast

lemma serves_read:
  assumes "serves V name content pos opened steady K" "steady s" "opened f" "pos f + unat n \<le> length content"
  obtains r f' t where "vfs_read V f n s = ret (r, n, take (unat n) (drop (pos f) content), f', t)" "r \<noteq> 0"
    "pos f' = pos f + unat n" "mem_kept s t" "opened f'" "steady t"
  using assms unfolding serves_def by blast

lemma serves_close:
  assumes "serves V name content pos opened steady K" "steady s" "opened f"
  obtains t where "vfs_close V f s = ret t" "mem_kept s t" "steady t"
  using assms unfolding serves_def by blast

lemma serves_calm:
  assumes "serves V name content pos opened steady K" "steady s" "calm K s t"
  shows "steady t"
  using assms unfolding serves_def by blast

lemma serves_write:
  assumes "serves V name content pos opened steady K" "steady s" "agree X (heap_mem s) m" "K \<subseteq> X"
  shows "steady (s\<lparr>heap_mem := m\<rparr>)"
  by (rule serves_calm [OF assms(1,2) calm_intros(2)]) (rule agree_sub [OF assms(3,4)])

text \<open>The offset is passed as a 32-bit signed integer.\<close>

lemma sint_offset:
  assumes "unat w < 2 ^ 31"
  shows "sint (ucast (w :: u64) :: 32 word) = int (unat w)"
proof -
  obtain n where n: "unat w = n" "n < 2 ^ 31" using assms by simp
  have "unat (ucast w :: 32 word) = n" using n by (simp add: unsigned_ucast_eq take_bit_nat_eq_self)
  then have "uint (ucast w :: 32 word) = int n" by (metis uint_nat)
  then show ?thesis using n by (simp add: sint_uint signed_take_bit_int_eq_self_iff del: of_nat_unat)
qed

lemma serves_seek:
  assumes "serves V name content pos opened steady K" "steady s" "opened f" "unat w \<le> length content" "length content < 2 ^ 31"
  obtains r f' t where "vfs_seek V f (sint (ucast (w :: u64) :: 32 word)) 0 s = ret (r, f', t)" "r \<noteq> 0"
    "pos f' = unat w" "mem_kept s t" "opened f'" "steady t"
proof -
  have "sint (ucast w :: 32 word) = int (unat w)" using assms(4,5) by (intro sint_offset) simp
  then show thesis using assms(1-4) that unfolding serves_def by metis
qed

section \<open>A segment\<close>

definition seg_lo :: "elf64_phdr \<Rightarrow> nat" where
  "seg_lo ph = unat (page_base (p_vaddr ph))"

definition seg_hi :: "elf64_phdr \<Rightarrow> nat" where
  "seg_hi ph = seg_lo ph + 4096 * unat (num_pages ph)"

text \<open>A segment of a file that fits below the address \<open>lim\<close>.\<close>

definition seg_ok :: "u8 list \<Rightarrow> nat \<Rightarrow> elf64_phdr \<Rightarrow> bool" where
  "seg_ok content lim ph \<longleftrightarrow> p_filesz ph \<le> p_memsz ph \<and> unat (p_offset ph) + unat (p_filesz ph) \<le> length content \<and>
     unat (p_vaddr ph) + unat (p_memsz ph) + 4095 < lim"

text \<open>The memory image of a segment: the bytes of the file, then zeros.\<close>

definition segment_loaded :: "u8 list \<Rightarrow> elf64_phdr \<Rightarrow> mem \<Rightarrow> bool" where
  "segment_loaded content ph m \<longleftrightarrow>
     (\<forall>i<unat (p_memsz ph). m (p_vaddr ph + of_nat i) = (if i < unat (p_filesz ph) then content ! (unat (p_offset ph) + i) else 0))"

lemma seg_range:
  assumes "unat (p_vaddr ph) + unat (p_memsz ph) + 4095 < 2 ^ 64"
  shows "seg_lo ph \<le> unat (p_vaddr ph)" "unat (p_vaddr ph) + unat (p_memsz ph) \<le> seg_hi ph"
    "seg_hi ph \<le> unat (p_vaddr ph) + unat (p_memsz ph) + 4095"
proof -
  let ?v = "unat (p_vaddr ph)" and ?e = "unat (p_vaddr ph) + unat (p_memsz ph) + 4095"
  have s: "p_vaddr ph + p_memsz ph + PAGE_SIZE - 1 = p_vaddr ph + p_memsz ph + 4095" by simp
  have "unat (p_vaddr ph + p_memsz ph) = ?v + unat (p_memsz ph)" using assms by (intro unat_add_small) simp
  then have "unat (p_vaddr ph + p_memsz ph + 4095) = ?e" using assms by (subst unat_add_small) simp_all
  then have e: "unat (page_base (p_vaddr ph + p_memsz ph + PAGE_SIZE - 1)) = ?e div 4096 * 4096" 
    unfolding s unat_page_base by simp
  have l: "seg_lo ph = ?v div 4096 * 4096" by (simp add: seg_lo_def unat_page_base)
  have le: "?v div 4096 * 4096 \<le> ?e div 4096 * 4096" by (intro mult_right_mono div_le_mono) simp_all
  have "unat (num_pages ph) = (?e div 4096 * 4096 - ?v div 4096 * 4096) div 4096"
    unfolding num_pages_def Let_def unat_div using e l le
    by (subst unat_sub) (simp_all add: word_le_nat_alt seg_lo_def)
  then have "seg_hi ph = ?e div 4096 * 4096" using le l by (simp add: seg_hi_def)
  then show "seg_lo ph \<le> ?v" "?v + unat (p_memsz ph) \<le> seg_hi ph" "seg_hi ph \<le> ?e"
    using l by simp_all
qed

lemma ret_simps [simp]: "run_bind (ret x) f = f x" "total_run (Some x) = ret x" "total_run None = None"
  by (simp_all add: ret_def total_run_def)

lemma ret_inject [simp]: "ret x = ret y \<longleftrightarrow> x = y"
  by (simp add: ret_def)

lemma heap_ok_low_write:
  assumes "heap_ok s bs" "agree (- {lo..<hi}) (heap_mem s) m" "hi \<le> heap_base s"
  shows "heap_ok (s\<lparr>heap_mem := m\<rparr>) bs"
proof -
  have "agree (hdr_bytes (heap_base s) bs) (heap_mem s) m"
    using hdr_bytes_range [of "heap_base s" bs] assms(3) by (intro agree_sub [OF assms(2)]) auto
  then show ?thesis using heap_ok_agree [OF assms(1), of "s\<lparr>heap_mem := m\<rparr>"] by simp
qed

lemma seg_ok_range:
  assumes "seg_ok content lim ph" "lim < 2 ^ 64"
  shows "seg_lo ph \<le> unat (p_vaddr ph)" "unat (p_vaddr ph) + unat (p_memsz ph) \<le> seg_hi ph" "seg_hi ph \<le> lim"
    "unat (p_filesz ph) \<le> unat (p_memsz ph)"
  using seg_range [of ph] assms by (simp_all add: seg_ok_def word_le_nat_alt)

lemma clear_bss_ok:
  assumes seg: "seg_ok content lim ph" "lim < 2 ^ 64" and ph: "phdr_at (heap_mem s) phdr = ph"
    and front: "\<And>i. i < unat (p_filesz ph) \<Longrightarrow> heap_mem s (p_vaddr ph + of_nat i) = content ! (unat (p_offset ph) + i)"
  obtains m where "clear_bss phdr s = s\<lparr>heap_mem := m\<rparr>" "agree (- {seg_lo ph..<seg_hi ph}) (heap_mem s) m"
    "segment_loaded content ph m"
proof -
  let ?v = "p_vaddr ph" and ?fs = "unat (p_filesz ph)" and ?ms = "unat (p_memsz ph)"
  let ?m = "store_bytes (?v + p_filesz ph) (replicate (?ms - ?fs) 0) (heap_mem s)"
  note r = seg_ok_range [OF seg]
  have d: "unat (p_memsz ph - p_filesz ph) = ?ms - ?fs" using r(4) by (intro unat_sub) (simp add: word_le_nat_alt)
  have b: "unat (?v + p_filesz ph) = unat ?v + ?fs" using r seg(2) by (intro unat_add_small) simp
  have eq: "clear_bss phdr s = s\<lparr>heap_mem := ?m\<rparr>"
    using r(4) by (auto simp: clear_bss_def Let_def ph d word_less_nat_alt store_bytes_def)
  have ag: "agree (- {unat ?v + ?fs..<unat ?v + ?ms}) (heap_mem s) ?m"
    using store_bytes_agree [of "replicate (?ms - ?fs) (0 :: u8)" "?ms - ?fs" "?v + p_filesz ph" "heap_mem s"] b r seg(2) by simp
  have "?m (?v + of_nat i) = (if i < ?fs then content ! (unat (p_offset ph) + i) else 0)" if i: "i < ?ms" for i
  proof (cases "i < ?fs")
    case True
    have "unat (?v + of_nat i) = unat ?v + i" using i r seg(2) by (subst unat_add_small) (simp_all add: unat_of_nat_small)
    then show ?thesis using ag True front [OF True] by (simp add: agree_def)
  next
    case False
    then have "?v + of_nat i = ?v + p_filesz ph + of_nat (i - ?fs)" by (simp add: of_nat_diff)
    then show ?thesis
      using store_bytes_read [of "replicate (?ms - ?fs) (0 :: u8)" "i - ?fs" "?v + p_filesz ph" "heap_mem s"] i False r seg(2)
      by simp
  qed
  moreover have "agree (- {seg_lo ph..<seg_hi ph}) (heap_mem s) ?m" using r by (intro agree_sub [OF ag]) auto
  ultimately show thesis using that eq by (simp add: segment_loaded_def)
qed

lemma copy_segment_ok:
  assumes seg: "seg_ok content lim ph" "lim < 2 ^ 64" and ph: "phdr_at (heap_mem s) phdr = ph"
    and buf: "\<And>i. i < unat (p_filesz ph) \<Longrightarrow> heap_mem s (buffer + of_nat i) = content ! (unat (p_offset ph) + i)"
  obtains m where "copy_segment phdr buffer s = s\<lparr>heap_mem := m\<rparr>" "agree (- {seg_lo ph..<seg_hi ph}) (heap_mem s) m"
    "\<And>i. i < unat (p_filesz ph) \<Longrightarrow> m (p_vaddr ph + of_nat i) = content ! (unat (p_offset ph) + i)"
proof -
  let ?xs = "map (\<lambda>i. heap_mem s (buffer + of_nat i)) [0..<unat (p_filesz ph)]"
  let ?m = "store_bytes (p_vaddr ph) ?xs (heap_mem s)"
  note r = seg_ok_range [OF seg]
  have "agree (- {unat (p_vaddr ph)..<unat (p_vaddr ph) + unat (p_filesz ph)}) (heap_mem s) ?m"
    using r seg(2) by (intro store_bytes_agree) simp_all
  then have "agree (- {seg_lo ph..<seg_hi ph}) (heap_mem s) ?m" using r by (elim agree_sub) auto
  moreover have "?m (p_vaddr ph + of_nat i) = content ! (unat (p_offset ph) + i)" if "i < unat (p_filesz ph)" for i
    using store_bytes_read [of ?xs i "p_vaddr ph" "heap_mem s"] buf [OF that] that r seg(2) by simp
  ultimately show thesis using that by (simp add: copy_segment_def Let_def ph)
qed

text \<open>A block from the heap, filled from the file: the first step both for the table of program headers and for a segment.\<close>

lemma alloc_and_read:
  fixes s :: "'a kmem_scheme"
  assumes V: "serves V name content pos opened steady K" and I: "steady s" "opened f" "K \<subseteq> kept_bytes (heap_base s) bs"
    and ok: "heap_ok s bs" and sz: "unat sz + 3 < 2 ^ 64" "n = (unat sz + 3) div 4 * 4"
    and fit: "\<exists>b\<in>set bs. fits n b" and cnt: "unat cnt = unat sz" "pos f + unat sz \<le> length content"
    and bytes: "bytes = take (unat sz) (drop (pos f) content)"
  obtains p k bs1 m r f1 s2 where "kmalloc sz s = Some (p, s\<lparr>heap_mem := m\<rparr>)" "agree (kept_bytes (heap_base s) bs) (heap_mem s) m"
    "vfs_read V f cnt (s\<lparr>heap_mem := m\<rparr>) = ret (r, cnt, bytes, f1, s2)" "r \<noteq> 0" "heap_mem s2 = m" "vm s2 = vm s"
    "heap_ok (s2\<lparr>heap_mem := store_bytes p bytes m\<rparr>) bs1" "agree (kept_bytes (heap_base s) bs) (heap_mem s) (store_bytes p bytes m)"
    "unat sz \<le> k" "unat p + k < 2 ^ 64" "loan s bs n p k bs1" "opened f1" "steady (s2\<lparr>heap_mem := store_bytes p bytes m\<rparr>)"
proof -
  obtain p k m bs1 where al: "kmalloc sz s = Some (p, s\<lparr>heap_mem := m\<rparr>)" "unat sz \<le> k" "heap_ok (s\<lparr>heap_mem := m\<rparr>) bs1"
    "agree (kept_bytes (heap_base s) bs) (heap_mem s) m" "loan s bs n p k bs1"
    by (rule alloc_loan [OF ok sz fit]) (rule that)
  let ?s1 = "s\<lparr>heap_mem := m\<rparr>" and ?m3 = "store_bytes p bytes m"
  have "pos f + unat cnt \<le> length content" using cnt by simp
  then obtain r f1 s2 where rd: "vfs_read V f cnt ?s1 = ret (r, cnt, take (unat cnt) (drop (pos f) content), f1, s2)" "r \<noteq> 0"
    "pos f1 = pos f + unat cnt" "mem_kept ?s1 s2" "opened f1" "steady s2"
    by (rule serves_read [OF V serves_write [OF V I(1) al(4) I(3)] I(2)]) (rule that)
  have s2: "heap_mem s2 = m" "vm s2 = vm s" using rd(4) by (simp_all add: mem_kept_def)
  have pk: "unat p + k < 2 ^ 64" using heap_live_bound [OF al(3)] loan_block(2) [OF al(5)] by simp
  have a3: "agree (- {unat p..<unat p + k}) m ?m3" using al(2) cnt(2) pk by (intro store_bytes_agree) (simp_all add: bytes)
  have "heap_ok s2 bs1" using mem_kept_heap_ok [OF rd(4)] al(3) by simp
  then have "heap_ok (s2\<lparr>heap_mem := ?m3\<rparr>) bs1"
    using heap_ok_client_write [of s2 bs1 "unat p" k ?m3] loan_block(2) [OF al(5)] a3 s2 by simp
  moreover have "agree (kept_bytes (heap_base s) bs) (heap_mem s) ?m3"
    using loan_block(4) [OF al(5)] by (intro agree_trans [OF al(4)] agree_sub [OF a3]) auto
  moreover have "steady (s2\<lparr>heap_mem := ?m3\<rparr>)"
    using serves_write [OF V rd(6) _ order_refl, of ?m3] agree_sub [OF a3, of K] I(3) loan_block(4) [OF al(5)] s2(1) by auto
  ultimately show thesis using that al rd(1,2,5) s2 pk by (simp add: cnt(1) bytes)
qed

lemma header_kept:
  assumes ok: "heap_ok s bs" and seg: "seg_ok content (heap_base s) ph"
    and loc: "{unat phdr..<unat phdr + 56} \<subseteq> alloc_bytes (heap_base s) bs"
  shows "unat phdr + 56 < 2 ^ 64" "{unat phdr..<unat phdr + 56} \<subseteq> kept_bytes (heap_base s) bs - {seg_lo ph..<seg_hi ph}"
    "{unat phdr..<unat phdr + 56} \<inter> {seg_lo ph..<seg_hi ph} = {}"
proof -
  have b: "heap_base s + extent bs < 2 ^ 64" using ok heap_wf_bounds(1) [of s bs] by (simp add: heap_ok_def)
  have "unat phdr + 55 \<in> {unat phdr..<unat phdr + 56}" by simp
  then have "unat phdr + 55 \<in> {heap_base s..<heap_base s + extent bs}" using loc alloc_bytes_range by blast
  then show "unat phdr + 56 < 2 ^ 64" using b by simp
  have "seg_hi ph \<le> heap_base s" using seg_ok_range(3) [OF seg] b by simp
  then have "alloc_bytes (heap_base s) bs \<inter> {seg_lo ph..<seg_hi ph} = {}" using alloc_bytes_range [of "heap_base s" bs] by fastforce
  then show dis: "{unat phdr..<unat phdr + 56} \<inter> {seg_lo ph..<seg_hi ph} = {}" using loc by blast
  show "{unat phdr..<unat phdr + 56} \<subseteq> kept_bytes (heap_base s) bs - {seg_lo ph..<seg_hi ph}"
    unfolding kept_bytes_def using loc dis by blast
qed

lemma filesz_narrow:
  assumes "unat (p_filesz ph) < 2 ^ 31"
  shows "unat (ucast (p_filesz ph) :: u32) = unat (p_filesz ph)" "ucast (ucast (p_filesz ph) :: u32) = p_filesz ph"
proof -
  show "unat (ucast (p_filesz ph) :: u32) = unat (p_filesz ph)" using assms by (simp add: unsigned_ucast_eq take_bit_nat_eq_self)
  then show "ucast (ucast (p_filesz ph) :: u32) = p_filesz ph"
    by (simp add: word_unat_eq_iff unsigned_ucast_eq unsigned_take_bit_eq)
qed

lemma segment_byte_kept:
  assumes "seg_ok content A ph" "A < 2 ^ 64" "i < unat (p_filesz ph)"
  shows "unat (p_vaddr ph + of_nat i) \<in> kept_bytes A bs"
proof -
  note r = seg_ok_range [OF assms(1,2)]
  have "unat (p_vaddr ph + of_nat i) = unat (p_vaddr ph) + i" using assms(2,3) r by (subst unat_add_small) (simp_all add: unat_of_nat_small)
  then show ?thesis using assms(3) r by (simp add: kept_bytes_def)
qed

lemma read_segment_ok:
  fixes s :: "'a kmem_scheme"
  assumes V: "serves V name content pos opened steady K" and I: "steady s" "opened f" "K \<subseteq> kept_bytes (heap_base s) bs - {seg_lo ph..<seg_hi ph}"
    and len: "length content < 2 ^ 31" and ok: "heap_ok s bs"
    and seg: "seg_ok content (heap_base s) ph" and ph: "phdr_at (heap_mem s) phdr = ph"
    and loc: "{unat phdr..<unat phdr + 56} \<subseteq> alloc_bytes (heap_base s) bs"
    and pos: "pos f = unat (p_offset ph)"
    and fit: "\<exists>b\<in>set bs. fits ((unat (p_filesz ph) + 3) div 4 * 4) b"
  obtains f' t where "read_segment V phdr f s = ret (True, f', t)" "heap_ok t bs" "vm t = vm s"
    "agree (kept_bytes (heap_base s) bs - {seg_lo ph..<seg_hi ph}) (heap_mem s) (heap_mem t)"
    "\<And>i. i < unat (p_filesz ph) \<Longrightarrow> heap_mem t (p_vaddr ph + of_nat i) = content ! (unat (p_offset ph) + i)" "opened f'" "steady t"
proof (cases "p_filesz ph = 0")
  case True
  then show thesis using that [of f s] ok ph I by (simp add: read_segment_def)
next
  case False
  let ?A = "heap_base s" and ?fs = "unat (p_filesz ph)" and ?pg = "{seg_lo ph..<seg_hi ph}"
  let ?K = "kept_bytes ?A bs - ?pg"
  have A: "?A + extent bs < 2 ^ 64" using ok heap_wf_bounds(1) [of s bs] by (simp add: heap_ok_def)
  then have lim: "?A < 2 ^ 64" by simp
  note r = seg_ok_range [OF seg lim]
  note hk = header_kept [OF ok seg loc]
  have keep: "phdr_at m phdr = ph" if "agree ?K (heap_mem s) m" for m
    using phdr_at_agree [OF that hk(1,2)] ph by simp
  have fs: "?fs < 2 ^ 31" "unat (p_offset ph) + ?fs \<le> length content" using seg len by (simp_all add: seg_ok_def)
  note narrow = filesz_narrow [OF fs(1)]
  let ?bytes = "take ?fs (drop (pos f) content)"
  have "K \<subseteq> kept_bytes ?A bs" "?fs + 3 < 2 ^ 64" "pos f + ?fs \<le> length content" using fs pos I(3) by auto
  then obtain p k bs1 m1 r' f2 s2 where al: "kmalloc (p_filesz ph) s = Some (p, s\<lparr>heap_mem := m1\<rparr>)" "agree (kept_bytes ?A bs) (heap_mem s) m1"
    "vfs_read V f (ucast (p_filesz ph)) (s\<lparr>heap_mem := m1\<rparr>) = ret (r', ucast (p_filesz ph), ?bytes, f2, s2)" "r' \<noteq> 0"
    "heap_mem s2 = m1" "vm s2 = vm s" "heap_ok (s2\<lparr>heap_mem := store_bytes p ?bytes m1\<rparr>) bs1"
    "agree (kept_bytes ?A bs) (heap_mem s) (store_bytes p ?bytes m1)" "?fs \<le> k" "unat p + k < 2 ^ 64"
    "loan s bs ((?fs + 3) div 4 * 4) p k bs1" "opened f2" "steady (s2\<lparr>heap_mem := store_bytes p ?bytes m1\<rparr>)"
    by (rule alloc_and_read [OF V I(1,2) _ ok _ refl fit narrow(1) _ refl]) (rule that)
  let ?m3 = "store_bytes p ?bytes m1"
  let ?s3 = "s2\<lparr>heap_mem := ?m3\<rparr>"
  note loan = loan_block [OF al(11)]
  have k1: "agree ?K (heap_mem s) m1" and k3: "agree ?K (heap_mem s) ?m3" by (auto intro: agree_sub [OF al(2)] agree_sub [OF al(8)])
  have buf: "heap_mem ?s3 (p + of_nat i) = content ! (unat (p_offset ph) + i)" if "i < ?fs" for i
    using store_bytes_read [of ?bytes i p m1] that fs pos by simp
  obtain m4 where cp: "copy_segment phdr p ?s3 = ?s3\<lparr>heap_mem := m4\<rparr>" "agree (- ?pg) ?m3 m4"
    "\<And>i. i < ?fs \<Longrightarrow> m4 (p_vaddr ph + of_nat i) = content ! (unat (p_offset ph) + i)"
    using copy_segment_ok [OF seg lim, of ?s3 phdr p] keep [OF k3] buf by auto
  let ?s4 = "?s3\<lparr>heap_mem := m4\<rparr>"
  have ok4: "heap_ok ?s4 bs1" using heap_ok_low_write [OF al(7), of "seg_lo ph" "seg_hi ph" m4] cp(2) r(3) al(6) by simp
  obtain m5 where fr: "kfree p ?s4 = Some (?s4\<lparr>heap_mem := m5\<rparr>)" "heap_ok (?s4\<lparr>heap_mem := m5\<rparr>) bs" "agree (kept_bytes ?A bs1) m4 m5"
    using loan_return [OF al(11) ok4] al(6) by auto
  have i4: "steady ?s4" using I(3) cp(2) by (intro serves_write [OF V al(13), where X = "- ?pg"]) auto
  have i5: "steady (?s4\<lparr>heap_mem := m5\<rparr>)" by (rule serves_write [OF V i4, where X = "kept_bytes ?A bs1"]) (use I(3) loan(3) fr(3) in auto)
  have "read_segment V phdr f s = ret (True, f2, ?s4\<lparr>heap_mem := m5\<rparr>)"
    using False al(1,3,4,5) loan(1) keep [OF k1] keep [OF k3] cp(1) fr(1) narrow(2) ph
    by (simp add: read_segment_def Let_def word_gt_0)
  moreover have "agree ?K (heap_mem s) m5"
    using loan(3) by (intro agree_trans [OF k3] agree_trans [OF agree_sub [OF cp(2)]] agree_sub [OF fr(3)]) auto
  moreover have "m5 (p_vaddr ph + of_nat i) = content ! (unat (p_offset ph) + i)" if "i < ?fs" for i
    using segment_byte_kept [OF seg lim that, of bs1] fr(3) cp(3) [OF that] by (simp add: agree_def)
  ultimately show thesis using that [of f2 "?s4\<lparr>heap_mem := m5\<rparr>"] fr(2) al(6,12) i5 by simp
qed

lemma load_segment_ok:
  fixes s :: "'a kmem_scheme"
  assumes V: "serves V name content pos opened steady K" and I: "steady s" "opened f" "K \<subseteq> kept_bytes (heap_base s) bs - {seg_lo ph..<seg_hi ph}"
    and len: "length content < 2 ^ 31" and ok: "heap_ok s bs"
    and seg: "seg_ok content (heap_base s) ph" and ph: "phdr_at (heap_mem s) phdr = ph"
    and loc: "{unat phdr..<unat phdr + 56} \<subseteq> alloc_bytes (heap_base s) bs"
    and fit: "\<exists>b\<in>set bs. fits ((unat (p_filesz ph) + 3) div 4 * 4) b"
    and pt: "pt_ok (vm s)" "frames_left (unat (num_pages ph) + k) (vm s)" "used (vm s) + 3 * 4096 * unat (num_pages ph) \<le> 65536"
  obtains f' t where "load_segment V frame phdr f s = ret (True, f', t)" "heap_ok t bs" "heap_base t = heap_base s"
    "agree (kept_bytes (heap_base s) bs - {seg_lo ph..<seg_hi ph}) (heap_mem s) (heap_mem t)" "segment_loaded content ph (heap_mem t)"
    "pt_ok (vm t)" "frames_left k (vm t)" "used (vm t) \<le> used (vm s) + 3 * 4096 * unat (num_pages ph)"
    "pages_mapped ph (page_base (p_vaddr ph)) [0..<unat (num_pages ph)] (vm s) (vm t)" "opened f'" "steady t"
proof -
  let ?A = "heap_base s" and ?pg = "{seg_lo ph..<seg_hi ph}" and ?n = "unat (num_pages ph)" and ?st = "page_base (p_vaddr ph)"
  let ?K = "kept_bytes ?A bs - ?pg"
  have lim: "?A < 2 ^ 64" using heap_wf_bounds(1) [of s bs] ok by (simp add: heap_ok_def)
  note r = seg_ok_range [OF seg lim] and hk = header_kept [OF ok seg loc]
  have pg: "unat ?st = seg_lo ph" "unat ?st + 4096 * ?n = seg_hi ph" by (simp_all add: seg_lo_def seg_hi_def)
  have al: "aligned ?st" by (simp add: aligned_unat unat_page_base)
  have keep: "phdr_at m phdr = ph" if "agree ?K (heap_mem s) m" for m
    using phdr_at_agree [OF that hk(1,2)] ph by simp
  have hi: "unat ?st + 4096 * ?n < 2 ^ 64" "{unat phdr..<unat phdr + 56} \<inter> {unat ?st..<unat ?st + 4096 * ?n} = {}"
    unfolding pg(2) using r(3) lim hk(3) pg(1) by simp_all
  obtain v m1 where lp: "load_pages frame phdr ?st [0..<?n] s = (True, s\<lparr>vm := v, heap_mem := m1\<rparr>)" "pt_ok v"
    "used v \<le> used (vm s) + 3 * 4096 * ?n" "frames_left k v" "heap_start v = heap_start (vm s)" "heap_end v = heap_end (vm s)"
    "agree (- ?pg) (heap_mem s) m1" "pages_mapped ph ?st [0..<?n] (vm s) v"
    using load_pages_ok [OF pt(1) _ _ al _ hi(1) ph hk(1) hi(2), of "[0..<?n]" k frame] pt(2,3)
    unfolding pg(2) length_upt diff_zero unfolding pg(1) by (auto simp: atLeast0LessThan)
  let ?s1 = "s\<lparr>vm := v, heap_mem := m1\<rparr>"
  have "heap_ok (s\<lparr>heap_mem := m1\<rparr>) bs" using heap_ok_low_write [OF ok lp(7) r(3)] .
  then have ok1: "heap_ok ?s1 bs" using lp(5,6) by (simp add: heap_ok_def heap_wf_def)
  have k1: "agree ?K (heap_mem s) m1" by (rule agree_sub [OF lp(7)]) auto
  have i1: "steady ?s1" using I(3) by (intro serves_calm [OF V I(1)] calm_intros(3) agree_sub [OF k1])
  have "unat (p_offset ph) \<le> length content" using seg by (simp add: seg_ok_def)
  then obtain r' f1 s2 where sk: "vfs_seek V f (sint (ucast (p_offset ph) :: 32 word)) 0 ?s1 = ret (r', f1, s2)" "r' \<noteq> 0"
    "pos f1 = unat (p_offset ph)" "mem_kept ?s1 s2" "opened f1" "steady s2"
    by (rule serves_seek [OF V i1 I(2) _ len]) (rule that)
  have s2: "heap_mem s2 = m1" "vm s2 = v" using sk(4) by (simp_all add: mem_kept_def)
  have A2: "heap_base s2 = ?A" using s2 lp(5) by simp
  have in2: "heap_ok s2 bs" "seg_ok content (heap_base s2) ph" "phdr_at (heap_mem s2) phdr = ph"
    "{unat phdr..<unat phdr + 56} \<subseteq> alloc_bytes (heap_base s2) bs"
    unfolding A2 using mem_kept_heap_ok [OF sk(4)] ok1 seg loc keep [OF k1] s2(1) by simp_all
  obtain f2 t where rd: "read_segment V phdr f1 s2 = ret (True, f2, t)" "heap_ok t bs" "vm t = v" "agree ?K m1 (heap_mem t)"
    "\<And>i. i < unat (p_filesz ph) \<Longrightarrow> heap_mem t (p_vaddr ph + of_nat i) = content ! (unat (p_offset ph) + i)" "opened f2" "steady t"
    by (rule read_segment_ok [OF V sk(6,5) _ len in2(1-4) sk(3) fit, unfolded A2, OF I(3), unfolded s2]) (rule that)
  have kt: "agree ?K (heap_mem s) (heap_mem t)" by (rule agree_trans [OF k1 rd(4)])
  obtain m where bss: "clear_bss phdr t = t\<lparr>heap_mem := m\<rparr>" "agree (- ?pg) (heap_mem t) m" "segment_loaded content ph m"
    using clear_bss_ok [OF seg lim keep [OF kt] rd(5)] by blast
  have "heap_ok (t\<lparr>heap_mem := m\<rparr>) bs" using heap_ok_low_write [OF rd(2) bss(2)] r(3) rd(3) lp(5) by simp
  moreover have "steady (t\<lparr>heap_mem := m\<rparr>)" using I(3) by (intro serves_write [OF V rd(7) bss(2)]) auto
  moreover have "agree ?K (heap_mem s) m" by (intro agree_trans [OF kt] agree_sub [OF bss(2)]) auto
  moreover have "load_segment V frame phdr f s = ret (True, f2, t\<lparr>heap_mem := m\<rparr>)"
    using lp(1) sk(1,2) rd(1) bss(1) keep [OF k1] ph s2(1) by (simp add: load_segment_def Let_def)
  ultimately show thesis using that [of f2 "t\<lparr>heap_mem := m\<rparr>"] rd(3,6) lp bss(3) by simp
qed

end
