(* ===== verification/Elf_Load.thy ===== *)
theory Elf_Load
  imports Elf
begin

text \<open>
  Loading a whole program with \<open>elf_load\<close>: all its segments in turn, the table of program headers and the two properties of
  the loader.
\<close>

section \<open>All segments\<close>

text \<open>Below \<open>2 ^ 48\<close> two addresses with the same table indices lie in the same page.\<close>

lemma vpage_of_same_page:
  assumes "unat a < 2 ^ 48" "unat b < 2 ^ 48" "vpage_of a = vpage_of b"
  shows "unat a div 4096 = unat b div 4096"
proof -
  have idx: "unat (PT_INDEX w) = unat w div 4096 mod 512" "unat (PD_INDEX w) = unat w div 4096 div 512 mod 512"
    "unat (PDPT_INDEX w) = unat w div 4096 div 512 div 512 mod 512"
    "unat (PML4_INDEX w) = unat w div 4096 div 512 div 512 div 512 mod 512" for w
    unfolding PT_INDEX_def PD_INDEX_def PDPT_INDEX_def PML4_INDEX_def unat_index by (simp_all flip: div_mult2_eq)
  obtain x y where xy: "unat a div 4096 = x" "unat b div 4096 = y" by simp
  have ix: "PT_INDEX a = PT_INDEX b" "PD_INDEX a = PD_INDEX b" "PDPT_INDEX a = PDPT_INDEX b" "PML4_INDEX a = PML4_INDEX b"
    using assms(3) by (simp_all add: vpage_of_def)
  have eqs: "x mod 512 = y mod 512" "x div 512 mod 512 = y div 512 mod 512" "x div 512 div 512 mod 512 = y div 512 div 512 mod 512"
    "x div 512 div 512 div 512 mod 512 = y div 512 div 512 div 512 mod 512"
    using ix idx [of a, unfolded xy(1)] idx [of b, unfolded xy(2)] by metis+
  have "x < 68719476736" "y < 68719476736" unfolding xy [symmetric] using assms(1,2) by (simp_all add: div_less_iff_less_mult)
  then have "x div 512 div 512 div 512 = y div 512 div 512 div 512" using eqs(4) by (simp add: div_less_iff_less_mult)
  then have "x div 512 div 512 = y div 512 div 512" using eqs(3) by (metis div_mult_mod_eq)
  then have "x div 512 = y div 512" using eqs(2) by (metis div_mult_mod_eq)
  then have "x = y" using eqs(1) by (metis div_mult_mod_eq)
  then show ?thesis using xy by simp
qed

lemma aligned_mult: "aligned (4096 * w)"
proof -
  have "(4096 :: u64) * w = push_bit 12 w" by (simp add: push_bit_eq_mult)
  then show ?thesis by (simp add: aligned_iff_bits bit_simps)
qed

text \<open>Every page of the segment is mapped to a frame, writable and accessible from user mode as its header and its address say.\<close>

definition segment_mapped :: "elf64_phdr \<Rightarrow> mm \<Rightarrow> bool" where
  "segment_mapped ph v \<longleftrightarrow>
     (\<forall>j<unat (num_pages ph). \<exists>e. lookup_pte v (page_addr (page_base (p_vaddr ph)) j) = Some e \<and>
        (bit e 1 \<longleftrightarrow> p_flags ph AND PF_W \<noteq> 0) \<and>
        (bit e 2 \<longleftrightarrow> 0x100000000 \<le> page_addr (page_base (p_vaddr ph)) j))"

lemma page_flags_bits:
  assumes "aligned fr" "e = fr OR page_flags ph va OR PAGE_PRESENT"
  shows "bit e 1 \<longleftrightarrow> p_flags ph AND PF_W \<noteq> 0" "bit e 2 \<longleftrightarrow> 0x100000000 \<le> va"
proof -
  have "\<not> bit fr 1" "\<not> bit fr 2" using assms(1) by (simp_all add: aligned_iff_bits)
  then show "bit e 1 \<longleftrightarrow> p_flags ph AND PF_W \<noteq> 0" "bit e 2 \<longleftrightarrow> 0x100000000 \<le> va"
    by (simp_all add: assms(2) page_flags_def Let_def bit_or_iff bit_numeral_rec bit_1_iff)
qed

lemma seg_page:
  assumes "seg_hi ph \<le> 2 ^ 48" "j < unat (num_pages ph)"
  shows "unat (page_addr (page_base (p_vaddr ph)) j) = seg_lo ph + 4096 * j" "seg_lo ph + 4096 * j + 4096 \<le> seg_hi ph"
    "seg_lo ph mod 4096 = 0"
proof -
  show "unat (page_addr (page_base (p_vaddr ph)) j) = seg_lo ph + 4096 * j"
    using page_addr_unat [OF assms(2), of "page_base (p_vaddr ph)"] assms(1) by (simp add: seg_lo_def seg_hi_def)
  show "seg_lo ph + 4096 * j + 4096 \<le> seg_hi ph" using assms(2) by (simp add: seg_hi_def)
  show "seg_lo ph mod 4096 = 0" by (simp add: seg_lo_def unat_page_base)
qed

lemma seg_pages_apart:
  assumes "seg_hi ph \<le> 2 ^ 48" "j < unat (num_pages ph)" "seg_hi ph' \<le> 2 ^ 48" "j' < unat (num_pages ph')"
    and "vpage_of (page_addr (page_base (p_vaddr ph)) j) = vpage_of (page_addr (page_base (p_vaddr ph')) j')"
  shows "seg_lo ph + 4096 * j = seg_lo ph' + 4096 * j'"
  using vpage_of_same_page [OF _ _ assms(5)] seg_page [OF assms(1,2)] seg_page [OF assms(3,4)] assms(1,3)
  by (auto elim!: dvdE simp flip: dvd_eq_mod_eq_0)

lemma pages_mapped_segment:
  assumes hi: "seg_hi ph \<le> 2 ^ 48" and al: "aligned (next_free_page v0)"
    and m: "pages_mapped ph (page_base (p_vaddr ph)) [0..<unat (num_pages ph)] v0 v"
  shows "segment_mapped ph v"
proof -
  let ?st = "page_base (p_vaddr ph)" and ?n = "unat (num_pages ph)"
  have "inj_on (\<lambda>i. vpage_of (page_addr ?st i)) {0..<?n}"
    using seg_pages_apart [OF hi _ hi] by (intro inj_onI) fastforce
  then have "distinct (map (\<lambda>i. vpage_of (page_addr ?st i)) [0..<?n])" by (simp add: distinct_map)
  then have "lookup_pte v (page_addr ?st j) = Some ((next_free_page v0 + 4096 * of_nat j) OR page_flags ph (page_addr ?st j) OR PAGE_PRESENT)"
    if "j < ?n" for j using m that by (simp add: pages_mapped_def)
  moreover have "aligned (next_free_page v0 + 4096 * of_nat j)" for j
    using al by (intro aligned_add) (simp_all add: aligned_mult)
  ultimately show ?thesis unfolding segment_mapped_def using page_flags_bits by blast
qed

lemma pages_mapped_others:
  assumes "segment_mapped ph' v0" "seg_hi ph' \<le> 2 ^ 48" "seg_hi ph \<le> 2 ^ 48"
    and "{seg_lo ph..<seg_hi ph} \<inter> {seg_lo ph'..<seg_hi ph'} = {}"
    and "pages_mapped ph (page_base (p_vaddr ph)) [0..<unat (num_pages ph)] v0 v"
  shows "segment_mapped ph' v"
proof -
  have "lookup_pte v (page_addr (page_base (p_vaddr ph')) j) = lookup_pte v0 (page_addr (page_base (p_vaddr ph')) j)"
    if j: "j < unat (num_pages ph')" for j
  proof -
    have "seg_lo ph' + 4096 * j \<in> {seg_lo ph'..<seg_hi ph'}" using seg_page(2) [OF assms(2) j] by simp
    moreover have "seg_lo ph + 4096 * i \<in> {seg_lo ph..<seg_hi ph}" if "i < unat (num_pages ph)" for i
      using seg_page(2) [OF assms(3) that] by simp
    ultimately have "vpage_of (page_addr (page_base (p_vaddr ph')) j) \<noteq> vpage_of (page_addr (page_base (p_vaddr ph)) i)"
      if "i < unat (num_pages ph)" for i
      using seg_pages_apart [OF assms(2) j assms(3) that] assms(4) that by fastforce
    then have "vpage_of (page_addr (page_base (p_vaddr ph')) j) \<notin>
        (\<lambda>i. vpage_of (page_addr (page_base (p_vaddr ph)) i)) ` set [0..<unat (num_pages ph)]" by force
    then show ?thesis using assms(5) unfolding pages_mapped_def by blast
  qed
  then show ?thesis using assms(1) by (simp add: segment_mapped_def)
qed

lemma segment_loaded_agree:
  assumes "segment_loaded content ph m" "agree X m m'" "{seg_lo ph..<seg_hi ph} \<subseteq> X" "seg_ok content lim ph" "lim < 2 ^ 64"
  shows "segment_loaded content ph m'"
proof -
  note r = seg_ok_range [OF assms(4,5)]
  have "m' (p_vaddr ph + of_nat i) = m (p_vaddr ph + of_nat i)" if i: "i < unat (p_memsz ph)" for i
  proof -
    have "unat (p_vaddr ph + of_nat i) = unat (p_vaddr ph) + i"
      using i r assms(5) by (subst unat_add_small) (simp_all add: unat_of_nat_small)
    then have "unat (p_vaddr ph + of_nat i) \<in> {seg_lo ph..<seg_hi ph}" using i r by simp
    then show ?thesis using assms(2,3) by (auto simp: agree_def)
  qed
  then show ?thesis using assms(1) by (simp add: segment_loaded_def)
qed

text \<open>
  The loadable ones among the headers \<open>hd_of i\<close>, their pages, and that they fit: below \<open>lim\<close>, apart
  from each other, with a free block for the bytes of each beside \<open>extra\<close> bytes.
\<close>

definition loadable :: "(nat \<Rightarrow> elf64_phdr) \<Rightarrow> nat list \<Rightarrow> nat list" where
  "loadable hd_of is = filter (\<lambda>i. p_type (hd_of i) = PT_LOAD) is"

definition pages_total :: "(nat \<Rightarrow> elf64_phdr) \<Rightarrow> nat list \<Rightarrow> nat" where
  "pages_total hd_of is = sum_list (map (\<lambda>i. unat (num_pages (hd_of i))) (loadable hd_of is))"

definition segs_ok :: "u8 list \<Rightarrow> nat \<Rightarrow> nat \<Rightarrow> blocks \<Rightarrow> (nat \<Rightarrow> elf64_phdr) \<Rightarrow> nat list \<Rightarrow> bool" where
  "segs_ok content lim extra bs hd_of is \<longleftrightarrow>
     (\<forall>i\<in>set (loadable hd_of is). seg_ok content lim (hd_of i) \<and> (\<exists>b\<in>set bs. fits (extra + (unat (p_filesz (hd_of i)) + 3) div 4 * 4) b)) \<and>
     (\<forall>i\<in>set (loadable hd_of is). \<forall>j\<in>set (loadable hd_of is). i \<noteq> j \<longrightarrow>
        {seg_lo (hd_of i)..<seg_hi (hd_of i)} \<inter> {seg_lo (hd_of j)..<seg_hi (hd_of j)} = {})"

lemma loadable_simps [simp]:
  "loadable hd_of [] = []" "p_type (hd_of i) \<noteq> PT_LOAD \<Longrightarrow> loadable hd_of (i # is) = loadable hd_of is"
  "p_type (hd_of i) = PT_LOAD \<Longrightarrow> loadable hd_of (i # is) = i # loadable hd_of is"
  "set (loadable hd_of is) = {i \<in> set is. p_type (hd_of i) = PT_LOAD}"
  by (auto simp: loadable_def)

lemma segs_ok_Cons: "segs_ok content lim extra bs hd_of (i # is) \<Longrightarrow> segs_ok content lim extra bs hd_of is"
  by (auto simp: segs_ok_def)

text \<open>The headers \<open>is\<close> of the table at \<open>phdrs\<close>, which lies in allocated blocks of the heap. Loading a segment below the heap keeps them.\<close>

definition headers_at :: "u64 \<Rightarrow> (nat \<Rightarrow> elf64_phdr) \<Rightarrow> nat \<Rightarrow> blocks \<Rightarrow> nat list \<Rightarrow> mem \<Rightarrow> bool" where
  "headers_at phdrs hd_of A bs is m \<longleftrightarrow> (\<forall>i\<in>set is. phdr_at m (phdrs + 56 * of_nat i) = hd_of i \<and>
     {unat (phdrs + 56 * of_nat i)..<unat (phdrs + 56 * of_nat i) + 56} \<subseteq> alloc_bytes A bs)"

lemma headers_at_kept:
  assumes "heap_ok s bs" "seg_ok content (heap_base s) ph" "headers_at phdrs hd_of (heap_base s) bs is (heap_mem s)"
    "agree (kept_bytes (heap_base s) bs - {seg_lo ph..<seg_hi ph}) (heap_mem s) m"
  shows "headers_at phdrs hd_of (heap_base s) bs is m"
  unfolding headers_at_def
proof (intro ballI conjI)
  fix j assume "j \<in> set is"
  then have j: "phdr_at (heap_mem s) (phdrs + 56 * of_nat j) = hd_of j"
    "{unat (phdrs + 56 * of_nat j)..<unat (phdrs + 56 * of_nat j) + 56} \<subseteq> alloc_bytes (heap_base s) bs"
    using assms(3) by (simp_all add: headers_at_def)
  show "phdr_at m (phdrs + 56 * of_nat j) = hd_of j"
    using phdr_at_agree [OF assms(4) header_kept(1,2) [OF assms(1,2) j(2)]] j(1) by simp
qed (use assms(3) in \<open>auto simp: headers_at_def\<close>)

text \<open>
  What loading the segments \<open>is\<close> achieves, from the state \<open>s\<close> to \<open>t\<close>: all of them are in memory and mapped, and other memory
  and the mappings of other segments are as they were.
\<close>

definition segs_bytes :: "(nat \<Rightarrow> elf64_phdr) \<Rightarrow> nat list \<Rightarrow> nat set" where
  "segs_bytes hd_of is = (\<Union>i\<in>set (loadable hd_of is). {seg_lo (hd_of i)..<seg_hi (hd_of i)})"

definition segs_loaded :: "u8 list \<Rightarrow> (nat \<Rightarrow> elf64_phdr) \<Rightarrow> nat list \<Rightarrow> mem \<Rightarrow> mm \<Rightarrow> bool" where
  "segs_loaded content hd_of is m v \<longleftrightarrow> (\<forall>i\<in>set (loadable hd_of is). segment_loaded content (hd_of i) m \<and> segment_mapped (hd_of i) v)"

definition others_mapped :: "nat set \<Rightarrow> mm \<Rightarrow> mm \<Rightarrow> bool" where
  "others_mapped X v v' \<longleftrightarrow> (\<forall>ph. segment_mapped ph v \<longrightarrow> seg_hi ph \<le> 2 ^ 48 \<longrightarrow> X \<inter> {seg_lo ph..<seg_hi ph} = {} \<longrightarrow> segment_mapped ph v')"

definition load_effect :: "u8 list \<Rightarrow> (nat \<Rightarrow> elf64_phdr) \<Rightarrow> nat list \<Rightarrow> blocks \<Rightarrow> 'a kmem_scheme \<Rightarrow> 'a kmem_scheme \<Rightarrow> bool" where
  "load_effect content hd_of is bs s t \<longleftrightarrow> heap_ok t bs \<and> heap_base t = heap_base s \<and> pt_ok (vm t) \<and>
     agree (kept_bytes (heap_base s) bs - segs_bytes hd_of is) (heap_mem s) (heap_mem t) \<and>
     segs_loaded content hd_of is (heap_mem t) (vm t) \<and> others_mapped (segs_bytes hd_of is) (vm s) (vm t)"

text \<open>The effect of one segment, which is apart from the rest, and that of the rest make the effect of all.\<close>

lemma load_effect_Cons:
  assumes lim: "lim \<le> 2 ^ 48" "lim \<le> heap_base s" and load: "p_type (hd_of i) = PT_LOAD" and seg: "seg_ok content lim (hd_of i)"
    and apart: "segs_bytes hd_of is \<inter> {seg_lo (hd_of i)..<seg_hi (hd_of i)} = {}" and A: "heap_base s1 = heap_base s"
    and mem1: "agree (kept_bytes (heap_base s) bs - {seg_lo (hd_of i)..<seg_hi (hd_of i)}) (heap_mem s) (heap_mem s1)"
    and loaded1: "segment_loaded content (hd_of i) (heap_mem s1)" and mapped1: "segment_mapped (hd_of i) (vm s1)"
    and others1: "others_mapped {seg_lo (hd_of i)..<seg_hi (hd_of i)} (vm s) (vm s1)" and rest: "load_effect content hd_of is bs s1 t"
  shows "load_effect content hd_of (i # is) bs s t"
proof -
  let ?A = "heap_base s" and ?rng = "{seg_lo (hd_of i)..<seg_hi (hd_of i)}"
  have hi: "seg_hi (hd_of i) \<le> lim" using seg_ok_range(3) [OF seg] lim by simp
  have all: "segs_bytes hd_of (i # is) = ?rng \<union> segs_bytes hd_of is" using load by (simp add: segs_bytes_def)
  have mem2: "agree (kept_bytes ?A bs - segs_bytes hd_of is) (heap_mem s1) (heap_mem t)" and mapped2: "others_mapped (segs_bytes hd_of is) (vm s1) (vm t)"
    using rest A by (simp_all add: load_effect_def)
  have "?rng \<subseteq> kept_bytes ?A bs - segs_bytes hd_of is" using apart hi lim by (fastforce simp: kept_bytes_def)
  then have "segment_loaded content (hd_of i) (heap_mem t)" using segment_loaded_agree [OF loaded1 mem2 _ seg] lim by simp
  moreover have "segment_mapped (hd_of i) (vm t)" using mapped2 mapped1 hi lim apart by (simp add: others_mapped_def)
  ultimately have "segs_loaded content hd_of (i # is) (heap_mem t) (vm t)" using rest load by (auto simp: load_effect_def segs_loaded_def)
  moreover have "agree (kept_bytes ?A bs - segs_bytes hd_of (i # is)) (heap_mem s) (heap_mem t)"
    unfolding all by (intro agree_trans [OF agree_sub [OF mem1] agree_sub [OF mem2]]) auto
  moreover have "others_mapped (segs_bytes hd_of (i # is)) (vm s) (vm t)"
    using others1 mapped2 unfolding others_mapped_def all by (simp add: Int_Un_distrib2)
  ultimately show ?thesis using rest A by (simp add: load_effect_def)
qed

lemma segs_ok_apart:
  assumes "segs_ok content lim extra bs hd_of (i # is)" "distinct (i # is)" "p_type (hd_of i) = PT_LOAD"
  shows "segs_bytes hd_of is \<inter> {seg_lo (hd_of i)..<seg_hi (hd_of i)} = {}"
proof -
  have "{seg_lo (hd_of j)..<seg_hi (hd_of j)} \<inter> {seg_lo (hd_of i)..<seg_hi (hd_of i)} = {}" if "j \<in> set (loadable hd_of is)" for j
    using assms that unfolding segs_ok_def by auto
  then show ?thesis unfolding segs_bytes_def by blast
qed

lemma load_segments_ok:
  fixes s :: "'a kmem_scheme"
  assumes V: "serves V name content pos opened steady K" and len: "length content < 2 ^ 31" and lim: "lim \<le> 2 ^ 48"
  assumes "heap_ok s bs" "lim \<le> heap_base s" "distinct is" "segs_ok content lim 0 bs hd_of is"
    and "headers_at phdrs hd_of (heap_base s) bs is (heap_mem s)"
    and "pt_ok (vm s)" "frames_left (pages_total hd_of is) (vm s)" "used (vm s) + 3 * 4096 * pages_total hd_of is \<le> 65536"
    and "steady s" "opened f" "K \<subseteq> kept_bytes (heap_base s) bs - segs_bytes hd_of is"
  shows "\<exists>f' t. load_segments V frame phdrs is f s = ret (True, f', t) \<and> load_effect content hd_of is bs s t \<and> opened f' \<and> steady t"
  using assms(4-14)
proof (induction "is" arbitrary: f s)
  case Nil
  then show ?case by (simp add: load_effect_def segs_loaded_def others_mapped_def agree_def)
next
  case (Cons i "is")
  let ?phdr = "phdrs + 56 * of_nat i" and ?A = "heap_base s" and ?rng = "{seg_lo (hd_of i)..<seg_hi (hd_of i)}"
  note segs = segs_ok_Cons [OF Cons.prems(4)]
  have here: "phdr_at (heap_mem s) ?phdr = hd_of i" "{unat ?phdr..<unat ?phdr + 56} \<subseteq> alloc_bytes ?A bs"
    and there: "headers_at phdrs hd_of ?A bs is (heap_mem s)" using Cons.prems(5) by (simp_all add: headers_at_def)
  show ?case
  proof (cases "p_type (hd_of i) = PT_LOAD")
    case False
    then have "load_segments V frame phdrs (i # is) f s = load_segments V frame phdrs is f s" using here(1) by (simp add: Let_def)
    moreover have "pages_total hd_of (i # is) = pages_total hd_of is" using False by (simp add: pages_total_def)
    moreover have "load_effect content hd_of (i # is) bs s = load_effect content hd_of is bs s"
      using False by (simp add: load_effect_def segs_loaded_def segs_bytes_def fun_eq_iff)
    moreover have "segs_bytes hd_of (i # is) = segs_bytes hd_of is" using False by (simp add: segs_bytes_def)
    ultimately show ?thesis using Cons.IH [of s f] Cons.prems segs there by simp
  next
    case True
    have tot: "pages_total hd_of (i # is) = unat (num_pages (hd_of i)) + pages_total hd_of is" using True by (simp add: pages_total_def)
    have seg: "seg_ok content lim (hd_of i)" "seg_ok content ?A (hd_of i)" "\<exists>b\<in>set bs. fits ((unat (p_filesz (hd_of i)) + 3) div 4 * 4) b"
      using Cons.prems(2,4) True by (auto simp: segs_ok_def seg_ok_def)
    have all: "segs_bytes hd_of (i # is) = ?rng \<union> segs_bytes hd_of is" using True by (simp add: segs_bytes_def)
    have K: "K \<subseteq> kept_bytes ?A bs - ?rng" "K \<subseteq> kept_bytes ?A bs - segs_bytes hd_of is" using Cons.prems(11) unfolding all by auto
    obtain f1 s1 where ls: "load_segment V frame ?phdr f s = ret (True, f1, s1)" "heap_ok s1 bs" "heap_base s1 = ?A"
      "agree (kept_bytes ?A bs - ?rng) (heap_mem s) (heap_mem s1)" "segment_loaded content (hd_of i) (heap_mem s1)"
      "pt_ok (vm s1)" "frames_left (pages_total hd_of is) (vm s1)" "used (vm s1) \<le> used (vm s) + 3 * 4096 * unat (num_pages (hd_of i))"
      "pages_mapped (hd_of i) (page_base (p_vaddr (hd_of i))) [0..<unat (num_pages (hd_of i))] (vm s) (vm s1)" "opened f1" "steady s1"
      using load_segment_ok [OF V Cons.prems(9,10) K(1) len Cons.prems(1) seg(2) here seg(3) Cons.prems(6), of "pages_total hd_of is" frame thesis]
        Cons.prems(7,8) unfolding tot by (simp add: add_mult_distrib2)
    have hi: "seg_hi (hd_of i) \<le> 2 ^ 48" using seg_ok_range(3) [OF seg(1)] lim by simp
    have "segment_mapped (hd_of i) (vm s1)"
      using pages_mapped_segment [OF _ _ ls(9)] hi Cons.prems(7) by (simp add: frames_left_def)
    moreover have "others_mapped ?rng (vm s) (vm s1)"
      using pages_mapped_others [OF _ _ _ _ ls(9)] hi by (simp add: others_mapped_def)
    moreover have "used (vm s1) + 3 * 4096 * pages_total hd_of is \<le> 65536" using ls(8) Cons.prems(8) tot by simp
    then obtain f2 t where IH: "load_segments V frame phdrs is f1 s1 = ret (True, f2, t)" "load_effect content hd_of is bs s1 t"
      "opened f2" "steady t"
      using Cons.IH [of s1 f1, OF ls(2)] Cons.prems(2,3) segs headers_at_kept [OF Cons.prems(1) seg(2) there ls(4)] ls(3,6,7,10,11) K(2) by auto
    ultimately have "load_effect content hd_of (i # is) bs s t"
      using load_effect_Cons [OF lim Cons.prems(2) True seg(1) segs_ok_apart [OF Cons.prems(4,3) True] ls(3-5)] by blast
    moreover have "load_segments V frame phdrs (i # is) f s = ret (True, f2, t)" using here(1) True ls(1) IH(1) by (simp add: Let_def)
    ultimately show ?thesis using IH(3,4) by blast
  qed
qed

section \<open>Loading a program\<close>

text \<open>The program header at offset \<open>off\<close> of a file.\<close>

definition file_phdr :: "u8 list \<Rightarrow> nat \<Rightarrow> elf64_phdr" where
  "file_phdr content off = phdr_at (\<lambda>x. if unat x < length content then content ! unat x else 0) (of_nat off)"

lemma file_phdr_at:
  assumes "\<And>i. i < 56 \<Longrightarrow> m (a + of_nat i) = content ! (off + i)" "off + 56 \<le> length content" "length content < 2 ^ 31"
  shows "phdr_at m a = file_phdr content off"
  unfolding file_phdr_def
proof (rule phdr_at_shift)
  fix i :: nat assume i: "i < 56"
  have "unat (of_nat off + of_nat i :: u64) = off + i"
    using i assms(2,3) unat_of_nat_small [of "off + i", where 'a = 64] by simp
  then show "m (a + of_nat i) = (if unat (of_nat off + of_nat i :: u64) < length content then content ! unat (of_nat off + of_nat i :: u64) else 0)"
    using assms(1) [OF i] assms(2) i by simp
qed

lemma segs_ok_room:
  assumes "segs_ok content lim (n + 64) bs hd_of is" "\<forall>F. (\<exists>b\<in>set bs. fits (n + 64 + F) b) \<longrightarrow> (\<exists>b\<in>set bs1. fits F b)"
  shows "segs_ok content lim 0 bs1 hd_of is"
  using assms unfolding segs_ok_def by (simp only: add_0) blast

text \<open>The table of program headers in a block from the heap.\<close>

lemma headers_in_block:
  fixes p :: u64 and m1 :: mem
  assumes "(unat p, k) \<in> live A bs1" "56 * n \<le> k" "unat p + k < 2 ^ 64" "off + 56 * n \<le> length content" "length content < 2 ^ 31" "i < n"
  defines "m \<equiv> store_bytes p (take (56 * n) (drop off content)) m1"
  shows "phdr_at m (p + 56 * of_nat i) = file_phdr content (off + 56 * i)"
    "{unat (p + 56 * of_nat i)..<unat (p + 56 * of_nat i) + 56} \<subseteq> alloc_bytes A bs1"
proof -
  let ?bytes = "take (56 * n) (drop off content)"
  have i: "56 * i + 56 \<le> 56 * n" using assms(6) by simp
  have len: "length ?bytes = 56 * n" using assms(4) by simp
  show "phdr_at m (p + 56 * of_nat i) = file_phdr content (off + 56 * i)"
  proof (rule file_phdr_at)
    fix j :: nat assume j: "j < 56"
    then have "m (p + of_nat (56 * i + j)) = ?bytes ! (56 * i + j)"
      unfolding m_def using i len assms(5) by (intro store_bytes_read) simp_all
    then show "m (p + 56 * of_nat i + of_nat j) = content ! (off + 56 * i + j)"
      using i j assms(4) by (simp add: add.assoc)
  qed (use i assms(4,5) in simp_all)
  have u: "unat (of_nat (56 * i) :: u64) = 56 * i" using i assms(2,3) by (intro unat_of_nat_small) simp
  have "unat (p + of_nat (56 * i)) = unat p + unat (of_nat (56 * i) :: u64)"
    unfolding u using i assms(2,3) by (subst unat_add_small) (simp_all only: u, simp)
  then have "unat (p + 56 * of_nat i) = unat p + 56 * i" unfolding u by simp
  then have "{unat (p + 56 * of_nat i)..<unat (p + 56 * of_nat i) + 56} \<subseteq> {unat p..<unat p + k}"
    using i assms(2) by auto
  then show "{unat (p + 56 * of_nat i)..<unat (p + 56 * of_nat i) + 56} \<subseteq> alloc_bytes A bs1"
    using alloc_bytes_live [OF assms(1)] by blast
qed

lemma segs_loaded_kept:
  assumes "segs_loaded content hd_of is m v" "agree (kept_bytes A bs1) m m'" "segs_ok content lim extra bs hd_of is" "lim \<le> 2 ^ 48" "lim \<le> A"
  shows "segs_loaded content hd_of is m' v"
proof -
  have "segment_loaded content (hd_of i) m'" if i: "i \<in> set (loadable hd_of is)" for i
  proof -
    have so: "seg_ok content lim (hd_of i)" using assms(3) i by (simp add: segs_ok_def del: loadable_simps(4))
    then have "{seg_lo (hd_of i)..<seg_hi (hd_of i)} \<subseteq> kept_bytes A bs1"
      using seg_ok_range(3) [OF so] assms(4,5) by (auto simp: kept_bytes_def)
    then show ?thesis using segment_loaded_agree [OF _ assms(2) _ so] assms(1,4) i by (simp add: segs_loaded_def)
  qed
  then show ?thesis using assms(1) by (simp add: segs_loaded_def)
qed

lemma load_table_ok:
  fixes s :: "'a kmem_scheme"
  assumes V: "serves V name content pos opened steady K" and I: "steady s" "opened f" and len: "length content < 2 ^ 31" and eh: "e_phentsize eh = 56"
    and n: "n = unat (e_phnum eh)" and tab: "off + 56 * n \<le> length content" "pos f = off"
    and hs: "hs = (\<lambda>i. file_phdr content (off + 56 * i))"
    and lim: "lim \<le> 2 ^ 48" "lim \<le> heap_base s" and ok: "heap_ok s bs" "pt_ok (vm s)"
    and segs: "segs_ok content lim (56 * n + 64) bs hs [0..<n]" and room: "\<exists>b\<in>set bs. fits (56 * n) b"
    and pages: "frames_left (pages_total hs [0..<n]) (vm s)" "used (vm s) + 3 * 4096 * pages_total hs [0..<n] \<le> 65536"
    and K: "K \<subseteq> kept_bytes (heap_base s) bs - segs_bytes hs [0..<n]"
  shows "\<exists>f' t. load_table V frame eh f s = ret (True, f', t) \<and> heap_ok t bs \<and> pt_ok (vm t) \<and> opened f' \<and> steady t \<and>
    agree (kept_bytes (heap_base s) bs - segs_bytes hs [0..<n]) (heap_mem s) (heap_mem t) \<and> segs_loaded content hs [0..<n] (heap_mem t) (vm t)"
proof -
  let ?A = "heap_base s" and ?U = "segs_bytes hs [0..<n]" and ?bytes = "take (56 * n) (drop off content)"
  let ?sz = "ucast (e_phnum eh) * ucast (e_phentsize eh) :: u32"
  have "n < 65536" unfolding n using unsigned_less [of "e_phnum eh", where 'a = nat] by simp
  then have sz: "unat ?sz = 56 * n" "unat (ucast ?sz :: u64) = 56 * n"
    by (simp_all add: eh unat_mult_small unsigned_ucast_eq take_bit_nat_eq_self n)
  have rnd: "56 * n = (unat (ucast ?sz :: u64) + 3) div 4 * 4" "unat (ucast ?sz :: u64) + 3 < 2 ^ 64" "unat ?sz = unat (ucast ?sz :: u64)"
    "pos f + unat (ucast ?sz :: u64) \<le> length content" "?bytes = take (unat (ucast ?sz :: u64)) (drop (pos f) content)"
    unfolding sz tab(2) using \<open>n < 65536\<close> tab(1) by simp_all
  obtain p k bs1 m1 r f1 s2 where al: "kmalloc (ucast ?sz) s = Some (p, s\<lparr>heap_mem := m1\<rparr>)" "agree (kept_bytes ?A bs) (heap_mem s) m1"
    "vfs_read V f ?sz (s\<lparr>heap_mem := m1\<rparr>) = ret (r, ?sz, ?bytes, f1, s2)" "r \<noteq> 0" "heap_mem s2 = m1" "vm s2 = vm s"
    "heap_ok (s2\<lparr>heap_mem := store_bytes p ?bytes m1\<rparr>) bs1" "agree (kept_bytes ?A bs) (heap_mem s) (store_bytes p ?bytes m1)"
    "unat (ucast ?sz :: u64) \<le> k" "unat p + k < 2 ^ 64" "loan s bs (56 * n) p k bs1" "opened f1"
    "steady (s2\<lparr>heap_mem := store_bytes p ?bytes m1\<rparr>)"
    by (rule alloc_and_read [OF V I _ ok(1) rnd(2,1) room rnd(3-5)]) (use K in blast, rule that)
  let ?s3 = "s2\<lparr>heap_mem := store_bytes p ?bytes m1\<rparr>"
  note loan = loan_block [OF al(11)]
  have segs1: "segs_ok content lim 0 bs1 hs [0..<n]" using segs_ok_room [OF segs] loan(5) by blast
  have "headers_at p hs ?A bs1 [0..<n] (heap_mem ?s3)"
    using headers_in_block [OF loan(2) al(9) [unfolded sz(2)] al(10) tab(1) len] by (simp add: hs headers_at_def)
  moreover have "K \<subseteq> kept_bytes ?A bs1 - ?U" using K loan(3) by blast
  ultimately obtain f4 s4 where ls: "load_segments V frame p [0..<n] f1 ?s3 = ret (True, f4, s4)" and I4: "opened f4" "steady s4"
    and "load_effect content hs [0..<n] bs1 ?s3 s4"
    using load_segments_ok [OF V len lim(1) al(7) _ _ segs1, of p f1 frame] lim(2) ok(2) pages al(6,12,13) by auto
  then have s4: "heap_ok s4 bs1" "heap_base s4 = ?A" "pt_ok (vm s4)" "agree (kept_bytes ?A bs1 - ?U) (store_bytes p ?bytes m1) (heap_mem s4)"
    "segs_loaded content hs [0..<n] (heap_mem s4) (vm s4)" using al(6) by (simp_all add: load_effect_def)
  obtain m5 where fr: "kfree p s4 = Some (s4\<lparr>heap_mem := m5\<rparr>)" "heap_ok (s4\<lparr>heap_mem := m5\<rparr>) bs" "agree (kept_bytes ?A bs1) (heap_mem s4) m5"
    by (rule loan_return [OF al(11) s4(1,2)]) (rule that)
  have run: "load_table V frame eh f s = ret (True, f4, s4\<lparr>heap_mem := m5\<rparr>)"
    unfolding load_table_def Let_def using al(1,3-5) loan(1) ls fr(1) by (simp flip: n)
  have k: "agree (kept_bytes ?A bs - ?U) (heap_mem s) m5"
    using loan(3) by (intro agree_trans [OF agree_sub [OF al(8)]] agree_trans [OF agree_sub [OF s4(4)]] agree_sub [OF fr(3)]) auto
  have "segs_loaded content hs [0..<n] m5 (vm s4)" by (rule segs_loaded_kept [OF s4(5) fr(3) segs lim])
  moreover have "steady (s4\<lparr>heap_mem := m5\<rparr>)" using K loan(3) by (intro serves_write [OF V I4(2) fr(3)]) auto
  ultimately show ?thesis using run k s4(3) fr(2) I4(1) by (intro exI [of _ f4] exI [of _ "s4\<lparr>heap_mem := m5\<rparr>"]) simp
qed

text \<open>Opening the file and reading its header.\<close>

lemma elf_header_read:
  assumes V: "serves V name content pos opened steady K" and I: "steady s" and len: "64 \<le> length content"
  obtains r1 f1 s1 r2 f2 s2 where
    "vfs_open V name VFS_MODE_READ (kprint ''\<newline>'' (kprint name (kprint ''Loading ELF executable: '' s))) = ret (r1, f1, s1)" "r1 \<noteq> 0"
    "vfs_read V f1 64 s1 = ret (r2, 64, take 64 content, f2, s2)" "r2 \<noteq> 0" "mem_kept s s2" "opened f2" "steady s2"
proof -
  let ?s0 = "kprint ''\<newline>'' (kprint name (kprint ''Loading ELF executable: '' s))"
  have i0: "steady ?s0" by (intro serves_calm [OF V _ calm_intros(1)]) (rule I)
  obtain r1 f1 s1 where op: "vfs_open V name VFS_MODE_READ ?s0 = ret (r1, f1, s1)" "r1 \<noteq> 0" "pos f1 = 0" "mem_kept ?s0 s1" "opened f1" "steady s1"
    using serves_open [OF V i0] by blast
  have "pos f1 + unat (64 :: u32) \<le> length content" using op(3) len by simp
  then obtain r2 f2 s2 where rd: "vfs_read V f1 64 s1 = ret (r2, 64, take (unat (64 :: u32)) (drop (pos f1) content), f2, s2)" "r2 \<noteq> 0"
    "pos f2 = pos f1 + unat (64 :: u32)" "mem_kept s1 s2" "opened f2" "steady s2"
    by (rule serves_read [OF V op(6,5)]) (rule that)
  have "mem_kept s s2" using op(4) rd(4) by (simp add: mem_kept_def)
  then show thesis using that op(1,2) rd(1,2,5,6) op(3) by simp
qed

section \<open>Properties\<close>

text \<open>
  A file of 123 bytes: the ELF header, one program header and three bytes of code, to be loaded at
  \<open>0x400000\<close> and followed by five bytes of zeros. It is served from memory to a machine with a heap of one free block at \<open>0x800000\<close>.
\<close>

definition sample_program :: "u8 list" where
  "sample_program =
     [127, 69, 76, 70, 2, 1, 1, 0, 0, 0, 0, 0, 0, 0, 0, 0, 2, 0, 62, 0, 1, 0, 0, 0, 0, 0, 64, 0, 0, 0, 0, 0,
      64, 0, 0, 0, 0, 0, 0, 0, 0, 0, 0, 0, 0, 0, 0, 0, 0, 0, 0, 0, 64, 0, 56, 0, 1, 0, 0, 0, 0, 0, 0, 0,
      1, 0, 0, 0, 7, 0, 0, 0, 120, 0, 0, 0, 0, 0, 0, 0, 0, 0, 64, 0, 0, 0, 0, 0, 0, 0, 0, 0, 0, 0, 0, 0,
      3, 0, 0, 0, 0, 0, 0, 0, 8, 0, 0, 0, 0, 0, 0, 0, 0, 16, 0, 0, 0, 0, 0, 0, 144, 235, 253]"

definition memory_file :: "u8 list \<Rightarrow> (nat, 'a kmem_scheme) vfs" where
  "memory_file content =
     \<lparr>vfs_open = (\<lambda>name flags s. ret (1, 0, s)),
      vfs_read = (\<lambda>f n s. let bs = take (unat n) (drop f content) in ret (1, of_nat (length bs), bs, f + length bs, s)),
      vfs_seek = (\<lambda>f i whence s. ret (if i \<le> int (length content) then (1, nat i, s) else (0, f, s))),
      vfs_close = (\<lambda>f s. ret s)\<rparr>"

definition elf_machine :: kmem where
  "elf_machine = sample_kmem\<lparr>heap_first_block := 0x800000,
     vm := sample_mm\<lparr>heap_start := 0x800000, heap_end := 0x801000\<rparr>, heap_mem := set_block 0x800000 4072 NULL 1 (\<lambda>_. 0)\<rparr>"

lemma memory_file_serves: "serves (memory_file content) name content (\<lambda>f. f) (\<lambda>_. True) (\<lambda>_. True) {}"
proof -
  have "length (take (unat n) (drop f content)) = unat n" if "f + unat n \<le> length content" for f and n :: u32
    using that by simp
  then show ?thesis by (auto simp: serves_def memory_file_def mem_kept_def Let_def simp del: length_take)
qed

lemma elf_machine_ok: "heap_ok elf_machine [(4072, True)]" "heap_base elf_machine = 0x800000" "pt_ok (vm elf_machine)"
  "frames_left 1 (vm elf_machine)" "used (vm elf_machine) = 0"
proof -
  show b: "heap_base elf_machine = 0x800000" "frames_left 1 (vm elf_machine)" "used (vm elf_machine) = 0"
    by (simp_all add: elf_machine_def frames_left_def sample_mm_def aligned_def)
  have "hdr (set_block (of_nat 0x800000) 4072 NULL 1 (\<lambda>_. 0)) 0x800000 4072 0 True"
    using set_block_hdr(1) [of "0x800000" 4072 NULL 1] by simp
  then have "seg (heap_mem elf_machine) 0x800000 [(4072, True)] 0" by (simp add: elf_machine_def)
  then show "heap_ok elf_machine [(4072, True)]" using b by (simp add: heap_ok_def heap_wf_def) (simp add: elf_machine_def)
  have "table_at (vm elf_machine) = table_at sample_mm" by (rule walk_cong) (simp_all add: elf_machine_def)
  then show "pt_ok (vm elf_machine)"
    using sample_mm_ok(1) by (simp add: pt_ok_def pool_ok_def in_free_pool_def elf_machine_def)
qed

lemma sample_program_header:
  "length sample_program = 123" "header_error (ehdr_of_bytes (take 64 sample_program)) = None"
  "e_phnum (ehdr_of_bytes (take 64 sample_program)) = 1" "e_phentsize (ehdr_of_bytes (take 64 sample_program)) = 56"
  "e_phoff (ehdr_of_bytes (take 64 sample_program)) = 64" "e_entry (ehdr_of_bytes (take 64 sample_program)) = 0x400000"
  by (simp_all add: sample_program_def ehdr_of_bytes_def header_error_def le16_def le32_def le64_def)

lemma rd_le_numeral: "rd_le (numeral k) a m = unat (m a) + 256 * rd_le (pred_numeral k) (a + 1) m"
  by (simp add: numeral_eq_Suc)

lemma sample_program_segment:
  "file_phdr sample_program 64 = \<lparr>p_type = 1, p_flags = 7, p_offset = 120, p_vaddr = 0x400000, p_paddr = 0, p_filesz = 3, p_memsz = 8, p_align = 4096\<rparr>"
  by (simp add: file_phdr_def phdr_at_def rd32_def rd64_def rd_le_numeral sample_program_def)

lemma elf_load_program:
  fixes s :: "'a kmem_scheme"
  assumes V: "serves V name content pos opened steady K" "steady s" and len: "length content < 2 ^ 31" "64 \<le> length content"
    and eh: "eh = ehdr_of_bytes (take 64 content)" "header_error eh = None" "e_phnum eh \<noteq> 0" "e_phentsize eh = 56"
    and n: "n = unat (e_phnum eh)" and off: "off = unat (e_phoff eh)" and tab: "off + 56 * n \<le> length content"
    and hs: "hs = (\<lambda>i. file_phdr content (off + 56 * i))"
    and lim: "lim \<le> 2 ^ 48" "lim \<le> heap_base s" and ok: "heap_ok s bs" "pt_ok (vm s)"
    and segs: "segs_ok content lim (56 * n + 64) bs hs [0..<n]" and room: "\<exists>b\<in>set bs. fits (56 * n) b"
    and pages: "frames_left (pages_total hs [0..<n]) (vm s)" "used (vm s) + 3 * 4096 * pages_total hs [0..<n] \<le> 65536"
    and K: "K \<subseteq> kept_bytes (heap_base s) bs - segs_bytes hs [0..<n]"
  shows "\<exists>t. elf_load V frame name proc s = ret (1, proc\<lparr>p_entry := e_entry eh\<rparr>, t) \<and> heap_ok t bs \<and> pt_ok (vm t) \<and> steady t \<and>
    agree (kept_bytes (heap_base s) bs - segs_bytes hs [0..<n]) (heap_mem s) (heap_mem t) \<and> segs_loaded content hs [0..<n] (heap_mem t) (vm t)"
proof -
  obtain r1 f1 s1 r2 f2 s2 where rd:
    "vfs_open V name VFS_MODE_READ (kprint ''\<newline>'' (kprint name (kprint ''Loading ELF executable: '' s))) = ret (r1, f1, s1)" "r1 \<noteq> 0"
    "vfs_read V f1 64 s1 = ret (r2, 64, take 64 content, f2, s2)" "r2 \<noteq> 0" "mem_kept s s2" "opened f2" "steady s2"
    by (rule elf_header_read [OF V len(2)])
  have "unat (e_phoff eh) \<le> length content" using tab off by simp
  then obtain r3 f3 s3 where sk: "vfs_seek V f2 (sint (ucast (e_phoff eh) :: 32 word)) 0 s2 = ret (r3, f3, s3)" "r3 \<noteq> 0"
    "pos f3 = unat (e_phoff eh)" "mem_kept s2 s3" "opened f3" "steady s3"
    by (rule serves_seek [OF V(1) rd(7,6) _ len(1)]) (rule that)
  note q3 = mem_kept_trans [OF rd(5) sk(4)]
  then have s3: "heap_mem s3 = heap_mem s" "vm s3 = vm s" by (simp_all add: mem_kept_def)
  have h3: "heap_ok s3 bs" using mem_kept_heap_ok [OF q3] ok(1) by simp
  obtain f4 s4 where lt: "load_table V frame eh f3 s3 = ret (True, f4, s4)" "heap_ok s4 bs" "pt_ok (vm s4)" "opened f4" "steady s4"
    "agree (kept_bytes (heap_base s) bs - segs_bytes hs [0..<n]) (heap_mem s) (heap_mem s4)" "segs_loaded content hs [0..<n] (heap_mem s4) (vm s4)"
    using load_table_ok [OF V(1) sk(6,5) len(1) eh(4) n tab sk(3) [folded off] hs lim(1) _ h3 _ segs room, of frame, unfolded s3, OF lim(2) ok(2) pages K] by blast
  obtain s5 where cl: "vfs_close V f4 s4 = ret s5" "mem_kept s4 s5" "steady s5" using serves_close [OF V(1) lt(5,4)] by blast
  let ?t = "kprint ''ELF executable loaded successfully\<newline>'' s5"
  have q: "mem_kept s4 ?t" using mem_kept_trans [OF cl(2) mem_kept_kprint] .
  then have t: "heap_mem ?t = heap_mem s4" "vm ?t = vm s4" unfolding mem_kept_def by simp_all
  have "steady ?t" by (rule serves_calm [OF V(1) cl(3) calm_intros(1)])
  moreover have "elf_load V frame name proc s = ret (1, proc\<lparr>p_entry := e_entry eh\<rparr>, ?t)"
    unfolding elf_load_def Let_def using rd(1-4) sk(1,2) lt(1) cl(1) eh(2,3) by (simp flip: eh(1))
  ultimately show ?thesis using lt mem_kept_heap_ok [OF q] t by (intro exI [of _ ?t]) simp
qed

text \<open>
  C18. Loading a program. For a readable 64-bit ELF executable whose loadable segments lie inside the file, below the
  kernel's heap and on separate pages, with enough page frames, page-table memory and a free heap block, \<open>elf_load\<close> returns 1 and
  sets the entry point of the process. Afterwards every loadable segment is in memory, the file's bytes followed by zeros up to its size
  in memory; each of its pages is mapped to a frame with the permissions of the header; the heap has the
  same blocks as before, so both buffers were released; and no other byte below the heap or in an allocated block has changed.
\<close>

theorem elf_load_loads_program:
  fixes s :: "'a kmem_scheme"
  assumes V: "serves V name content pos opened steady K" "steady s" and len: "length content < 2 ^ 31" "64 \<le> length content"
    and eh: "eh = ehdr_of_bytes (take 64 content)" "header_error eh = None" "e_phnum eh \<noteq> 0" "e_phentsize eh = 56"
    and n: "n = unat (e_phnum eh)" and off: "off = unat (e_phoff eh)" and tab: "off + 56 * n \<le> length content"
    and hs: "hs = (\<lambda>i. file_phdr content (off + 56 * i))"
    and lim: "lim \<le> 2 ^ 48" "lim \<le> heap_base s" and ok: "heap_ok s bs" "pt_ok (vm s)"
    and segs: "segs_ok content lim (56 * n + 64) bs hs [0..<n]" and room: "\<exists>b\<in>set bs. fits (56 * n) b"
    and pages: "frames_left (pages_total hs [0..<n]) (vm s)" "used (vm s) + 3 * 4096 * pages_total hs [0..<n] \<le> 65536"
    and K: "K \<subseteq> kept_bytes (heap_base s) bs - (\<Union>i\<in>set (loadable hs [0..<n]). {seg_lo (hs i)..<seg_hi (hs i)})"
  shows "\<exists>t. elf_load V frame name proc s = ret (1, proc\<lparr>p_entry := e_entry eh\<rparr>, t) \<and> heap_ok t bs \<and> pt_ok (vm t) \<and> steady t \<and>
    agree (kept_bytes (heap_base s) bs - (\<Union>i\<in>set (loadable hs [0..<n]). {seg_lo (hs i)..<seg_hi (hs i)})) (heap_mem s) (heap_mem t) \<and>
    (\<forall>i\<in>set (loadable hs [0..<n]). segment_loaded content (hs i) (heap_mem t) \<and> segment_mapped (hs i) (vm t))"
  using elf_load_program [OF V len eh n off tab hs lim ok segs room pages K [folded segs_bytes_def]]
  unfolding segs_bytes_def segs_loaded_def .

theorem elf_load_loads_program_witness:
  "\<exists>t. elf_load (memory_file sample_program) (\<lambda>_. 0xCC) ''/init'' blank_process elf_machine = ret (1, blank_process\<lparr>p_entry := 0x400000\<rparr>, t) \<and>
    heap_ok t [(4072, True)] \<and> segment_loaded sample_program (file_phdr sample_program 64) (heap_mem t) \<and>
    segment_mapped (file_phdr sample_program 64) (vm t)"
proof -
  let ?hs = "\<lambda>i. file_phdr sample_program (64 + 56 * i)"
  have l: "loadable ?hs [0..<1] = [0]" by (simp add: loadable_def sample_program_segment)
  have p: "pages_total ?hs [0..<1] = 1"
    unfolding pages_total_def l by (simp add: sample_program_segment num_pages_def page_base_def)
  have "seg_ok sample_program 0x800000 (file_phdr sample_program 64)"
    by (simp add: seg_ok_def sample_program_segment sample_program_header)
  then have so: "segs_ok sample_program 0x800000 (56 * 1 + 64) [(4072, True)] ?hs [0..<1]"
    unfolding segs_ok_def l by (simp add: sample_program_segment fits_def)
  have "\<exists>t. elf_load (memory_file sample_program) (\<lambda>_. 0xCC) ''/init'' blank_process elf_machine =
      ret (1, blank_process\<lparr>p_entry := e_entry (ehdr_of_bytes (take 64 sample_program))\<rparr>, t) \<and> heap_ok t [(4072, True)] \<and> pt_ok (vm t) \<and> (\<lambda>_. True) t \<and>
    agree (kept_bytes (heap_base elf_machine) [(4072, True)] - (\<Union>i\<in>set (loadable ?hs [0..<1]). {seg_lo (?hs i)..<seg_hi (?hs i)}))
      (heap_mem elf_machine) (heap_mem t) \<and>
    (\<forall>i\<in>set (loadable ?hs [0..<1]). segment_loaded sample_program (?hs i) (heap_mem t) \<and> segment_mapped (?hs i) (vm t))"
    by (rule elf_load_loads_program [OF memory_file_serves TrueI, where lim = "0x800000" and off = 64])
      (simp_all add: sample_program_header elf_machine_ok so [simplified] p [simplified] fits_def elf_machine_ok(4) [simplified])
  then show ?thesis unfolding l by (auto simp: sample_program_header)
qed

text \<open>
  What the bytes of a file say against loading it, in the order in which a loader finds out: it is too short for the header of 64 bytes; it does not start with
  the magic number; it is not of the 64-bit class; its type is not that of an executable; or it lists no program headers.
\<close>

definition reject_reason :: "u8 list \<Rightarrow> string option" where
  "reject_reason content =
     (if length content < 64 then Some ''ERROR: Failed to read ELF header\<newline>''
      else if take 4 content \<noteq> [0x7F, 0x45, 0x4C, 0x46] then Some ''ERROR: Invalid ELF magic numbers\<newline>''
      else if content ! 4 \<noteq> 2 then Some ''ERROR: Not a 64-bit ELF file\<newline>''
      else if \<not> (content ! 16 = 2 \<and> content ! 17 = 0) then Some ''ERROR: Not an executable ELF file\<newline>''
      else if content ! 56 = 0 \<and> content ! 57 = 0 then Some ''ERROR: No program headers\<newline>'' else None)"

lemma le16_bytes: "le16 bs i = w \<longleftrightarrow> bs ! i = ucast w \<and> bs ! (i + 1) = ucast (drop_bit 8 w)"
proof -
  have high: "\<not> bit a (8 + n)" for a :: u8 and n using bit_imp_le_length [of a "8 + n"] by auto
  have "ucast (ucast a OR push_bit 8 (ucast b) :: u16) = a" "ucast (drop_bit 8 (ucast a OR push_bit 8 (ucast b) :: u16)) = b" for a b :: u8
    by (auto intro!: bit_word_eqI simp: bit_simps high)
  moreover have "w = ucast (ucast w :: u8) OR push_bit 8 (ucast (ucast (drop_bit 8 w) :: u8))"
    by (auto intro!: bit_word_eqI simp: bit_simps)
  ultimately show ?thesis unfolding le16_def by metis
qed

lemma header_checks:
  assumes "64 \<le> length content"
  shows "(case header_error (ehdr_of_bytes (take 64 content)) of
      Some msg \<Rightarrow> Some msg
    | None \<Rightarrow> if e_phnum (ehdr_of_bytes (take 64 content)) = 0 then Some ''ERROR: No program headers\<newline>'' else None) = reject_reason content"
proof -
  let ?eh = "ehdr_of_bytes (take 64 content)"
  have "take 4 content = [content ! 0, content ! 1, content ! 2, content ! 3]"
    using assms by (intro nth_equalityI) (auto simp: less_Suc_eq numeral_eq_Suc)
  then have magic: "take 4 content = [0x7F, 0x45, 0x4C, 0x46] \<longleftrightarrow>
      e_ident ?eh ! 0 = 0x7F \<and> e_ident ?eh ! 1 = 0x45 \<and> e_ident ?eh ! 2 = 0x4C \<and> e_ident ?eh ! 3 = 0x46"
    by (simp add: ehdr_of_bytes_def)
  have "e_ident ?eh ! 4 = content ! 4" "e_type ?eh = ET_EXEC \<longleftrightarrow> content ! 16 = 2 \<and> content ! 17 = 0"
    "e_phnum ?eh = 0 \<longleftrightarrow> content ! 56 = 0 \<and> content ! 57 = 0"
    using assms by (simp_all add: ehdr_of_bytes_def le16_bytes)
  then show ?thesis unfolding header_error_def reject_reason_def magic using assms by simp
qed

lemma header_only_headers_missing:
  assumes "64 \<le> length content"
  shows "header_error (ehdr_of_bytes (take 64 content)) = Some msg \<Longrightarrow> msg \<noteq> ''ERROR: No program headers\<newline>''"
  by (auto simp: header_error_def split: if_splits)

text \<open>A read that asks for more bytes than the file has left fails or reports another number of bytes; it too leaves memory alone.\<close>

definition reads_short ::
    "('f, 'a kmem_scheme) vfs \<Rightarrow> u8 list \<Rightarrow> ('f \<Rightarrow> nat) \<Rightarrow> ('f \<Rightarrow> bool) \<Rightarrow> ('a kmem_scheme \<Rightarrow> bool) \<Rightarrow> bool" where
  "reads_short V content pos opened steady \<longleftrightarrow>
     (\<forall>f n s. steady s \<longrightarrow> opened f \<longrightarrow> n \<noteq> 0 \<longrightarrow> length content < pos f + unat n \<longrightarrow>
        (\<exists>r got bs f' t. vfs_read V f n s = ret (r, got, bs, f', t) \<and> (r = 0 \<or> got \<noteq> n) \<and> mem_kept s t \<and> opened f' \<and> steady t))"

lemma memory_file_short: "reads_short (memory_file content) content (\<lambda>f. f) (\<lambda>_. True) (\<lambda>_. True)"
proof -
  have "of_nat (length (take (unat n) (drop f content))) \<noteq> n" if "length content < f + unat n" "n \<noteq> 0" for f and n :: u32
  proof
    let ?k = "length (take (unat n) (drop f content))"
    assume "of_nat ?k = n"
    moreover have "unat n \<noteq> 0" using that(2) by (simp add: unat_eq_zero)
    then have "?k < unat n" unfolding length_take length_drop using that(1) by linarith
    moreover have "unat (of_nat ?k :: u32) \<le> ?k" unfolding unat_of_nat by (rule mod_less_eq_dividend)
    ultimately show False by (simp only: leD)
  qed
  then show ?thesis by (auto simp: reads_short_def memory_file_def mem_kept_def Let_def simp del: length_take)
qed

text \<open>
  C37. Rejected files. When the bytes of a file speak against loading it, because it is shorter than an ELF header, has not the magic number, is not a
  64-bit file, is not an executable or lists no program headers, \<open>elf_load\<close> turns it down: it prints the message for the first of these reasons,
  closes the file and returns 0, with memory, heap and page tables untouched. The process is untouched too, except that its entry point has
  already been replaced if only the program headers are missing.
\<close>

theorem elf_load_rejects:
  assumes V: "serves V name content pos opened steady K" "reads_short V content pos opened steady" "steady s"
    and bad: "reject_reason content = Some msg"
  shows "\<exists>f s1 t. vfs_close V f (kprint msg s1) = ret t \<and> opened f \<and> mem_kept s t \<and>
    elf_load V frame name proc s = ret (0, if msg = ''ERROR: No program headers\<newline>'' then proc\<lparr>p_entry := le64 content 24\<rparr> else proc, t)"
proof -
  let ?s0 = "kprint ''\<newline>'' (kprint name (kprint ''Loading ELF executable: '' s))" and ?eh = "ehdr_of_bytes (take 64 content)"
  let ?proc = "if msg = ''ERROR: No program headers\<newline>'' then proc\<lparr>p_entry := le64 content 24\<rparr> else proc"
  have close: ?thesis if c: "mem_kept s s2" "opened f2" "steady s2" "elf_load V frame name proc s = give_up V msg f2 ?proc s2" for f2 s2
  proof -
    obtain t where t: "vfs_close V f2 (kprint msg s2) = ret t" "mem_kept (kprint msg s2) t"
      using serves_close [OF V(1) serves_calm [OF V(1) c(3) calm_intros(1)] c(2)] by blast
    then show ?thesis using mem_kept_trans [OF c(1) mem_kept_trans [OF mem_kept_kprint t(2)]] c(2,4) by (auto simp: give_up_def)
  qed
  show ?thesis
  proof (cases "64 \<le> length content")
    case True
    obtain r1 f1 s1 r2 f2 s2 where rd: "vfs_open V name VFS_MODE_READ ?s0 = ret (r1, f1, s1)" "r1 \<noteq> 0"
      "vfs_read V f1 64 s1 = ret (r2, 64, take 64 content, f2, s2)" "r2 \<noteq> 0" "mem_kept s s2" "opened f2" "steady s2"
      by (rule elf_header_read [OF V(1,3) True])
    have entry: "e_entry ?eh = le64 content 24" using True by (simp add: ehdr_of_bytes_def le64_def le32_def le16_def)
    have "elf_load V frame name proc s = give_up V msg f2 ?proc s2"
    proof (cases "header_error ?eh")
      case None
      then show ?thesis using rd(1-4) bad header_checks [OF True] entry by (auto simp: elf_load_def Let_def split: if_splits)
    next
      case (Some m)
      then show ?thesis using rd(1-4) bad header_checks [OF True] header_only_headers_missing [OF True Some] by (auto simp: elf_load_def Let_def)
    qed
    with rd(5-7) show ?thesis by (rule close)
  next
    case False
    have i0: "steady ?s0" by (intro serves_calm [OF V(1) _ calm_intros(1)]) (rule V(3))
    obtain r1 f1 s1 where op: "vfs_open V name VFS_MODE_READ ?s0 = ret (r1, f1, s1)" "r1 \<noteq> 0" "pos f1 = 0" "mem_kept ?s0 s1" "opened f1" "steady s1"
      using serves_open [OF V(1) i0] by blast
    obtain r2 got bs f2 s2 where rd: "vfs_read V f1 64 s1 = ret (r2, got, bs, f2, s2)" "r2 = 0 \<or> got \<noteq> 64" "mem_kept s1 s2" "opened f2" "steady s2"
      using V(2) [unfolded reads_short_def, rule_format, OF op(6,5), of 64] op(3) False by auto
    have "mem_kept s s2" using op(4) rd(3) by (simp add: mem_kept_def)
    moreover have "elf_load V frame name proc s = give_up V msg f2 ?proc s2"
      using op(1,2) rd(1,2) bad False by (auto simp: elf_load_def Let_def reject_reason_def)
    ultimately show ?thesis using rd(4,5) close by blast
  qed
qed

text \<open>An executable for 32-bit machines, and the first half of a header.\<close>

theorem elf_load_rejects_witness:
  "\<exists>t u. elf_load (memory_file (sample_program[4 := 1])) (\<lambda>_. 0) ''/init'' blank_process elf_machine = ret (0, blank_process, t) \<and> mem_kept elf_machine t \<and>
    reject_reason (sample_program[4 := 1]) = Some ''ERROR: Not a 64-bit ELF file\<newline>'' \<and>
    elf_load (memory_file (take 32 sample_program)) (\<lambda>_. 0) ''/init'' blank_process elf_machine = ret (0, blank_process, u) \<and> mem_kept elf_machine u"
proof -
  have r: "reject_reason (sample_program[4 := 1]) = Some ''ERROR: Not a 64-bit ELF file\<newline>''"
    "reject_reason (take 32 sample_program) = Some ''ERROR: Failed to read ELF header\<newline>''"
    by (simp_all add: reject_reason_def sample_program_def)
  show ?thesis
    using elf_load_rejects [OF memory_file_serves memory_file_short TrueI r(1), of elf_machine "\<lambda>_. 0" "''/init''" blank_process]
      elf_load_rejects [OF memory_file_serves memory_file_short TrueI r(2), of elf_machine "\<lambda>_. 0" "''/init''" blank_process] r(1)
    by auto
qed

end
