(* ===== verification/Vfs.thy ===== *)
theory Vfs
  imports Elf_Load
begin

text \<open>
  The table of operations a file system gives to the virtual file system (\<open>kernel/fs/vfs.h\<close>), the table of the FAT driver
  (\<open>kernel/fs/fat.c\<close>), and the ELF loader on top of it. The functions \<open>vfs_open\<close>, \<open>vfs_read\<close>, \<open>vfs_seek\<close> and \<open>vfs_close\<close> have no
  definition in the sources; the hypothesis \<open>dispatches\<close> says that they call the entries of the table.
\<close>

section \<open>The table of operations\<close>

text \<open>
  A pointer in the table may be null. Structures that are passed by pointer are arguments and results; a file comes
  with the structures its members \<open>filesystem\<close> and \<open>private_data\<close> point to.
\<close>

record ('fs, 'f, 's) vfs_filesystem_ops =
  op_mount :: "('fs \<Rightarrow> 's \<Rightarrow> (int \<times> 'fs \<times> 's) run) option"
  op_unmount :: "('fs \<Rightarrow> 's \<Rightarrow> (int \<times> 'fs \<times> 's) run) option"
  op_open :: "('f \<Rightarrow> u8 list \<Rightarrow> u32 \<Rightarrow> 's \<Rightarrow> (int \<times> 'f \<times> 's) run) option"
  op_close :: "('f \<Rightarrow> 's \<Rightarrow> (int \<times> 's) run) option"
  op_read :: "('f \<Rightarrow> u32 \<Rightarrow> 's \<Rightarrow> (int \<times> u32 \<times> u8 list \<times> 'f \<times> 's) run) option"
  op_write :: "('f \<Rightarrow> u8 list \<Rightarrow> u32 \<Rightarrow> 's \<Rightarrow> (int \<times> u32 \<times> 's) run) option"
  op_seek :: "('f \<Rightarrow> int \<Rightarrow> int \<Rightarrow> 's \<Rightarrow> (int \<times> 'f \<times> 's) run) option"
  op_tell :: "('f \<Rightarrow> 's \<Rightarrow> (int \<times> u32 \<times> 's) run) option"
  op_truncate :: "('f \<Rightarrow> u32 \<Rightarrow> 's \<Rightarrow> (int \<times> 'f \<times> 's) run) option"
  op_mkdir :: "(u8 list \<Rightarrow> 's \<Rightarrow> (int \<times> 's) run) option"
  op_rmdir :: "(u8 list \<Rightarrow> 's \<Rightarrow> (int \<times> 's) run) option"
  op_readdir :: "('f \<Rightarrow> u32 \<Rightarrow> 's \<Rightarrow> (u64 \<times> 's) run) option"
  op_opendir :: "('f \<Rightarrow> u8 list \<Rightarrow> 's \<Rightarrow> (int \<times> 'f \<times> 's) run) option"
  op_closedir :: "('f \<Rightarrow> 's \<Rightarrow> (int \<times> 's) run) option"
  op_stat :: "(u8 list \<Rightarrow> 's \<Rightarrow> (int \<times> 's) run) option"
  op_unlink :: "(u8 list \<Rightarrow> 's \<Rightarrow> (int \<times> 's) run) option"
  op_rename :: "(u8 list \<Rightarrow> u8 list \<Rightarrow> 's \<Rightarrow> (int \<times> 's) run) option"

record open_file =
  of_fs :: fat_filesystem
  of_vf :: vfs_file
  of_ff :: fat_file

text \<open>
  The table of the FAT driver; members without an initialiser are null. \<open>buf\<close> is what the stack holds where the driver has its cluster
  buffers.
\<close>

definition fat_ops :: "u8 list \<Rightarrow> (fat_filesystem, open_file, 'a kata_scheme) vfs_filesystem_ops" where
  "fat_ops buf =
     \<lparr>op_mount = Some fat_mount,
      op_unmount = Some (\<lambda>fs s. total_run (fat_unmount fs s)),
      op_open = Some (\<lambda>f path flags s.
        run_bind (fat_open (of_fs f) (of_vf f) (of_ff f) path flags buf s) (\<lambda>(r, vf, ff, s1). ret (r, f\<lparr>of_vf := vf, of_ff := ff\<rparr>, s1))),
      op_close = Some (\<lambda>f s. ret (fat_close (of_vf f), s)),
      op_read = Some (\<lambda>f n s.
        run_bind (fat_read (of_fs f) (of_vf f) (of_ff f) n buf s) (\<lambda>(r, k, bs, vf, ff, s1). ret (r, k, bs, f\<lparr>of_vf := vf, of_ff := ff\<rparr>, s1))),
      op_write = Some (\<lambda>f bs n s. case fat_write (of_vf f) bs n of (r, k) \<Rightarrow> ret (r, k, s)),
      op_seek = Some (\<lambda>f offset whence s. case fat_seek (of_vf f) offset whence of (r, vf) \<Rightarrow> ret (r, f\<lparr>of_vf := vf\<rparr>, s)),
      op_tell = Some (\<lambda>f s. case fat_tell (of_vf f) of (r, p) \<Rightarrow> ret (r, p, s)),
      op_truncate = None, op_mkdir = None, op_rmdir = None,
      op_readdir = Some (\<lambda>f index s. ret (fat_readdir (of_vf f) index, s)),
      op_opendir = Some (\<lambda>f path s.
        case fat_opendir (of_fs f) (of_vf f) path of Inl e \<Rightarrow> Some (Inl e) | Inr (r, vf) \<Rightarrow> ret (r, f\<lparr>of_vf := vf\<rparr>, s)),
      op_closedir = None,
      op_stat = Some (\<lambda>path s. ret (fat_stat path, s)),
      op_unlink = None, op_rename = None\<rparr>"

text \<open>
  The virtual file system forwards the calls on a file to the file system it belongs to. \<open>vfs_open\<close> starts from the
  structure \<open>f0\<close>, which it sets up for the mounted file system.
\<close>

definition dispatches :: "('f, 's) vfs \<Rightarrow> ('fs, 'f, 's) vfs_filesystem_ops \<Rightarrow> 'f \<Rightarrow> bool" where
  "dispatches V ops f0 \<longleftrightarrow>
     (\<forall>g. op_open ops = Some g \<longrightarrow> (\<forall>name flags s. vfs_open V name flags s = g f0 (map of_char name) flags s)) \<and>
     (\<forall>g. op_read ops = Some g \<longrightarrow> (\<forall>f n s. vfs_read V f n s = g f n s)) \<and>
     (\<forall>g. op_seek ops = Some g \<longrightarrow> (\<forall>f offset whence s. vfs_seek V f offset whence s = g f offset whence s)) \<and>
     (\<forall>g. op_close ops = Some g \<longrightarrow> (\<forall>f s. vfs_close V f s = run_bind (g f s) (\<lambda>(r, s1). ret s1)))"

section \<open>A file in one cluster\<close>

text \<open>The entry of a cluster in the cached table depends on four bytes of the cache.\<close>

lemma read_fat_entry_agree:
  assumes "fat_type fs = FAT_TYPE_FAT32" "agree {unat (fat fs)..<unat (fat fs) + n} m m'" "4 * unat c + 4 \<le> n" "unat (fat fs) + n \<le> 2 ^ 64"
  shows "read_fat_entry fs m' c = read_fat_entry fs m c"
proof -
  have "rd_le 4 (fat fs + 4 * ucast c) m = rd_le 4 (fat fs + 4 * ucast c) m'"
  proof (rule rd_le_cong)
    fix i :: nat assume i: "i < 4"
    let ?k = "4 * unat c + i"
    have "unat (of_nat ?k :: u64) = ?k" using i assms(3,4) by (intro unat_of_nat_small) simp
    then have "unat (fat fs + of_nat ?k) = unat (fat fs) + ?k" using i assms(3,4) by (subst unat_add_small) (simp_all only:, simp)
    moreover have "fat fs + of_nat ?k = fat fs + 4 * ucast c + of_nat i" by (simp add: add.assoc unat_ucast_widen(3) [symmetric] del: unat_ucast_widen)
    ultimately show "m (fat fs + 4 * ucast c + of_nat i) = m' (fat fs + 4 * ucast c + of_nat i)"
      using assms(2,3) i by (simp add: agree_def add.assoc)
  qed
  then show ?thesis using assms(1) by (simp add: read_fat_entry_def rd32_def)
qed

lemma chained_agree:
  assumes "\<And>c. c \<in> set cs \<Longrightarrow> read_fat_entry fs m' c = read_fat_entry fs m c"
  shows "chained fs m' cs = chained fs m cs"
  using assms by (induction fs m cs rule: chained.induct) auto

text \<open>
  What the loader finds on the disk: the directory entry \<open>d\<close> of the file, whose only cluster is \<open>c\<close>, by way of the cached table of
  \<open>n\<close> bytes.
\<close>

definition first_of :: "fat_dirent \<Rightarrow> u32" where
  "first_of d = push_bit 16 (ucast (fst_clus_hi d)) OR ucast (fst_clus_lo d)"

definition on_volume :: "(io_op list \<Rightarrow> bool) \<Rightarrow> ata \<Rightarrow> (u32 \<Rightarrow> u8 list) \<Rightarrow> fat_filesystem \<Rightarrow> u32 list \<Rightarrow> u32 \<Rightarrow> 'a kata_scheme \<Rightarrow> bool" where
  "on_volume busy d0 disk fs cs c s \<longleftrightarrow> disk_ready busy d0 s \<and> disk_of d0 s = disk \<and> dir_chain fs (heap_mem s) (root_cluster fs # cs) \<and>
     0x0FFFFFF8 \<le> read_fat_entry fs (heap_mem s) c"

definition opened_at :: "fat_filesystem \<Rightarrow> u32 \<Rightarrow> u32 \<Rightarrow> open_file \<Rightarrow> bool" where
  "opened_at fs c len f \<longleftrightarrow> of_fs f = fs \<and> current_cluster (of_ff f) = c \<and> f_size (of_vf f) = len \<and> f_position (of_vf f) \<le> len"

lemma on_volume_calm:
  assumes fs: "fat_type fs = FAT_TYPE_FAT32" and n: "unat (fat fs) + n \<le> 2 ^ 64" "\<forall>x\<in>set (root_cluster fs # c # cs). 4 * unat x + 4 \<le> n"
    and s: "on_volume busy d0 disk fs cs c s" "calm {unat (fat fs)..<unat (fat fs) + n} s t"
  shows "on_volume busy d0 disk fs cs c t"
proof -
  have same: "read_fat_entry fs (heap_mem t) x = read_fat_entry fs (heap_mem s) x" if "x \<in> set (root_cluster fs # c # cs)" for x
    using s(2) n that by (intro read_fat_entry_agree [OF fs]) (auto simp: calm_def)
  then have "chained fs (heap_mem t) (root_cluster fs # cs) = chained fs (heap_mem s) (root_cluster fs # cs)" by (intro chained_agree) auto
  moreover have "last (root_cluster fs # cs) \<in> set (root_cluster fs # cs)" by (rule last_in_set) simp
  then have "read_fat_entry fs (heap_mem t) (last (root_cluster fs # cs)) = read_fat_entry fs (heap_mem s) (last (root_cluster fs # cs))"
    by (intro same) auto
  ultimately show ?thesis
    using s quiet_disk [of s t] same [of c] unfolding on_volume_def dir_chain_def calm_def by simp
qed

lemma on_volume_step: "on_volume busy d0 disk fs cs c s \<Longrightarrow> disk_step busy d0 s t \<Longrightarrow> on_volume busy d0 disk fs cs c t \<and> mem_kept s t"
  using disk_stepD [of busy d0 s t] by (auto simp: on_volume_def mem_kept_def logged_def with_log_def)


text \<open>Reading inside the cluster leaves the file where it is, because the table marks the cluster as the last one.\<close>

lemma fat_read_in_cluster:
  assumes d: "disk_ready busy d0 s" and fs: "fat_ok fs" and buf: "length buf = 4096"
    and last: "0x0FFFFFF8 \<le> read_fat_entry fs (heap_mem s) (current_cluster ff)"
    and size: "unat (f_size vf) \<le> unat (cluster_size fs)" "unat (f_position vf) + unat k \<le> unat (f_size vf)"
    and content: "content = take (unat (f_size vf)) (cluster_bytes fs (disk_of d0 s) (current_cluster ff))"
  shows "\<exists>t. fat_read fs vf ff k buf s = Some (Inr (1, k, take (unat k) (drop (unat (f_position vf)) content),
      vf\<lparr>f_position := f_position vf + k\<rparr>, ff, t)) \<and> disk_step busy d0 s t"
proof (cases "k = 0")
  case True
  then show ?thesis using disk_step_refl [OF d] by (subst fat_read_def, subst fat_read_loop.simps) simp
next
  case False
  then have k: "0 < k" by (simp add: word_gt_0)
  have pos: "unat (f_position vf) mod unat (cluster_size fs) = unat (f_position vf)" using size k by (simp add: word_less_nat_alt)
  then have fits: "unat (f_position vf) mod unat (cluster_size fs) + unat k \<le> unat (cluster_size fs)" using size by simp
  have "segment (unat (f_position vf)) (unat k) (cluster_bytes fs (disk_of d0 s) (current_cluster ff)) =
      take (unat k) (drop (unat (f_position vf)) content)"
    using size(2) unfolding content segment_def by (simp add: drop_take min_def)
  then show ?thesis using read_one_round [OF d fs buf size(2) k fits refl, of ff] last unfolding pos by (auto simp: not_le [symmetric])
qed

text \<open>The four calls of the loader, as they arrive at the driver.\<close>

lemma dispatched:
  assumes "dispatches V (fat_ops buf) f0"
  shows "vfs_open V name flags s = run_bind (fat_open (of_fs f0) (of_vf f0) (of_ff f0) (map of_char name) flags buf s)
      (\<lambda>(r, vf, ff, s1). ret (r, f0\<lparr>of_vf := vf, of_ff := ff\<rparr>, s1))"
    "vfs_read V f k s = run_bind (fat_read (of_fs f) (of_vf f) (of_ff f) k buf s)
      (\<lambda>(r, n, bs, vf, ff, s1). ret (r, n, bs, f\<lparr>of_vf := vf, of_ff := ff\<rparr>, s1))"
    "vfs_seek V f offset whence s = (case fat_seek (of_vf f) offset whence of (r, vf) \<Rightarrow> ret (r, f\<lparr>of_vf := vf\<rparr>, s))"
    "vfs_close V f s = ret s"
  using assms by (simp_all add: dispatches_def fat_ops_def)

lemma fat_vfs_open:
  assumes V: "dispatches V (fat_ops buf) f0" "of_fs f0 = fs" "f_position (of_vf f0) = 0" and buf: "length buf = 4096"
    and fs: "fat_ok fs" "fat_type fs = FAT_TYPE_FAT32" and name: "length name < 256"
    and d: "dir_find (fat_name (map of_char name)) (concat (map (cluster_entries fs disk) (root_cluster fs # cs))) = Some d" "c = first_of d"
    and s: "on_volume busy d0 disk fs cs c s"
  obtains f t where "vfs_open V name VFS_MODE_READ s = ret (1, f, t)" "f_position (of_vf f) = 0" "opened_at fs c (d_file_size d) f"
    "disk_step busy d0 s t"
proof -
  have s': "disk_ready busy d0 s" "dir_chain fs (heap_mem s) (root_cluster fs # cs)" "disk_of d0 s = disk" using s by (simp_all add: on_volume_def)
  obtain t where t: "lookup_loop fs (fat_name (map of_char name)) (root_cluster fs) buf s = Some (Inr (Some d, t))" "disk_step busy d0 s t"
    using lookup_loop_finds [OF s'(1) fs(1) buf s'(2), of "fat_name (map of_char name)"] d(1) s'(3) by auto
  have "vfs_open V name VFS_MODE_READ s = ret (1, f0\<lparr>of_vf := (of_vf f0)\<lparr>f_path := map of_char name, f_flags := VFS_MODE_READ,
      f_size := d_file_size d, f_attributes := ucast (d_attr d)\<rparr>, of_ff := (of_ff f0)\<lparr>first_cluster := c, current_cluster := c, cluster_offset := 0\<rparr>\<rparr>, t)"
    using t(1) fs(2) name V(2) d(2)
    by (simp add: dispatched [OF V(1)] fat_open_def lookup_file_in_dir_def Let_def first_of_def)
  then show thesis by (rule that) (simp_all add: opened_at_def t(2) V)
qed

lemma fat_vfs_read:
  assumes V: "dispatches V (fat_ops buf) f0" and buf: "length buf = 4096" and fs: "fat_ok fs"
    and size: "unat len \<le> unat (cluster_size fs)" "content = take (unat len) (cluster_bytes fs disk c)"
    and s: "on_volume busy d0 disk fs cs c s" and f: "opened_at fs c len f" and k: "unat (f_position (of_vf f)) + unat k \<le> unat len"
  obtains f' t where "vfs_read V f k s = ret (1, k, take (unat k) (drop (unat (f_position (of_vf f))) content), f', t)"
    "unat (f_position (of_vf f')) = unat (f_position (of_vf f)) + unat k" "opened_at fs c len f'" "disk_step busy d0 s t"
proof -
  let ?vf = "(of_vf f)\<lparr>f_position := f_position (of_vf f) + k\<rparr>"
  have f': "of_fs f = fs" "f_size (of_vf f) = len" "current_cluster (of_ff f) = c" using f by (simp_all add: opened_at_def)
  have s': "disk_ready busy d0 s" "0x0FFFFFF8 \<le> read_fat_entry fs (heap_mem s) (current_cluster (of_ff f))" "disk_of d0 s = disk"
    using s f' by (simp_all add: on_volume_def)
  have "unat (f_size (of_vf f)) \<le> unat (cluster_size fs)" "unat (f_position (of_vf f)) + unat k \<le> unat (f_size (of_vf f))"
    "content = take (unat (f_size (of_vf f))) (cluster_bytes fs (disk_of d0 s) (current_cluster (of_ff f)))"
    using size k f' s'(3) by simp_all
  from fat_read_in_cluster [OF s'(1) fs buf s'(2) this]
  obtain t where t: "fat_read fs (of_vf f) (of_ff f) k buf s = Some (Inr (1, k, take (unat k) (drop (unat (f_position (of_vf f))) content), ?vf, of_ff f, t))"
    "disk_step busy d0 s t" by blast
  have p: "unat (f_position (of_vf f) + k) = unat (f_position (of_vf f)) + unat k"
    using k unsigned_less [of len, where 'a = nat] by (intro unat_add_small) simp
  have "vfs_read V f k s = ret (1, k, take (unat k) (drop (unat (f_position (of_vf f))) content), f\<lparr>of_vf := ?vf, of_ff := of_ff f\<rparr>, t)"
    using t(1) by (simp add: dispatched [OF V] f')
  then show thesis by (rule that) (simp_all add: p t(2) f' k opened_at_def word_le_nat_alt)
qed

lemma fat_vfs_seek:
  assumes V: "dispatches V (fat_ops buf) f0" and f: "opened_at fs c len f" and i: "i \<le> unat len"
  obtains f' where "vfs_seek V f (int i) 0 s = ret (1, f', s)" "unat (f_position (of_vf f')) = i" "opened_at fs c len f'"
proof -
  have "int i \<le> uint len" unfolding uint_nat using i by (simp only: of_nat_le_iff)
  then have "int i \<le> uint (f_size (of_vf f))" using f by (simp only: opened_at_def)
  then have seek: "vfs_seek V f (int i) 0 s = ret (1, f\<lparr>of_vf := (of_vf f)\<lparr>f_position := of_nat i\<rparr>\<rparr>, s)"
    by (simp add: dispatched [OF V] seek_set)
  have u: "unat (of_nat i :: u32) = i" using i unsigned_less [of len, where 'a = nat] by (intro unat_of_nat_small) simp
  show thesis by (rule that [OF seek]) (use f i in \<open>simp_all add: opened_at_def word_le_nat_alt u\<close>)
qed

text \<open>So the driver serves a file that lies in one cluster, as the loader needs it.\<close>

lemma fat_serves:
  fixes V :: "(open_file, 'a kata_scheme) vfs"
  assumes V: "dispatches V (fat_ops buf) f0" "of_fs f0 = fs" "f_position (of_vf f0) = 0" and buf: "length buf = 4096"
    and fs: "fat_ok fs" "fat_type fs = FAT_TYPE_FAT32" and name: "length name < 256"
    and n: "unat (fat fs) + n \<le> 2 ^ 64" "\<forall>x\<in>set (root_cluster fs # c # cs). 4 * unat x + 4 \<le> n"
    and d: "dir_find (fat_name (map of_char name)) (concat (map (cluster_entries fs disk) (root_cluster fs # cs))) = Some d" "c = first_of d"
    and size: "unat (d_file_size d) \<le> unat (cluster_size fs)" "length (cluster_bytes fs disk c) = unat (cluster_size fs)"
    and content: "content = take (unat (d_file_size d)) (cluster_bytes fs disk c)"
  shows "serves V name content (\<lambda>f. unat (f_position (of_vf f))) (opened_at fs c (d_file_size d)) (on_volume busy d0 disk fs cs c)
    {unat (fat fs)..<unat (fat fs) + n}"
proof -
  let ?ready = "on_volume busy d0 disk fs cs c" and ?opened = "opened_at fs c (d_file_size d)" and ?pos = "\<lambda>f. unat (f_position (of_vf f))"
  note step = on_volume_step [of busy d0 disk fs cs c]
  have len: "length content = unat (d_file_size d)" unfolding content using size by simp
  have "\<exists>r f t. vfs_open V name VFS_MODE_READ s = ret (r, f, t) \<and> r \<noteq> 0 \<and> ?pos f = 0 \<and> mem_kept s t \<and> ?opened f \<and> ?ready t" if s: "?ready s" for s
  proof -
    obtain f t where "vfs_open V name VFS_MODE_READ s = ret (1, f, t)" "f_position (of_vf f) = 0" "?opened f" "disk_step busy d0 s t"
      by (rule fat_vfs_open [OF V buf fs name d s])
    then show ?thesis using step [OF s] by (intro exI [of _ 1] exI [of _ f] exI [of _ t]) simp
  qed
  moreover have "\<exists>r f' t. vfs_read V f k s = ret (r, k, take (unat k) (drop (?pos f) content), f', t) \<and> r \<noteq> 0 \<and>
      ?pos f' = ?pos f + unat k \<and> mem_kept s t \<and> ?opened f' \<and> ?ready t"
    if s: "?ready s" and f: "?opened f" and k: "?pos f + unat k \<le> length content" for f k s
  proof -
    obtain f' t where "vfs_read V f k s = ret (1, k, take (unat k) (drop (?pos f) content), f', t)" "?pos f' = ?pos f + unat k" "?opened f'"
      "disk_step busy d0 s t"
      by (rule fat_vfs_read [OF V(1) buf fs(1) size(1) content s f k [unfolded len]])
    then show ?thesis using step [OF s] by (intro exI [of _ 1] exI [of _ f'] exI [of _ t]) simp
  qed
  moreover have "\<exists>r f' t. vfs_seek V f (int i) 0 s = ret (r, f', t) \<and> r \<noteq> 0 \<and> ?pos f' = i \<and> mem_kept s t \<and> ?opened f' \<and> ?ready t"
    if s: "?ready s" and f: "?opened f" and i: "i \<le> length content" for f i s
    by (rule fat_vfs_seek [OF V(1) f i [unfolded len], of s]) (use s in force)
  moreover have "\<exists>t. vfs_close V f s = ret t \<and> mem_kept s t \<and> ?ready t" if "?ready s" for f s
    using that by (simp add: dispatched [OF V(1)])
  moreover note on_volume_calm [OF fs(2) n]
  ultimately show ?thesis unfolding serves_def by (intro conjI allI impI) blast+
qed

section \<open>Programs\<close>

text \<open>The program headers of the segments to be loaded, and that a program fits into the machine.\<close>

definition elf_headers :: "u8 list \<Rightarrow> nat \<Rightarrow> elf64_phdr" where
  "elf_headers content i = file_phdr content (unat (e_phoff (ehdr_of_bytes (take 64 content))) + 56 * i)"

definition elf_segments :: "u8 list \<Rightarrow> elf64_phdr list" where
  "elf_segments content = filter (\<lambda>ph. p_type ph = PT_LOAD) (map (elf_headers content) [0..<unat (e_phnum (ehdr_of_bytes (take 64 content)))])"

definition program_fits :: "u8 list \<Rightarrow> nat \<Rightarrow> blocks \<Rightarrow> mm \<Rightarrow> bool" where
  "program_fits content lim bs v \<longleftrightarrow>
     (let eh = ehdr_of_bytes (take 64 content); n = unat (e_phnum eh); pages = pages_total (elf_headers content) [0..<n]
      in 64 \<le> length content \<and> header_error eh = None \<and> e_phnum eh \<noteq> 0 \<and> e_phentsize eh = 56 \<and>
         unat (e_phoff eh) + 56 * n \<le> length content \<and> segs_ok content lim (56 * n + 64) bs (elf_headers content) [0..<n] \<and>
         (\<exists>b\<in>set bs. fits (56 * n) b) \<and> frames_left pages v \<and> used v + 3 * 4096 * pages \<le> 65536)"

lemma elf_segments_set:
  "set (elf_segments content) = elf_headers content ` set (loadable (elf_headers content) [0..<unat (e_phnum (ehdr_of_bytes (take 64 content)))])"
  by (auto simp: elf_segments_def)

lemma segs_below_heap:
  assumes "segs_ok content lim extra bs hd_of is" "lim \<le> 2 ^ 48" "lim \<le> A"
  shows "alloc_bytes A bs \<subseteq> kept_bytes A bs - segs_bytes hd_of is"
proof -
  have "seg_hi (hd_of i) \<le> A" if "i \<in> set (loadable hd_of is)" for i
  proof -
    have "seg_ok content lim (hd_of i)" using assms(1) that by (simp add: segs_ok_def del: loadable_simps(4))
    then show ?thesis using seg_ok_range(3) [of content lim "hd_of i"] assms(2,3) by simp
  qed
  then have "alloc_bytes A bs \<inter> segs_bytes hd_of is = {}"
    using alloc_bytes_range [of A bs] by (fastforce simp: segs_bytes_def simp del: loadable_simps(4))
  then show ?thesis by (auto simp: kept_bytes_def)
qed

section \<open>Properties\<close>

text \<open>
  C19. From the disk into memory. When the virtual file system forwards its calls to the FAT driver's table of operations, the root
  directory of a mounted FAT32 volume has an entry for the name, and the file lies in one cluster, \<open>elf_load\<close> brings the program
  that is on the disk into memory: the bytes of every loadable segment are those of the sectors of the file, its pages are mapped with their
  permissions, the entry point is that of the file. ATA driver, FAT driver, heap, page tables and loader work together here: every byte of the
  cached table of the driver is as before in its heap block although the loader has used the heap, and the disk is as before and ready.
\<close>

theorem elf_load_from_fat:
  fixes s :: "'a kata_scheme"
  assumes V: "dispatches V (fat_ops buf) f0" "of_fs f0 = fs" "f_position (of_vf f0) = 0" and buf: "length buf = 4096"
    and disk: "disk_ready busy d0 s" and fs: "fat_ok fs" "fat_type fs = FAT_TYPE_FAT32"
    and cache: "(unat (fat fs), n) \<in> live (heap_base s) bs" "\<forall>x\<in>set (root_cluster fs # first_of d # cs). 4 * unat x + 4 \<le> n"
    and dir: "dir_chain fs (heap_mem s) (root_cluster fs # cs)" "length name < 256"
      "dir_find (fat_name (map of_char name)) (concat (map (cluster_entries fs (disk_of d0 s)) (root_cluster fs # cs))) = Some d"
    and entry: "0x0FFFFFF8 \<le> read_fat_entry fs (heap_mem s) (first_of d)" "unat (d_file_size d) \<le> unat (cluster_size fs)"
      "content = take (unat (d_file_size d)) (cluster_bytes fs (disk_of d0 s) (first_of d))"
    and mem: "heap_ok s bs" "pt_ok (vm s)" "lim \<le> 2 ^ 48" "lim \<le> heap_base s" "program_fits content lim bs (vm s)"
  shows "\<exists>t. elf_load V frame name proc s = ret (1, proc\<lparr>p_entry := e_entry (ehdr_of_bytes (take 64 content))\<rparr>, t) \<and>
    heap_ok t bs \<and> pt_ok (vm t) \<and> disk_ready busy d0 t \<and> disk_of d0 t = disk_of d0 s \<and>
    (\<forall>i<n. heap_mem t (fat fs + of_nat i) = heap_mem s (fat fs + of_nat i)) \<and>
    (\<forall>ph\<in>set (elf_segments content). segment_loaded content ph (heap_mem t) \<and> segment_mapped ph (vm t))"
proof -
  let ?eh = "ehdr_of_bytes (take 64 content)" and ?K = "{unat (fat fs)..<unat (fat fs) + n}"
  note p = mem(5) [unfolded program_fits_def Let_def]
  have lenc: "length (cluster_bytes fs (disk_of d0 s) (first_of d)) = unat (cluster_size fs)"
    using cluster_bytes_length [OF disk] fs(1) by (simp add: fat_ok_def)
  have len: "length content < 2 ^ 31" using lenc fat_ok_size(2) [OF fs(1)] unfolding entry(3) by simp
  have bound: "unat (fat fs) + n \<le> 2 ^ 64" using heap_live_bound [OF mem(1) cache(1)] by simp
  have ready: "on_volume busy d0 (disk_of d0 s) fs cs (first_of d) s" using disk dir(1) entry(1) by (simp add: on_volume_def)
  have K: "?K \<subseteq> kept_bytes (heap_base s) bs - segs_bytes (elf_headers content) [0..<unat (e_phnum ?eh)]"
    using alloc_bytes_live [OF cache(1)] segs_below_heap [OF _ mem(3,4)] p by blast
  have hs: "elf_headers content = (\<lambda>i. file_phdr content (unat (e_phoff ?eh) + 56 * i))" by (simp add: elf_headers_def fun_eq_iff)
  obtain t where t: "elf_load V frame name proc s = ret (1, proc\<lparr>p_entry := e_entry ?eh\<rparr>, t)" "heap_ok t bs" "pt_ok (vm t)"
    "on_volume busy d0 (disk_of d0 s) fs cs (first_of d) t"
    "agree (kept_bytes (heap_base s) bs - segs_bytes (elf_headers content) [0..<unat (e_phnum ?eh)]) (heap_mem s) (heap_mem t)"
    "segs_loaded content (elf_headers content) [0..<unat (e_phnum ?eh)] (heap_mem t) (vm t)"
    using elf_load_program [OF fat_serves [OF V buf fs dir(2) bound cache(2) dir(3) refl entry(2) lenc entry(3)] ready len _ refl _ _ _ refl refl _ hs
        mem(3,4,1,2) _ _ _ _ K] p by blast
  have "\<forall>ph\<in>set (elf_segments content). segment_loaded content ph (heap_mem t) \<and> segment_mapped ph (vm t)"
    unfolding elf_segments_set using t(6) by (simp add: segs_loaded_def del: loadable_simps(4))
  moreover have "heap_mem t (fat fs + of_nat i) = heap_mem s (fat fs + of_nat i)" if i: "i < n" for i
  proof -
    have "unat (fat fs + of_nat i) = unat (fat fs) + i"
      using i bound by (subst unat_add_small) (simp_all add: unat_of_nat_small)
    then have "unat (fat fs + of_nat i) \<in> ?K" using i by simp
    then show ?thesis using t(5) K by (auto simp: agree_def)
  qed
  ultimately show ?thesis using t(1-4) by (auto simp: on_volume_def)
qed

text \<open>
  An example: the FAT32 volume of one sector per cluster, with its root directory in cluster 5 and the program in cluster 6, in a
  machine whose heap holds the cached table and one free block.
\<close>

definition program_words :: "u16 list" where
  "program_words =
     [0x457f, 0x464c, 0x102, 1, 0, 0, 0, 0, 2, 0x3e, 1, 0, 0, 0x40, 0, 0,
      0x40, 0, 0, 0, 0, 0, 0, 0, 0, 0, 0x40, 0x38, 1, 0, 0, 0,
      1, 0, 7, 0, 0x78, 0, 0, 0, 0, 0x40, 0, 0, 0, 0, 0, 0,
      3, 0, 0, 0, 8, 0, 0, 0, 0x1000, 0, 0, 0, 0xeb90, 0xfd] @ replicate 194 0"

definition root_words :: "u16 list" where
  "root_words = [0x4E49, 0x5449, 0x2020, 0x2020, 0x2020, 0x2020, 0, 0, 0, 0, 0, 0, 0, 6, 123, 0] @ replicate 240 0"

definition program_drive :: ata where
  "program_drive = sample_drive\<lparr>a_disk := (\<lambda>(drive, lba, _, _). if lba = 5 then root_words else if lba = 6 then program_words else replicate 256 0)\<rparr>"

definition program_fs :: fat_filesystem where
  "program_fs = sample_fs\<lparr>fat := 0x800018\<rparr>"

definition program_blocks :: blocks where
  "program_blocks = [(512, False), (3536, True)]"

definition program_memory :: mem where
  "program_memory = set_block 0x800218 3536 NULL 1 (set_block 0x800000 512 0x800218 0 (\<lambda>_. 0xFF))"

definition program_machine :: kata where
  "program_machine = (sample_ata (ata_env sample_busy program_drive))\<lparr>heap_mem := program_memory, vm := vm elf_machine, heap_first_block := 0x800000\<rparr>"

definition blank_file :: open_file where
  "blank_file = \<lparr>of_fs = program_fs, of_vf = sample_vfs_file, of_ff = sample_fat_file\<rparr>"

definition fat_vfs :: "u8 list \<Rightarrow> open_file \<Rightarrow> (open_file, 'a kata_scheme) vfs" where
  "fat_vfs buf f0 =
     \<lparr>vfs_open = (\<lambda>name flags s. the (op_open (fat_ops buf)) f0 (map of_char name) flags s), vfs_read = the (op_read (fat_ops buf)),
      vfs_seek = the (op_seek (fat_ops buf)), vfs_close = (\<lambda>f s. run_bind (the (op_close (fat_ops buf)) f s) (\<lambda>(r, s1). ret s1))\<rparr>"

lemma fat_vfs_dispatches: "dispatches (fat_vfs buf f0) (fat_ops buf) f0"
  by (simp add: dispatches_def fat_vfs_def)

lemma program_fs_fields:
  "boot program_fs = sample_boot" "cluster_size program_fs = 512" "fat_type program_fs = FAT_TYPE_FAT32" "fat program_fs = 0x800018"
  "root_cluster program_fs = 5" "data_start program_fs = 2" "cluster_count program_fs = 131070" "fat_ok program_fs"
  using sample_fs_fields sample_boot_geometry by (simp_all add: program_fs_def fat_ok_def)

lemma program_heap: "heap_ok program_machine program_blocks" "heap_base program_machine = 0x800000" "heap_mem program_machine = program_memory"
  "vm program_machine = vm elf_machine" "agree {0x800018..<0x800218} (\<lambda>_. 0xFF) program_memory"
proof -
  let ?m1 = "set_block (of_nat 0x800000) 512 0x800218 0 (\<lambda>_. 0xFF)"
  have w1: "hdr ?m1 0x800000 512 0x800218 False" "agree (- {0x800000..<0x800000 + 20}) (\<lambda>_. 0xFF) ?m1"
    using set_block_hdr [where a = "0x800000" and sz = 512 and nx = "0x800218" and fr = 0 and m = "\<lambda>_. 0xFF"] by simp_all
  have w2: "hdr program_memory 0x800218 3536 0 True" "agree (- {0x800218..<0x800218 + 20}) ?m1 program_memory"
    using set_block_hdr [where a = "0x800218" and sz = 3536 and nx = NULL and fr = 1 and m = ?m1] by (simp_all add: program_memory_def)
  have "hdr program_memory 0x800000 512 0x800218 False" by (rule hdr_keep [OF w1(1) w2(2)]) simp_all
  then have seg: "seg program_memory 0x800000 program_blocks 0" using w2(1) by (simp add: program_blocks_def)
  show b: "heap_base program_machine = 0x800000" "heap_mem program_machine = program_memory" "vm program_machine = vm elf_machine"
    using elf_machine_ok(2) by (simp_all add: program_machine_def)
  show "heap_ok program_machine program_blocks" using seg b
    by (simp add: heap_ok_def heap_wf_def) (simp add: program_machine_def program_blocks_def elf_machine_def)
  show "agree {0x800018..<0x800218} (\<lambda>_. 0xFF) program_memory"
    by (rule agree_trans [OF agree_sub [OF w1(2)] agree_sub [OF w2(2)]]) auto
qed

lemma program_entry: "x \<le> 127 \<Longrightarrow> read_fat_entry program_fs program_memory x = 0x0FFFFFFF"
proof -
  assume x: "x \<le> 127"
  have "read_fat_entry program_fs program_memory x = read_fat_entry program_fs (\<lambda>_. 0xFF) x"
    using program_heap(5) x by (intro read_fat_entry_agree [where n = 512]) (simp_all add: program_fs_fields word_le_nat_alt)
  then show ?thesis by (simp add: read_fat_entry_def program_fs_fields rd32_def rd_le_numeral)
qed

lemma program_disk:
  "disk_ready sample_busy program_drive program_machine"
  "disk_of program_drive program_machine 5 = sector_bytes root_words" "disk_of program_drive program_machine 6 = sector_bytes program_words"
proof -
  have io: "io program_machine = io (sample_ata (ata_env sample_busy program_drive))" by (simp add: program_machine_def)
  have l: "length root_words = 256" "length program_words = 256" by (simp_all add: root_words_def program_words_def)
  then show "disk_ready sample_busy program_drive program_machine"
    by (auto simp: disk_ready_def ata_present_def io sample_settles sample_ata_io ata_env_def ata_dev_def status_byte program_drive_def sample_drive_def)
  show "disk_of program_drive program_machine 5 = sector_bytes root_words" "disk_of program_drive program_machine 6 = sector_bytes program_words"
    by (simp_all add: disk_of_def io sample_ata_io ata_dev_def program_drive_def sector_key_def)
qed

lemma program_cluster: "cluster_bytes program_fs disk 5 = disk 5" "cluster_bytes program_fs disk 6 = disk 6"
  by (simp_all add: cluster_bytes_def cluster_to_sector_def program_fs_fields sample_boot_fields)

definition program_dirent :: fat_dirent where
  "program_dirent = dirent_of_bytes (take 32 (sector_bytes root_words))"

lemma program_dirent_fields: "first_of program_dirent = 6" "d_file_size program_dirent = 123"
  by (simp_all add: program_dirent_def first_of_def dirent_of_bytes_def root_words_def sector_bytes_def le16_def le32_def)

lemma init_name: "fat_name (map of_char ''INIT'') = [0x49, 0x4E, 0x49, 0x54, 0x20, 0x20, 0x20, 0x20, 0x20, 0x20, 0x20]"
  by (simp add: fat_name_eq pad_def to_upper_def) (simp add: numeral_eq_Suc)

lemma program_root:
  "dir_find (fat_name (map of_char ''INIT'')) (concat (map (cluster_entries program_fs (disk_of program_drive program_machine)) (root_cluster program_fs # []))) =
     Some program_dirent"
proof -
  let ?e = "segment 0 32 (sector_bytes root_words)"
  have "cluster_entries program_fs (disk_of program_drive program_machine) 5 =
      ?e # map (\<lambda>i. segment (i * 32) 32 (sector_bytes root_words)) [1..<16]"
    unfolding cluster_entries_def program_cluster program_disk by (simp add: program_fs_fields upt_conv_Cons)
  moreover have "?e ! 0 = 0x49" "take 11 ?e = [0x49, 0x4E, 0x49, 0x54, 0x20, 0x20, 0x20, 0x20, 0x20, 0x20, 0x20]"
    by (simp_all add: segment_def root_words_def sector_bytes_def)
  ultimately show ?thesis unfolding init_name by (simp add: program_fs_fields program_dirent_def segment_def)
qed

lemma program_content: "take 123 (sector_bytes program_words) = sample_program"
  by (simp add: program_words_def sector_bytes_def sample_program_def)

lemma program_fits_machine: "program_fits sample_program 0x800000 program_blocks (vm program_machine)"
proof -
  have h: "elf_headers sample_program i = file_phdr sample_program (64 + 56 * i)" for i by (simp add: elf_headers_def sample_program_header)
  have l: "loadable (elf_headers sample_program) [0..<1] = [0]" by (simp add: loadable_def h sample_program_segment)
  have p: "pages_total (elf_headers sample_program) [0..<1] = 1"
    unfolding pages_total_def l by (simp add: h sample_program_segment num_pages_def page_base_def)
  have "seg_ok sample_program 0x800000 (file_phdr sample_program 64)"
    by (simp add: seg_ok_def sample_program_segment sample_program_header)
  then have "segs_ok sample_program 0x800000 (56 * 1 + 64) program_blocks (elf_headers sample_program) [0..<1]"
    unfolding segs_ok_def l by (simp add: h sample_program_segment fits_def program_blocks_def)
  then show ?thesis using p elf_machine_ok(4,5)
    by (simp add: program_fits_def sample_program_header program_heap(4) fits_def program_blocks_def)
qed

theorem elf_load_from_fat_witness:
  "\<exists>t. elf_load (fat_vfs (replicate 4096 0) blank_file) (\<lambda>_. 0xCC) ''INIT'' blank_process program_machine =
      ret (1, blank_process\<lparr>p_entry := 0x400000\<rparr>, t) \<and> heap_ok t program_blocks \<and> heap_mem t 0x800019 = 0xFF \<and>
    segment_loaded sample_program (file_phdr sample_program 64) (heap_mem t)"
proof -
  let ?d = "program_dirent" and ?disk = "disk_of program_drive program_machine"
  have dir: "dir_chain program_fs (heap_mem program_machine) (root_cluster program_fs # [])"
    by (simp add: dir_chain_def program_fs_fields program_heap(3) program_entry)
  have c: "sample_program = take (unat (d_file_size ?d)) (cluster_bytes program_fs ?disk (first_of ?d))"
    using program_content by (simp add: program_dirent_fields program_cluster program_disk)
  have "\<exists>t. elf_load (fat_vfs (replicate 4096 0) blank_file) (\<lambda>_. 0xCC) ''INIT'' blank_process program_machine =
      ret (1, blank_process\<lparr>p_entry := e_entry (ehdr_of_bytes (take 64 sample_program))\<rparr>, t) \<and> heap_ok t program_blocks \<and> pt_ok (vm t) \<and>
      disk_ready sample_busy program_drive t \<and> disk_of program_drive t = ?disk \<and>
      (\<forall>i<512. heap_mem t (fat program_fs + of_nat i) = heap_mem program_machine (fat program_fs + of_nat i)) \<and>
      (\<forall>ph\<in>set (elf_segments sample_program). segment_loaded sample_program ph (heap_mem t) \<and> segment_mapped ph (vm t))"
    by (rule elf_load_from_fat [OF fat_vfs_dispatches _ _ _ program_disk(1) program_fs_fields(8,3) _ _ dir _ program_root _ _ c program_heap(1) _ _ _ program_fits_machine, where n = 512])
      (simp_all add: blank_file_def sample_vfs_file_def program_fs_fields program_heap program_blocks_def program_dirent_fields program_entry elf_machine_ok)
  moreover have "file_phdr sample_program 64 \<in> set (elf_segments sample_program)"
    by (simp add: elf_segments_def elf_headers_def sample_program_header sample_program_segment)
  moreover have "heap_mem program_machine 0x800019 = 0xFF" unfolding program_heap(3) using program_heap(5) by (simp add: agree_def)
  ultimately show ?thesis by (auto simp: sample_program_header program_fs_fields dest!: spec [of _ "1 :: nat"])
qed

end
