(* ===== verification/Kernel_Main.thy ===== *)
theory Kernel_Main
  imports Vfs
begin

text \<open>
  The start of the kernel and its main loop (\<open>kernel/kernel_loader.c\<close>) with the self tests it
  runs (\<open>kernel/test.c\<close>). The variables in the BSS section are fields of the state; \<open>zero_bss\<close> itself is modelled on
  the bytes of the section. What the sources use but do not define, and what uninitialised locals hold, is
  the record \<open>boot_env\<close>.
\<close>

section \<open>Operations\<close>

record ('f, 's) boot_env =
  env_vfs :: "('f, 's) vfs"
  env_vfs_init :: "'s \<Rightarrow> (int \<times> 's) run"
  env_register :: "u64 \<Rightarrow> syscall_handler \<Rightarrow> syscall_handler option list \<Rightarrow> syscall_handler option list"
  env_frame :: "u64 \<Rightarrow> u8"
  env_fat_fs :: fat_filesystem
  env_proc :: process
  env_task1 :: u64
  env_task2 :: u64

text \<open>The loop of \<open>zero_bss\<close>; the two arguments are the linker's symbols.\<close>

partial_function (option) zero_bss :: "u64 \<Rightarrow> u64 \<Rightarrow> mem \<Rightarrow> mem option" where
  "zero_bss bss_start bss_end m =
     (if bss_start < bss_end then zero_bss (bss_start + 4) bss_end (wr32 bss_start 0 m) else Some m)"

text \<open>One round of the loops of the two test tasks.\<close>

definition task1_round :: "'a ksched_scheme \<Rightarrow> 'a ksched_scheme outcome option" where
  "task1_round s = scheduler_sleep 10 (kprint ''1'' s)"

definition task2_round :: "'a ksched_scheme \<Rightarrow> 'a ksched_scheme outcome option" where
  "task2_round s = scheduler_sleep 15 (kprint ''2'' s)"

subsection \<open>Self tests\<close>

definition test_ata_driver :: "'a kata_scheme \<Rightarrow> 'a kata_scheme run" where
  "test_ata_driver s =
     run_bind (total_run (ata_init (kprint ''=== Testing ATA Driver ===\<newline>'' s))) (\<lambda>s1.
     run_bind (total_run (ata_read_sector ATA_DEVICE_PRIMARY_MASTER 0 s1)) (\<lambda>(r, buffer, s2).
       let s3 = (if r \<noteq> 0 then
                   kprint ''\<newline>'' (fold (\<lambda>_. kprint '' '') [0..<16]
                     (kprint ''First 16 bytes: '' (kprint ''Successfully read sector 0\<newline>'' s2)))
                 else kprint ''Failed to read sector 0\<newline>'' s2)
       in ret (kprint ''=== ATA Driver Test Complete ===\<newline>\<newline>'' s3)))"

definition test_vfs :: "('f, 'a kata_scheme) boot_env \<Rightarrow> 'a kata_scheme \<Rightarrow> 'a kata_scheme run" where
  "test_vfs E s =
     run_bind (env_vfs_init E (kprint ''=== Testing VFS ===\<newline>'' s)) (\<lambda>(r, s1).
       ret (if r = 0 then
              kprint ''=== VFS Test Complete ===\<newline>\<newline>'' (kprint ''VFS initialized successfully\<newline>'' s1)
            else kprint ''Failed to initialize VFS\<newline>'' s1))"

definition test_fat :: "('f, 'a kata_scheme) boot_env \<Rightarrow> 'a kata_scheme \<Rightarrow> 'a kata_scheme run" where
  "test_fat E s =
     run_bind (fat_mount (env_fat_fs E) (kprint ''=== Testing FAT Filesystem ===\<newline>'' s)) (\<lambda>(r, fat_fs, s1).
     run_bind
       (if r \<noteq> 0 then
          run_bind (vfs_open (env_vfs E) ''TEST.TXT'' VFS_MODE_READ (kprint ''FAT filesystem mounted successfully\<newline>'' s1)) (\<lambda>(r, file, s2).
          run_bind
            (if r \<noteq> 0 then vfs_close (env_vfs E) file (kprint ''Successfully opened TEST.TXT\<newline>'' s2)
             else ret (kprint ''Failed to open TEST.TXT\<newline>'' s2)) (\<lambda>s3.
          run_bind (total_run (fat_unmount fat_fs s3)) (\<lambda>(r, fat_fs, s4).
          ret (kprint ''FAT filesystem unmounted\<newline>'' s4))))
        else ret (kprint ''Failed to mount FAT filesystem\<newline>'' s1)) (\<lambda>s5.
     ret (kprint ''=== FAT Filesystem Test Complete ===\<newline>\<newline>'' s5)))"

definition test_user_mode :: "'a kuser_scheme \<Rightarrow> 'a kuser_scheme" where
  "test_user_mode s =
     kprint ''=== User Mode Transition Test Complete ===\<newline>\<newline>'' (kprint ''User mode support initialized\<newline>''
       (user_mode_init (kprint ''=== Testing User Mode Transition ===\<newline>'' s)))"

definition test_process_creation :: "'a kproc_scheme \<Rightarrow> 'a kproc_scheme run" where
  "test_process_creation s =
     run_bind (total_run (process_create NULL ''test_process'' (process_init (kprint ''=== Testing Process Creation ===\<newline>'' s)))) (\<lambda>(new_pid, s1).
       ret (kprint ''=== Process Creation Test Complete ===\<newline>\<newline>''
              (if new_pid \<noteq> 0 then kprint ''Successfully created test process\<newline>'' s1
               else kprint ''Failed to create test process\<newline>'' s1)))"

definition test_elf_loading :: "('f, 'a kata_scheme) boot_env \<Rightarrow> 'a kata_scheme \<Rightarrow> 'a kata_scheme run" where
  "test_elf_loading E s =
     run_bind (env_vfs_init E (kprint ''=== Testing ELF Loading ===\<newline>'' s)) (\<lambda>(r, s1).
       if r \<noteq> 0 then ret (kprint ''Failed to initialize VFS\<newline>'' s1)
       else
         run_bind (elf_load (env_vfs E) (env_frame E) ''TEST.ELF'' (env_proc E) s1) (\<lambda>(r, dummy_proc, s2).
         ret (kprint ''=== ELF Loading Test Complete ===\<newline>\<newline>''
                (if r \<noteq> 0 then kprint ''Successfully loaded TEST.ELF\<newline>'' s2 else kprint ''Failed to load TEST.ELF\<newline>'' s2))))"

text \<open>The system call made here is \<open>getpid\<close>, which returns; a handler that halts the machine would not come back.\<close>

definition test_syscalls :: "('f, 'a kata_scheme) boot_env \<Rightarrow> 'a kata_scheme \<Rightarrow> 'a kata_scheme run" where
  "test_syscalls E s =
     (let s1 = kprint ''System call interface initialized\<newline>''
                 (syscall_init (env_register E) (kprint ''=== Testing System Calls ===\<newline>'' s))
      in run_bind (total_run (syscall_dispatch SYSCALL_GETPID 0 0 0 0 0 0 s1)) (\<lambda>r.
           case r of
             Sys_returns v s2 \<Rightarrow>
               ret (kprint ''\<newline>=== System Calls Test Complete ===\<newline>\<newline>'' (kprint ''getpid() returned: '' s2))
           | Sys_halts s2 \<Rightarrow> None))"

definition test_user_program_execution :: "'a kio_scheme \<Rightarrow> 'a kio_scheme" where
  "test_user_program_execution s =
     fold kprint [''=== Testing User Program Execution ===\<newline>'', ''User program execution test placeholder\<newline>'',
       ''In a complete implementation, this would load and execute a user program\<newline>'',
       ''=== User Program Execution Test Complete ===\<newline>\<newline>''] s"

definition run_tests :: "('f, 'a kata_scheme) boot_env \<Rightarrow> 'a kata_scheme \<Rightarrow> 'a kata_scheme run" where
  "run_tests E s =
     run_bind (test_ata_driver (kprint ''=== Running All Tests ===\<newline>\<newline>'' s)) (\<lambda>s1.
     run_bind (test_vfs E s1) (\<lambda>s2.
     run_bind (test_fat E s2) (\<lambda>s3.
     run_bind (test_process_creation (test_user_mode s3)) (\<lambda>s4.
     run_bind (test_elf_loading E s4) (\<lambda>s5.
     run_bind (test_syscalls E s5) (\<lambda>s6.
     ret (kprint ''=== All Tests Completed ===\<newline>\<newline>'' (test_user_program_execution s6))))))))"

subsection \<open>Initialisation and main loop\<close>

definition example_allocation :: "'a kmem_scheme \<Rightarrow> 'a kmem_scheme option" where
  "example_allocation s =
     Option.bind (kmalloc 1024 (kprint ''Attempting memory allocation...\<newline>'' s)) (\<lambda>(test_ptr, s1).
       if test_ptr \<noteq> NULL then
         Option.bind (kfree test_ptr (kprint ''Memory allocation successful!\<newline>'' s1)) (\<lambda>s2.
         Some (kprint ''Memory deallocation successful!\<newline>'' s2))
       else Some (kprint ''Memory allocation failed!\<newline>'' s1))"

text \<open>
  \<open>kernel_main\<close> up to its main loop, when no interrupt is served meanwhile: first the components are set up and the two test tasks added,
  then the self tests run.
\<close>

definition kernel_setup :: "('f, 'a kata_scheme) boot_env \<Rightarrow> u64 \<Rightarrow> 'a kata_scheme \<Rightarrow> 'a kata_scheme option" where
  "kernel_setup E magic s =
     (let s1 = s\<lparr>io := console_initialize (io s)\<rparr>;
          s2 = kprint ''Console System: READY\<newline>'' (kprint ''Welcome to Kaviz OS!\<newline>'' s1);
          s3 = (if magic \<noteq> 0x1BADB002 then kprint ''ERROR: Invalid boot magic number!\<newline>'' s2
                else kprint ''Boot parameters verified.\<newline>'' s2)
      in Option.bind (test_memory_management (memory_init s3)) (\<lambda>s4.
         let s5 = keyboard_init (timer_init (scheduler_init (idt_init s4)))
         in Option.bind (scheduler_add_task (env_task1 E) s5) (scheduler_add_task (env_task2 E))))"

definition kernel_init :: "('f, 'a kata_scheme) boot_env \<Rightarrow> u64 \<Rightarrow> 'a kata_scheme \<Rightarrow> 'a kata_scheme run" where
  "kernel_init E magic s =
     run_bind (total_run (kernel_setup E magic s)) (\<lambda>s7.
     run_bind (run_tests E s7) (\<lambda>s8.
     run_bind (total_run (example_allocation s8)) (\<lambda>s9.
     ret (fold kprint [''Timer initialized. Current tick count: '', ''\<newline>'', ''Kernel initialization complete.\<newline>'', ''> ''] s9))))"

text \<open>
  The main loop, one statement at a time, since an interrupt may be served between any two of them: where it is,
  and what the next statement does. \<open>hlt\<close> waits for an interrupt.
\<close>

datatype loop_pc = At_test | At_getchar | At_putchar char | At_hlt

fun loop_step :: "loop_pc \<Rightarrow> 'a kkbd_scheme \<Rightarrow> (loop_pc \<times> 'a kkbd_scheme) option" where
  "loop_step At_test s = Some (if keyboard_has_input s then At_getchar else At_hlt, s)"
| "loop_step At_getchar s = (let (c, s1) = keyboard_getchar s in Some (At_putchar c, s1))"
| "loop_step (At_putchar c) s = Some (At_hlt, kputchar c s)"
| "loop_step At_hlt s = None"

section \<open>Clearing the BSS section\<close>

lemma wr_le_numeral: "wr_le (numeral k) a v m = wr_le (pred_numeral k) (a + 1) (v div 256) (m(a := of_nat (v mod 256)))"
  by (simp only: numeral_eq_Suc [of k] wr_le.simps(2))

lemma zero_bss_returns:
  assumes "unat b + 3 < 2 ^ 64"
  shows "\<exists>m'. zero_bss a b m = Some m' \<and>
    (\<forall>x. m' x = (if unat a \<le> unat x \<and> unat x < unat a + 4 * ((unat b - unat a + 3) div 4) then 0 else m x))"
proof (induction "(unat b - unat a + 3) div 4" arbitrary: a m)
  case 0
  then have "\<not> a < b" by (simp add: word_less_nat_alt)
  then show ?case using 0 by (subst zero_bss.simps) (auto simp del: div_eq_0_iff)
next
  case (Suc k)
  then have lt: "a < b" by (simp add: word_less_nat_alt)
  have ua: "unat (a + 4) = unat a + 4" using lt assms by (intro unat_add_small [THEN trans]) (simp_all add: word_less_nat_alt)
  then have k: "k = (unat b - unat (a + 4) + 3) div 4" using Suc.hyps(2) by simp
  obtain m' where m': "zero_bss (a + 4) b (wr32 a 0 m) = Some m'"
    "\<And>x. m' x = (if unat (a + 4) \<le> unat x \<and> unat x < unat (a + 4) + 4 * k then 0 else wr32 a 0 m x)"
    using Suc.hyps(1) [OF k, of "wr32 a 0 m"] unfolding k [symmetric] by blast
  have w: "wr32 a 0 m x = (if unat a \<le> unat x \<and> unat x < unat a + 4 then 0 else m x)" for x
  proof -
    have "wr32 a 0 m x = (if x \<in> {a, a + 1, a + 1 + 1, a + 1 + 1 + 1} then 0 else m x)"
      by (simp add: wr32_def wr_le_numeral)
    moreover have "x \<in> {a, a + 1, a + 1 + 1, a + 1 + 1 + 1} \<longleftrightarrow> unat a \<le> unat x \<and> unat x < unat a + 4"
    proof -
      have "unat (a + 1) = unat a + 1" "unat (a + 1 + 1) = unat a + 2" "unat (a + 1 + 1 + 1) = unat a + 3"
        using lt assms by (simp_all add: unat_add_small word_less_nat_alt add.assoc)
      then show ?thesis by (auto simp: word_unat_eq_iff)
    qed
    ultimately show ?thesis by simp
  qed
  have "m' x = (if unat a \<le> unat x \<and> unat x < unat a + 4 * Suc k then 0 else m x)" for x
    using m'(2) [of x] w [of x] ua by auto
  then show ?case using m'(1) lt unfolding Suc.hyps(2) [symmetric] by (subst zero_bss.simps) auto
qed

lemma rd64_zero: "(\<And>i. i < 8 \<Longrightarrow> m (a + of_nat i) = 0) \<Longrightarrow> rd64 m a = 0"
proof -
  assume "\<And>i. i < 8 \<Longrightarrow> m (a + of_nat i) = 0"
  then have "rd_le 8 a m = rd_le 8 a (\<lambda>_. 0)" by (intro rd_le_shift) simp
  moreover have "rd_le n a (\<lambda>_. 0) = 0" for n by (induction n arbitrary: a) simp_all
  ultimately show ?thesis by (simp add: rd64_def)
qed

section \<open>What the start of the kernel keeps\<close>

abbreviation ports :: "'a kio_scheme \<Rightarrow> io_op list \<Rightarrow> u16 \<Rightarrow> u16" where
  "ports s \<equiv> port_env (io s)"

lemma log_irrelevant [simp]:
  "con_ok (c\<lparr>io_log := l\<rparr>) = con_ok c" "term_abs (c\<lparr>io_log := l\<rparr>) = term_abs c"
  by (simp_all add: con_ok_def term_abs_def screen_def)

text \<open>
  An operation that has nothing to do with tasks and keys: the devices behind the ports, the keyboard's buffer and the
  table of tasks are the same after it, and the console is still well formed.
\<close>

definition keeps :: "'a ksched_scheme \<Rightarrow> 'a ksched_scheme \<Rightarrow> bool" where
  "keeps s t \<longleftrightarrow> ports t = ports s \<and> (kio_ok s \<longrightarrow> kio_ok t) \<and> keyboard_buffer t = keyboard_buffer s \<and>
     buffer_head t = buffer_head s \<and> buffer_tail t = buffer_tail s \<and> tasks t = tasks s \<and> task_count t = task_count s \<and>
     current_task t = current_task s"

named_theorems keeps_intros

lemma keeps_refl [simp, keeps_intros]: "keeps s s"
  by (simp add: keeps_def)

lemma keeps_trans [trans]: "keeps s t \<Longrightarrow> keeps t u \<Longrightarrow> keeps s u"
  by (simp add: keeps_def)

text \<open>Goals are taken apart from the last operation backwards.\<close>

lemma keeps_step [keeps_intros]:
  "keeps s t \<Longrightarrow> keeps s (kprint msg t)" "keeps s t \<Longrightarrow> keeps s (t\<lparr>vm := v\<rparr>)" "keeps s t \<Longrightarrow> keeps s (t\<lparr>heap_mem := m\<rparr>)"
  "keeps s t \<Longrightarrow> keeps s (t\<lparr>heap_first_block := a\<rparr>)" "keeps s t \<Longrightarrow> keeps s (t\<lparr>pmm := p\<rparr>)"
  "keeps s t \<Longrightarrow> keeps s (koutb port w t)" "keeps s t \<Longrightarrow> keeps s (snd (kinb port t))"
  "keeps s t \<Longrightarrow> keeps s (kmmio_write x y t)" "keeps s t \<Longrightarrow> keeps s (snd (kmmio_read x t))"
  "keeps s t \<Longrightarrow> keeps s (t\<lparr>lapic_base := x\<rparr>)" "keeps s t \<Longrightarrow> keeps s (t\<lparr>ioapic_base := x\<rparr>)"
  by (simp_all add: keeps_def kio_defs io_defs console_write_ok split_beta)

lemma keeps_fold [keeps_intros]:
  "(\<And>x t. keeps t (f x t)) \<Longrightarrow> keeps s t \<Longrightarrow> keeps s (fold f xs t)"
proof (induction xs arbitrary: t)
  case (Cons x xs)
  then show ?case using keeps_trans by (metis fold_simps(2))
qed simp

lemma sched_inv_io [simp]: "sched_inv (s\<lparr>io := c\<rparr>) = sched_inv s"
  by (simp add: sched_inv_def sched_ok_def)

lemma keeps_prints [keeps_intros]: "keeps s t \<Longrightarrow> keeps s (fold kprint ms t)"
  by (intro keeps_intros)

lemma console_initialize_ports:
  fixes c :: "'a console_scheme"
  shows "port_env (console_initialize c) = port_env c"
proof -
  have fold_keeps: "P (fold f xs s) = P s" if "\<And>x s. P (f x s) = P s" for P :: "'a console_scheme \<Rightarrow> io_op list \<Rightarrow> u16 \<Rightarrow> u16" and f and xs :: "nat list" and s
    using that by (induction xs arbitrary: s) simp_all
  have row: "port_env (fold (\<lambda>x s. con_store (f y x) (vga_entry (CHR '' '') (con_color s)) s) xs s) = port_env s" for f and y :: nat and xs :: "nat list" and s :: "'a console_scheme"
    by (rule fold_keeps) (simp add: con_store_def)
  have "port_env (fold (\<lambda>y. fold (\<lambda>x s. con_store (f y x) (vga_entry (CHR '' '') (con_color s)) s) xs) ys s) = port_env s"
    for f and xs ys :: "nat list" and s :: "'a console_scheme"
    by (rule fold_keeps) (rule row)
  then show ?thesis by (simp only: console_initialize_def console_clear_def Let_def update_cursor_dev) simp
qed

lemma console_initialize_keeps: "keeps s (s\<lparr>io := console_initialize (io s)\<rparr>)" "kio_ok (s\<lparr>io := console_initialize (io s)\<rparr>)"
  by (simp_all add: keeps_def console_initialize_ports initialize_ok)

lemma memory_init_keeps: "keeps s (memory_init s)"
  unfolding memory_init_def kinit_vmm_def init_pmm_def print_memory_map_def Let_def
  by (auto intro!: keeps_intros simp del: fold_simps)

lemma back_page_keeps: "keeps s (snd (back_page m1 m2 a s))"
  by (auto simp: back_page_def Let_def split_beta intro!: keeps_intros)

lemma loop_cases:
  assumes "(if c then (case b of (ok, s1) \<Rightarrow> if ok then g s1 else Some (False, s1)) else Some (True, s)) = Some r"
  obtains "r = (True, s)" | "g (snd b) = Some r" | "r = (False, snd b)"
  using assms by (cases c; cases b; cases "fst b") simp_all

lemma heap_init_loop_keeps:
  fixes s :: "'a ksched_scheme"
  assumes "heap_init_loop a s = Some r" shows "keeps s (snd r)"
proof (rule heap_init_loop.raw_induct [OF _ assms])
  fix f :: "u64 \<Rightarrow> 'a ksched_scheme \<Rightarrow> (bool \<times> 'a ksched_scheme) option" and addr s r
  assume IH: "\<And>a s r. f a s = Some r \<Longrightarrow> keeps s (snd r)"
  assume "(if addr < heap_start (vm s) + 0x400000 then
        (case back_page ''ERROR: Failed to allocate physical page for heap\<newline>''
                ''ERROR: Failed to map page for heap\<newline>'' addr s of
           (ok, s1) \<Rightarrow> if ok then f (addr + PAGE_SIZE) s1 else Some (False, s1))
      else Some (True, s)) = Some r"
  then show "keeps s (snd r)"
    by (cases rule: loop_cases) (simp_all add: back_page_keeps, rule keeps_trans [OF back_page_keeps IH])
qed

lemma heap_extend_loop_keeps:
  fixes s :: "'a ksched_scheme"
  assumes "heap_extend_loop i n s = Some r" shows "keeps s (snd r)"
proof (rule heap_extend_loop.raw_induct [OF _ assms])
  fix f :: "u64 \<Rightarrow> u64 \<Rightarrow> 'a ksched_scheme \<Rightarrow> (bool \<times> 'a ksched_scheme) option" and i n s r
  assume IH: "\<And>i n s r. f i n s = Some r \<Longrightarrow> keeps s (snd r)"
  assume "(if i < n then
        (case back_page ''ERROR: Failed to allocate physical page for heap extension\<newline>''
                ''ERROR: Failed to map page for heap extension\<newline>'' (heap_end (vm s) + i * PAGE_SIZE) s of
           (ok, s1) \<Rightarrow> if ok then f (i + 1) n s1 else Some (False, s1))
      else Some (True, s)) = Some r"
  then show "keeps s (snd r)"
    by (cases rule: loop_cases) (simp_all add: back_page_keeps, rule keeps_trans [OF back_page_keeps IH])
qed

lemma kmalloc_keeps:
  fixes s :: "'a ksched_scheme"
  assumes "kmalloc sz s = Some (p, s')" shows "keeps s s'"
proof -
  have init: "keeps s s1" if "heap_init s = Some (ok, s1)" for ok s1
    using that by (auto simp: heap_init_def Let_def split: option.splits if_splits dest!: heap_init_loop_keeps intro!: keeps_intros)
  have extend: "keeps s1 s2" if "heap_extend n s1 = Some (b, s2)" for n b and s1 s2 :: "'a ksched_scheme"
    using that by (auto simp: heap_extend_def Let_def split: option.splits if_splits dest!: heap_extend_loop_keeps intro!: keeps_intros)
  show ?thesis using assms
    by (auto simp: kmalloc_def Let_def split_beta split: option.splits if_splits dest!: init extend intro!: keeps_intros elim: keeps_trans)
qed

lemma kfree_keeps: "kfree p s = Some s' \<Longrightarrow> keeps s s'"
  by (auto dest!: kfree_only_memory intro!: keeps_intros)

lemma test_memory_keeps:
  fixes s :: "'a ksched_scheme"
  assumes "test_memory_management s = Some s'" shows "keeps s s'"
proof -
  have first: "keeps s1 s2" if "test_first p s1 = Some s2" for p and s1 s2 :: "'a ksched_scheme"
    using that by (auto simp: test_first_def Let_def split: option.splits if_splits dest!: kfree_keeps intro!: keeps_intros intro: keeps_trans [rotated])
  have second: "keeps s1 s2" if "test_second p s1 = Some s2" for p and s1 s2 :: "'a ksched_scheme"
    using that by (auto simp: test_second_def Let_def split: option.splits if_splits dest!: kfree_keeps intro!: keeps_intros intro: keeps_trans [rotated])
  have start: "keeps s t" if "keeps (kprint msg s) t" for msg t
    using keeps_trans [OF _ that] by (simp add: keeps_intros)
  show ?thesis using assms
    by (auto simp: test_memory_management_def split: option.splits dest!: first second kmalloc_keeps start intro!: keeps_intros) (metis keeps_trans)
qed

lemma idt_keeps [keeps_intros]:
  "keeps s t \<Longrightarrow> keeps s (idt_set_gate i x y z t)" "keeps s t \<Longrightarrow> keeps s (t\<lparr>idtp := p\<rparr>)" "keeps s t \<Longrightarrow> keeps s (t\<lparr>idtr := p\<rparr>)"
  "keeps s t \<Longrightarrow> keeps s (t\<lparr>int_flag := b\<rparr>)"
  by (simp_all add: keeps_def idt_set_gate_def Let_def)

lemma interrupt_setup_keeps [keeps_intros]:
  "keeps s t \<Longrightarrow> keeps s (setup_idt t)" "keeps s t \<Longrightarrow> keeps s (setup_pic t)" "keeps s t \<Longrightarrow> keeps s (enable_interrupts t)"
  unfolding setup_idt_def setup_pic_def enable_interrupts_def Let_def split_beta by (intro keeps_intros, assumption)+

lemma apic_access_keeps [keeps_intros]:
  "keeps s t \<Longrightarrow> keeps s (apic_write r v t)" "keeps s t \<Longrightarrow> keeps s (snd (apic_read r t))"
  "keeps s t \<Longrightarrow> keeps s (ioapic_write r v t)" "keeps s t \<Longrightarrow> keeps s (snd (ioapic_read r t))"
  unfolding apic_write_def apic_read_def ioapic_write_def ioapic_read_def by (intro keeps_intros, assumption)+

lemma apic_setup_keeps [keeps_intros]:
  "keeps s t \<Longrightarrow> keeps s (lapic_init t)" "keeps s t \<Longrightarrow> keeps s (ioapic_init t)" "keeps s t \<Longrightarrow> keeps s (ioapic_set_irq_redirect i v fl t)"
  unfolding lapic_init_def ioapic_init_def ioapic_set_irq_redirect_def Let_def split_beta by (intro keeps_intros, assumption)+

lemma idt_init_keeps: "keeps s (idt_init s)"
  unfolding idt_init_def apic_init_def Let_def by (intro keeps_intros)

lemma timer_init_keeps: "keeps s (timer_init s)"
  unfolding timer_init_def pit_init_def apic_timer_init_def Let_def by (intro keeps_intros)

lemma keyboard_init_keeps: "keeps s (keyboard_init s)"
  unfolding keyboard_init_def by (intro keeps_intros)

section \<open>The state after the set-up\<close>

text \<open>The first use of the heap is its self test: it sets the heap up and succeeds.\<close>

lemma self_test_first_use:
  assumes "heap_first_block s = NULL" "heap_backable (vm s)"
  shows "\<exists>s'. test_memory_management s = Some s'"
proof -
  let ?s0 = "kprint ''Testing memory management...\<newline>'' s" and ?bs = "[(0x400000 - 24, True)] :: (nat \<times> bool) list"
  have b: "heap_backable (vm ?s0)" using assms(2) by simp
  obtain s1 where s1: "heap_init ?s0 = Some (True, s1)" "heap_ok s1 ?bs" by (rule heap_init_ok [OF b]) (rule that)
  have ne: "heap_first_block s1 \<noteq> NULL" using s1(2) heap_wf_bounds(2,4) [of s1] by (auto simp: heap_ok_def)
  have k: "kmalloc 128 ?s0 = kmalloc 128 s1" using assms(1) s1(1) ne by (simp add: kmalloc_def)
  have fit: "\<exists>b\<in>set ?bs. fits 128 b" "\<exists>b\<in>set ?bs. fits 256 b" by (simp_all add: fits_def)
  obtain p m m2 where p: "kmalloc 128 s1 = Some (p, s1\<lparr>heap_mem := m\<rparr>)" "heap_ok (s1\<lparr>heap_mem := m2\<rparr>) ?bs"
    "test_first p (s1\<lparr>heap_mem := m\<rparr>) = Some (s1\<lparr>heap_mem := m2,
       io := fold console_write [''kmalloc(128) successful\<newline>'', ''Memory read/write test passed\<newline>'', ''kfree() successful\<newline>''] (io s1)\<rparr>)"
    by (rule test_first_ok [OF s1(2) fit(1)]) (rule that)
  let ?s2 = "s1\<lparr>heap_mem := m2, io := fold console_write [''kmalloc(128) successful\<newline>'',
    ''Memory read/write test passed\<newline>'', ''kfree() successful\<newline>''] (io s1)\<rparr>"
  have "heap_ok ?s2 ?bs" using p(2) by (simp only: heap_ok_io)
  then obtain q m3 m4 where "kmalloc 256 ?s2 = Some (q, ?s2\<lparr>heap_mem := m3\<rparr>)"
    "test_second q (?s2\<lparr>heap_mem := m3\<rparr>) = Some (?s2\<lparr>heap_mem := m4,
       io := fold console_write [''kmalloc(256) successful\<newline>'', ''kfree() successful\<newline>''] (io ?s2)\<rparr>)"
    by (rule test_second_ok [OF _ fit(2)]) (rule that)
  then show ?thesis using p(1,3) k by (simp add: test_memory_management_def)
qed

text \<open>
  What \<open>kernel_main\<close> starts from, once the BSS section has been cleared: empty buffers and tables of their declared sizes, no heap, and page tables
  and frames from which the heap can be backed.
\<close>

definition boot_ok :: "'a ksched_scheme \<Rightarrow> bool" where
  "boot_ok s \<longleftrightarrow> length (keyboard_buffer s) = 256 \<and> buffer_head s = 0 \<and> buffer_tail s = 0 \<and> length (tasks s) = 64 \<and>
     heap_first_block s = NULL \<and> heap_backable (load_page_directory (init_vmm (vm s)))"

lemma memory_init_vm: "vm (memory_init s) = load_page_directory (init_vmm (vm s))" "heap_first_block (memory_init s) = heap_first_block s"
  by (simp_all add: memory_init_def kinit_vmm_def Let_def)

text \<open>The four initialisations after the memory test.\<close>

lemma components_init:
  fixes s :: "'a kata_scheme"
  assumes "length (tasks s) = 64"
  defines "t \<equiv> keyboard_init (timer_init (scheduler_init (idt_init s)))"
  shows "sched_inv t" "task_count t = 0" "ports t = ports s" "kio_ok s \<Longrightarrow> kio_ok t"
    "keyboard_buffer t = keyboard_buffer s" "buffer_head t = buffer_head s" "buffer_tail t = buffer_tail s"
proof -
  let ?i = "idt_init s"
  let ?c = "scheduler_init ?i"
  have i: "keeps s ?i" by (rule idt_init_keeps)
  have c: "keeps ?c t" unfolding t_def by (rule keeps_trans [OF timer_init_keeps keyboard_init_keeps])
  have "length (tasks ?i) = 64" using i assms(1) by (simp add: keeps_def)
  then have "sched_inv ?c" by (rule scheduler_init_tasks)
  moreover have "sched_inv t = sched_inv ?c" using c by (simp add: keeps_def sched_inv_def sched_ok_def)
  moreover have f: "task_count ?c = 0" "ports ?c = ports ?i" "kio_ok ?i \<Longrightarrow> kio_ok ?c"
    "keyboard_buffer ?c = keyboard_buffer ?i" "buffer_head ?c = buffer_head ?i" "buffer_tail ?c = buffer_tail ?i"
    by (simp_all add: scheduler_init_def Let_def kprint_def console_write_ok)
  ultimately show "sched_inv t" by simp
  show "task_count t = 0" "ports t = ports s" "kio_ok s \<Longrightarrow> kio_ok t"
    "keyboard_buffer t = keyboard_buffer s" "buffer_head t = buffer_head s" "buffer_tail t = buffer_tail s"
    using i c f by (simp_all add: keeps_def)
qed

lemma add_task_steps:
  assumes "sched_inv s" "unat (task_count s) < 64"
  obtains t where "scheduler_add_task e s = Some t" "sched_inv t" "task_count t = task_count s + 1" "kio_ok s \<Longrightarrow> kio_ok t" "ports t = ports s"
    "keyboard_buffer t = keyboard_buffer s" "buffer_head t = buffer_head s" "buffer_tail t = buffer_tail s"
    "tasks t = (tasks s)[unat (task_count s) := init_task (task_count s) e (tasks s ! unat (task_count s))]"
proof (rule that [OF add_task_eq [OF assms(2)]])
qed (use add_task_inv [OF assms] in \<open>simp_all add: kprint_def console_write_ok\<close>)

lemma add_task_ports: "scheduler_add_task e s = Some s' \<Longrightarrow> ports s' = ports s"
  by (auto simp: scheduler_add_task_def Let_def split: if_splits option.splits)

text \<open>\<open>kernel_setup\<close> from the console to the tasks; \<open>greeted\<close> is the state after its first messages.\<close>

definition greeted :: "u64 \<Rightarrow> 'a kata_scheme \<Rightarrow> 'a kata_scheme" where
  "greeted magic s =
     kprint (if magic \<noteq> 0x1BADB002 then ''ERROR: Invalid boot magic number!\<newline>'' else ''Boot parameters verified.\<newline>'')
       (kprint ''Console System: READY\<newline>'' (kprint ''Welcome to Kaviz OS!\<newline>'' (s\<lparr>io := console_initialize (io s)\<rparr>)))"

lemma greeted_frame: "keeps s (greeted magic s)" "kio_ok (greeted magic s)" "vm (greeted magic s) = vm s" "heap_first_block (greeted magic s) = heap_first_block s"
  unfolding greeted_def by (intro keeps_intros console_initialize_keeps) (simp_all add: console_write_ok initialize_ok)

lemma kernel_setup_eq:
  "kernel_setup E magic s = Option.bind (test_memory_management (memory_init (greeted magic s))) (\<lambda>s4.
     Option.bind (scheduler_add_task (env_task1 E) (keyboard_init (timer_init (scheduler_init (idt_init s4))))) (scheduler_add_task (env_task2 E)))"
  by (simp add: kernel_setup_def greeted_def Let_def)

lemma setup_ports:
  fixes s :: "'a kata_scheme"
  assumes "kernel_setup E magic s = Some t"
  shows "ports t = ports s"
proof -
  obtain s4 s6 where s: "test_memory_management (memory_init (greeted magic s)) = Some s4"
    "scheduler_add_task (env_task1 E) (keyboard_init (timer_init (scheduler_init (idt_init s4)))) = Some s6" "scheduler_add_task (env_task2 E) s6 = Some t"
    using assms by (auto simp: kernel_setup_eq bind_eq_Some_conv)
  have "keeps s s4" by (rule keeps_trans [OF greeted_frame(1) keeps_trans [OF memory_init_keeps test_memory_keeps [OF s(1)]]])
  moreover have "ports (scheduler_init u) = ports u" for u :: "'a kata_scheme" by (simp add: scheduler_init_def Let_def)
  ultimately show ?thesis
    using add_task_ports [OF s(2)] add_task_ports [OF s(3)] idt_init_keeps [of s4] keeps_trans [OF timer_init_keeps keyboard_init_keeps, of "scheduler_init (idt_init s4)"]
    by (simp add: keeps_def)
qed

lemma run_bind_None: "(\<And>x. m = Some x \<Longrightarrow> f x = None) \<Longrightarrow> run_bind (total_run m) f = None"
  by (cases m) simp_all

text \<open>The first self test that touches the disk does not come back without both drives, so nothing after it runs.\<close>

lemma kernel_init_absent:
  fixes s :: "'a kata_scheme"
  assumes "drive_absent ATA_DEVICE_PRIMARY_MASTER s \<or> drive_absent ATA_DEVICE_PRIMARY_SLAVE s"
  shows "kernel_init E magic s = None"
proof -
  have tests: "run_tests E t = None" if "ports t = ports s" for t
  proof -
    let ?t = "kprint ''=== Testing ATA Driver ===\<newline>'' (kprint ''=== Running All Tests ===\<newline>\<newline>'' t)"
    have "ata_init ?t = None" using assms that by (intro init_absent) (simp add: drive_absent_def)
    then show ?thesis by (simp add: run_tests_def test_ata_driver_def)
  qed
  then show ?thesis unfolding kernel_init_def by (auto intro!: run_bind_None dest!: setup_ports)
qed

section \<open>The boot thread and the first task\<close>

lemma tcb_words_saved: "tcb_words (tcb_put_words (save_context ra c w) t) = save_context ra c w"
  by (simp add: save_context_def tcb_words_def tcb_put_words_def)

lemma boot_switch:
  fixes s :: "'a ksched_scheme"
  assumes ok: "sched_ok s" and two: "task_count s = 2" "current_task s = 0" "tasks s ! 1 = init_task 1 e2 t1"
  shows "\<exists>t. scheduler_schedule s = Some (Switched t) \<and> current_task t = 1 \<and>
    c_status (cpu t) = Faulted (new_task_fault (cpu s)) \<and> c_r15 (cpu t) = e2 \<and>
    (\<exists>w. tcb_words (tasks t ! 0) = save_context (switch_resume s)
       ((cpu s)\<lparr>c_rdi := tasks_addr s, c_rsi := tasks_addr s + 216, c_rsp := c_rsp (cpu s) - 8\<rparr>) w)"
proof -
  have "rr_order 2 0 = [1, 0]" by (simp add: rr_order_def upt_rec)
  moreover have tick: "tick_task (tasks s ! 1) = tasks s ! 1" using two(3) by (simp add: tick_task_def init_task_def)
  then have "wakes_ready (tasks s) 1" using two(3) by (simp add: wakes_ready_def init_task_def)
  ultimately have ch: "chosen s = 1" using two(1,2) by (simp add: next_task_def)
  let ?t = "switch_tasks 0 (scheduled s)"
  let ?c = "(cpu s)\<lparr>c_rdi := tasks_addr s, c_rsi := tasks_addr s + 216\<rparr>"
  have f: "current_task (scheduled s) = 1" "cpu (scheduled s) = cpu s" "tasks_addr (scheduled s) = tasks_addr s"
    "switch_resume (scheduled s) = switch_resume s" using ch by (simp_all add: scheduled_def)
  have next1: "tasks (scheduled s) ! 1 = init_task 1 e2 t1"
    using ok tick two(3) by (simp add: scheduled_def tick_all_def sched_ok_def)
  have "0 < length (tasks (scheduled s))" using ok by (simp add: scheduled_def sched_ok_def tick_all_def)
  then have "\<exists>w. tasks ?t ! 0 = tcb_put_words (save_context (switch_resume s) (?c\<lparr>c_rsp := c_rsp (cpu s) - 8\<rparr>) w) (tasks (scheduled s) ! 0)"
    by (auto simp: switch_tasks_def context_switch_def Let_def f)
  then have saved: "\<exists>w. tcb_words (tasks ?t ! 0) = save_context (switch_resume s) (?c\<lparr>c_rsp := c_rsp (cpu s) - 8\<rparr>) w"
    using tcb_words_saved by metis
  have "cpu ?t = snd (context_switch (switch_resume s) ?c (tcb_words (tasks (scheduled s) ! 0)) (tcb_words (init_task 1 e2 t1)))"
    by (simp add: switch_tasks_def Let_def split_beta f next1 [simplified])
  then have "c_status (cpu ?t) = Faulted (new_task_fault ?c)" "c_r15 (cpu ?t) = e2"
    using new_task_faults [of "switch_resume s" ?c _ 1 e2 t1] by (simp_all only: Let_def)
  moreover have "new_task_fault ?c = new_task_fault (cpu s)" by (simp add: new_task_fault_def split: option.split)
  moreover have "scheduler_schedule s = Some (Switched ?t)" using scheduler_schedule_eq [OF ok] two(1,2) ch by simp
  moreover have "current_task ?t = 1" using f(1) by simp
  ultimately show ?thesis using saved by (intro exI [of _ ?t]) simp
qed

section \<open>Properties\<close>

text \<open>
  C22. The set-up delivers a well-formed kernel. From a machine whose BSS section has been cleared and whose page tables can back the heap,
  \<open>kernel_main\<close> gets through the initialisation of its components, whatever the boot magic: the memory test returns, and when the two test tasks have been added the console,
  the keyboard's queue (empty) and the table of tasks satisfy the invariants that the main loop and the interrupt handlers
  work with, and the table holds the two tasks with their entry points, both ready.
\<close>

theorem kernel_setup_well_formed:
  fixes s :: "'a kata_scheme"
  assumes "boot_ok s"
  shows "\<exists>t. kernel_setup E magic s = Some t \<and> kio_ok t \<and> kbd_ok t \<and> kbd_contents t = [] \<and> sched_inv t \<and> task_count t = 2 \<and>
    (\<forall>i e. (i, e) \<in> {(0, env_task1 E), (1, env_task2 E)} \<longrightarrow>
       t_id (tasks t ! i) = of_nat i \<and> t_state (tasks t ! i) = TASK_READY \<and> t_rip (tasks t ! i) = e)"
proof -
  let ?s3 = "memory_init (greeted magic s)"
  have k3: "keeps s ?s3" "kio_ok ?s3" using greeted_frame [where magic = magic and s = s] memory_init_keeps [of "greeted magic s"] keeps_trans by (auto simp: keeps_def)
  have "\<exists>s4. test_memory_management ?s3 = Some s4"
    using assms by (intro self_test_first_use) (simp_all add: boot_ok_def memory_init_vm greeted_frame)
  then obtain s4 where s4: "test_memory_management ?s3 = Some s4" by blast
  then have k4: "keeps s s4" "kio_ok s4" using test_memory_keeps [OF s4] k3 keeps_trans by (auto simp: keeps_def)
  then have "length (tasks s4) = 64" using assms by (simp add: keeps_def boot_ok_def)
  note c = components_init [OF this]
  let ?s5 = "keyboard_init (timer_init (scheduler_init (idt_init s4)))"
  obtain s6 where s6: "scheduler_add_task (env_task1 E) ?s5 = Some s6" "sched_inv s6" "task_count s6 = 1" "kio_ok s6"
    "keyboard_buffer s6 = keyboard_buffer s" "buffer_head s6 = buffer_head s" "buffer_tail s6 = buffer_tail s"
    "tasks s6 = (tasks ?s5)[0 := init_task 0 (env_task1 E) (tasks ?s5 ! 0)]"
    by (rule add_task_steps [OF c(1), of "env_task1 E"]) (use c k4 that in \<open>simp_all add: keeps_def\<close>)
  obtain t where t: "scheduler_add_task (env_task2 E) s6 = Some t" "sched_inv t" "task_count t = 2" "kio_ok t"
    "keyboard_buffer t = keyboard_buffer s" "buffer_head t = buffer_head s" "buffer_tail t = buffer_tail s"
    "tasks t = (tasks s6)[1 := init_task 1 (env_task2 E) (tasks s6 ! 1)]"
    by (rule add_task_steps [OF s6(2), of "env_task2 E"]) (use s6 that in simp_all)
  have len: "length (tasks ?s5) = 64" using c(1) by (simp add: sched_inv_def sched_ok_def)
  have "kbd_ok t" "kbd_contents t = []" using t(5-7) assms by (simp_all add: kbd_ok_def kbd_contents_def kbd_count_def boot_ok_def)
  moreover have "kernel_setup E magic s = Some t" using s4 s6(1) t(1) by (simp add: kernel_setup_eq)
  ultimately show ?thesis using t(2-4,8) s6(8) len by (auto simp: init_task_def)
qed

definition sample_env :: "(nat, 'a kata_scheme) boot_env" where
  "sample_env = \<lparr>env_vfs = memory_file [], env_vfs_init = (\<lambda>s. ret (0, s)), env_register = sample_register, env_frame = (\<lambda>_. 0),
     env_fat_fs = sample_fs, env_proc = blank_process, env_task1 = 0x201000, env_task2 = 0x202000\<rparr>"

definition fresh_boot :: kata where
  "fresh_boot = (sample_ata (\<lambda>_ _. 0))\<lparr>keyboard_buffer := replicate 256 (CHR 0x00), buffer_head := 0, buffer_tail := 0,
     tasks := replicate 64 (tasks sample_sched ! 0), heap_first_block := NULL, vm := sample_mm\<rparr>"

theorem kernel_setup_well_formed_witness:
  "\<exists>t. kernel_setup sample_env 0x1BADB002 fresh_boot = Some t \<and> sched_inv t \<and> task_count t = 2 \<and> t_rip (tasks t ! 1) = 0x202000"
proof -
  have "load_page_directory (init_vmm sample_mm) = sample_mm"
    by (simp add: load_page_directory_def init_vmm_def sample_mm_def page_base_def)
  then have "heap_backable (load_page_directory (init_vmm sample_mm))"
    using sample_mm_ok(1) by (simp add: heap_backable_def sample_mm_def aligned_def)
  then have "boot_ok fresh_boot" by (simp add: boot_ok_def fresh_boot_def)
  from kernel_setup_well_formed [OF this, of sample_env "0x1BADB002"] show ?thesis by (auto simp: sample_env_def)
qed

text \<open>
  C38. A machine without both drives of the primary channel does not start: the self tests probe the drives, the driver waits
  for an absent one for ever, and \<open>kernel_main\<close> never reaches its prompt and main loop.
\<close>

theorem kernel_init_needs_both_drives:
  fixes s :: "'a kata_scheme"
  assumes "drive_absent ATA_DEVICE_PRIMARY_MASTER s \<or> drive_absent ATA_DEVICE_PRIMARY_SLAVE s"
  shows "kernel_init E magic s = None"
  by (rule kernel_init_absent [OF assms])

theorem kernel_init_needs_both_drives_witness:
  "kernel_init sample_env 0x1BADB002 (sample_ata (\<lambda>_ _. 0)) = None"
  by (rule kernel_init_needs_both_drives) (simp add: drive_absent_def sample_ata_io)

text \<open>
  C39. The boot thread takes the place of the first task, and no task ever starts. After the scheduler has been initialised and the two
  test tasks have been added, \<open>current_task\<close> names the first of them although the boot thread is running. The first scheduling
  decision saves the registers of the boot thread into that task: whoever resumes the first task later (with selectors that the processor accepts) continues the boot
  thread behind its call of \<open>save_context\<close>, and the function of the first task is never called. The second task does not start either: because the offsets of \<open>restore_context\<close>
  are not those of \<open>struct task\<close>, its entry point goes to \<open>r15\<close> and a null selector to \<open>cs\<close>, and the processor raises an exception,
  whatever its descriptor table holds: that for the data selectors 8 or 16 if it refuses one of them, and otherwise general protection (13). The handler of
  the exception halts the machine.
\<close>

theorem boot_thread_takes_first_task:
  fixes s :: "'a ktimer_scheme"
  assumes "length (tasks s) = 64"
  shows "\<exists>s1 s2 t. scheduler_add_task e1 (scheduler_init s) = Some s1 \<and> scheduler_add_task e2 s1 = Some s2 \<and>
    scheduler_schedule s2 = Some (Switched t) \<and> current_task t = 1 \<and> c_r15 (cpu t) = e2 \<and>
    c_status (cpu t) = Faulted (case c_data_check (cpu s) 8 of Some e \<Rightarrow> e
      | None \<Rightarrow> (case c_data_check (cpu s) 0x10 of Some e \<Rightarrow> e | None \<Rightarrow> 13)) \<and>
    (\<forall>c. segs_accepted (cpu s) c \<longrightarrow> restore_context (tcb_words (tasks t ! 0)) c =
       (cpu s)\<lparr>c_rsp := c_rsp (cpu s) - 8, c_rsi := tasks_addr s + 216, c_rdi := c_rdi c, c_ss := c_ss c, c_rip := switch_resume s,
         c_data_check := c_data_check c, c_code_check := c_code_check c, c_status := Running\<rparr>) \<and>
    (\<forall>n<32. \<exists>u. run_stub n regs t = Some (Halted u))"
proof -
  let ?s0 = "scheduler_init s"
  have s0: "task_count ?s0 = 0" "current_task ?s0 = 0" "length (tasks ?s0) = 64" "cpu ?s0 = cpu s"
    "tasks_addr ?s0 = tasks_addr s" "switch_resume ?s0 = switch_resume s"
    using assms scheduler_init_tasks(1) [OF assms] by (simp_all add: scheduler_init_def Let_def kprint_def)
  obtain s1 where s1: "scheduler_add_task e1 ?s0 = Some s1" "task_count s1 = 1" "current_task s1 = 0" "length (tasks s1) = 64" "cpu s1 = cpu s"
    "tasks_addr s1 = tasks_addr s" "switch_resume s1 = switch_resume s"
    using add_task_eq [of ?s0 e1] s0 by (simp add: kprint_def)
  obtain s2 where s2: "scheduler_add_task e2 s1 = Some s2" "task_count s2 = 2" "current_task s2 = 0" "length (tasks s2) = 64" "cpu s2 = cpu s"
    "tasks_addr s2 = tasks_addr s" "switch_resume s2 = switch_resume s" "tasks s2 ! 1 = init_task 1 e2 (tasks s1 ! 1)"
    using add_task_eq [of s1 e2] s1 by (simp add: kprint_def)
  have "sched_ok s2" using s2 by (simp add: sched_ok_def)
  from boot_switch [OF this s2(2,3,8)] obtain t w where t: "scheduler_schedule s2 = Some (Switched t)" "current_task t = 1"
    "c_status (cpu t) = Faulted (new_task_fault (cpu s))" "c_r15 (cpu t) = e2"
    "tcb_words (tasks t ! 0) = save_context (switch_resume s) ((cpu s)\<lparr>c_rdi := tasks_addr s, c_rsi := tasks_addr s + 216, c_rsp := c_rsp (cpu s) - 8\<rparr>) w"
    unfolding s2(5-7) by blast
  have resume: "restore_context (tcb_words (tasks t ! 0)) c =
       (cpu s)\<lparr>c_rsp := c_rsp (cpu s) - 8, c_rsi := tasks_addr s + 216, c_rdi := c_rdi c, c_ss := c_ss c, c_rip := switch_resume s,
         c_data_check := c_data_check c, c_code_check := c_code_check c, c_status := Running\<rparr>" if "segs_accepted (cpu s) c" for c
    unfolding t(5) using that by (subst save_restore_context) (simp_all add: segs_accepted_def)
  have "\<exists>u. run_stub n regs t = Some (Halted u)" if n: "n < 32" for n
  proof -
    have "unat (of_nat n :: u64) = n" using n by (intro unat_of_nat_small) simp
    then show ?thesis using n by (simp add: run_stub_def isr_handler_def word_less_nat_alt Let_def)
  qed
  then show ?thesis using t s1(1) s2(1) resume by (intro exI [of _ s1] exI [of _ s2] exI [of _ t]) (simp add: new_task_fault_def)
qed

theorem boot_thread_takes_first_task_witness:
  "\<exists>s1 s2 t u. scheduler_add_task 0x201000 (scheduler_init sample_timer) = Some s1 \<and> scheduler_add_task 0x202000 s1 = Some s2 \<and>
    scheduler_schedule s2 = Some (Switched t) \<and> c_status (cpu t) = Faulted 13 \<and> run_stub 13 sample_regs t = Some (Halted u)"
proof -
  have "cpu sample_timer = blank_cpu" by (simp add: sample_timer_def ksched.defs sample_sched_def kmem.defs)
  then have "c_data_check (cpu sample_timer) 8 = None" "c_data_check (cpu sample_timer) 0x10 = None" by (simp_all add: blank_cpu_def)
  moreover have "length (tasks sample_timer) = 64" using sample_timer_inv by (simp add: sched_inv_def sched_ok_def)
  note b = boot_thread_takes_first_task [OF this, of "0x201000" "0x202000" sample_regs]
  ultimately show ?thesis by (elim exE conjE) (erule allE [of _ 13], auto)
qed

end
