(* ===== verification/Main_Loop.thy ===== *)
theory Main_Loop
  imports Kernel_Main
begin

text \<open>
  The main loop of \<open>kernel_main\<close> (\<open>kernel/kernel_loader.c\<close>) together with the interrupts that are served while it runs: a step relation,
  its invariant, and what the loop shows on the terminal.
\<close>

section \<open>The echo loop under interrupts\<close>

text \<open>
  One step of the loop with the interrupts around it: either the next statement, or an external interrupt that
  returns to the loop; after \<open>hlt\<close> the loop goes on with its test. The list holds the character that a keyboard interrupt adds to the buffer.
\<close>

definition accepted :: "nat \<Rightarrow> 'a kkbd_scheme \<Rightarrow> char list" where
  "accepted n s =
     (if n = 33 then
        (case decode (fst (kinb PS2_DATA_PORT s)) of
           None \<Rightarrow> []
         | Some c \<Rightarrow> if length (kbd_contents s) < 255 then [c] else [])
      else [])"

fun after_irq :: "loop_pc \<Rightarrow> loop_pc" where
  "after_irq At_hlt = At_test"
| "after_irq pc = pc"

inductive main_step :: "registers \<Rightarrow> loop_pc \<times> 'a ktimer_scheme \<Rightarrow> char list \<Rightarrow> loop_pc \<times> 'a ktimer_scheme \<Rightarrow> bool" for regs where
  own: "loop_step pc s = Some (pc', s') \<Longrightarrow> main_step regs (pc, s) [] (pc', s')"
| irq: "32 \<le> n \<Longrightarrow> n < 48 \<Longrightarrow> run_stub n regs s = Some (Returned s') \<Longrightarrow>
    main_step regs (pc, s) (accepted n s) (after_irq pc, s')"

inductive main_run :: "registers \<Rightarrow> loop_pc \<times> 'a ktimer_scheme \<Rightarrow> char list \<Rightarrow> loop_pc \<times> 'a ktimer_scheme \<Rightarrow> bool" for regs x where
  start: "main_run regs x [] x"
| go_on: "main_run regs x cs y \<Longrightarrow> main_step regs y c z \<Longrightarrow> main_run regs x (cs @ c) z"

text \<open>The character that has left the buffer and is not yet on the screen.\<close>

fun in_hand :: "loop_pc \<Rightarrow> char list" where
  "in_hand (At_putchar c) = [c]"
| "in_hand pc = []"

definition loop_inv :: "loop_pc \<Rightarrow> 'a ktimer_scheme \<Rightarrow> bool" where
  "loop_inv pc s \<longleftrightarrow> kbd_ok s \<and> kio_ok s \<and> sched_inv s \<and> (pc = At_getchar \<longrightarrow> kbd_contents s \<noteq> [])"

lemma eoi_frame:
  "kbd_ok (apic_eoi s) = kbd_ok s" "kbd_contents (apic_eoi s) = kbd_contents s" "term_abs (io (apic_eoi s)) = term_abs (io s)"
  "kio_ok (apic_eoi s) = kio_ok s"
  by (simp_all add: eoi_eq)

text \<open>
  What a served timer interrupt leaves, whether it returns or leaves for another task: the console and the keyboard's queue are untouched.
\<close>

lemma timer_keeps:
  fixes s :: "'a ktimer_scheme"
  assumes "sched_inv s" "timer_callback s = Some r"
  shows "kbd_ok (final_state r) = kbd_ok s" "kbd_contents (final_state r) = kbd_contents s"
    "term_abs (io (final_state r)) = term_abs (io s)" "kio_ok (final_state r) = kio_ok s"
proof -
  let ?s1 = "s\<lparr>tick_count := tick_count s + 1\<rparr>"
  obtain q where q: "(if tick_count ?s1 mod 5 = 0 then scheduler_schedule ?s1 else Some (Returned ?s1)) = Some q" "r = and_then q apic_eoi"
    using assms(2) by (auto simp: timer_callback_def Let_def split: option.splits)
  have "\<exists>ts j c. final_state q = ?s1\<lparr>tasks := ts, current_task := j, cpu := c\<rparr>"
  proof (cases "tick_count ?s1 mod 5 = 0")
    case True
    have "sched_inv ?s1" using assms(1) by simp
    moreover have "scheduler_schedule ?s1 = Some q" using q(1) True by simp
    ultimately obtain ts j c where "final_state q = ?s1\<lparr>tasks := ts, current_task := j, cpu := c\<rparr>"
      by (rule schedule_only)
    then show ?thesis by auto
  next
    case False
    then have "q = Returned ?s1" using q(1) by simp
    then show ?thesis by (intro exI [of _ "tasks s"] exI [of _ "current_task s"] exI [of _ "cpu s"]) simp
  qed
  moreover have "final_state r = final_state q \<or> final_state r = apic_eoi (final_state q)" unfolding q(2) by (cases q) simp_all
  ultimately show "kbd_ok (final_state r) = kbd_ok s" "kbd_contents (final_state r) = kbd_contents s"
    "term_abs (io (final_state r)) = term_abs (io s)" "kio_ok (final_state r) = kio_ok s"
    by (auto simp: eoi_eq kbd_ok_def kbd_contents_def kbd_count_def)
qed

lemma sched_inv_kbd [simp]:
  "sched_inv (keyboard_handler s) = sched_inv s" "sched_inv (snd (keyboard_getchar s)) = sched_inv s" "sched_inv (kputchar c s) = sched_inv s"
  by (simp_all add: sched_inv_def sched_ok_def keyboard_handler_def keyboard_enqueue_def keyboard_getchar_def kputchar_def kinb_simps
      eoi_eq Let_def split_beta)

text \<open>
  Every external interrupt is served to its end: the handler returns or leaves for another task, and the
  state it leaves is well formed, with the same screen.
\<close>

lemma irq_ends:
  fixes s :: "'a ktimer_scheme"
  assumes inv: "loop_inv At_test s" and n: "32 \<le> n" "n < 48"
  obtains r where "run_stub n regs s = Some r" "loop_inv At_test (final_state r)" "term_abs (io (final_state r)) = term_abs (io s)"
    "kbd_contents (final_state r) = kbd_contents s @ accepted n s" "\<And>t. r \<noteq> Halted t" "n \<noteq> 32 \<Longrightarrow> r = Returned (final_state r)"
proof -
  consider "n = 32" | "n = 33" | "33 < n" using n by linarith
  then show thesis
  proof cases
    case 1
    have si: "sched_inv s" using inv by (simp add: loop_inv_def)
    obtain r where r: "timer_callback s = Some r" "sched_inv (final_state r)" "r = Returned (final_state r) \<or> r = Switched (final_state r)"
      by (rule timer_callback_eq [OF si]) (metis that)
    show thesis using inv 1 r timer_keeps [OF si r(1)]
      by (intro that [of r]) (auto simp: run_stub_def loop_inv_def accepted_def)
  next
    case 2
    let ?s = "keyboard_handler s"
    have "kbd_contents ?s = kbd_contents s @ accepted n s" "kbd_ok ?s"
      using handler_queue [of s] inv 2 by (auto simp: loop_inv_def accepted_def split: option.splits)
    then show thesis using inv 2 by (intro that [of "Returned ?s"]) (auto simp: loop_inv_def handler_io run_stub_def)
  next
    case 3
    have "unat (of_nat n :: u64) = n" using n by (intro unat_of_nat_small) simp
    then have "(of_nat n :: u64) \<noteq> 32" "(32 :: u64) \<le> of_nat n" using 3 by (auto simp: word_le_nat_alt word_unat_eq_iff)
    then have "run_stub n regs s = Some (Returned (apic_eoi s))" using n 3 by (simp add: run_stub_def apic_isr_handler_def)
    then show thesis using inv 3 by (intro that [of "Returned (apic_eoi s)"]) (auto simp: loop_inv_def accepted_def eoi_frame)
  qed
qed

lemma loop_inv_weaken: "loop_inv pc s \<Longrightarrow> loop_inv At_test s"
  by (simp add: loop_inv_def)

lemma irq_returns:
  fixes s :: "'a ktimer_scheme"
  assumes inv: "loop_inv pc s" and n: "32 \<le> n" "n < 48" and r: "run_stub n regs s = Some (Returned s')"
  shows "loop_inv (after_irq pc) s' \<and> term_abs (io s') = term_abs (io s) \<and> kbd_contents s' = kbd_contents s @ accepted n s"
proof -
  have "loop_inv At_test s' \<and> term_abs (io s') = term_abs (io s) \<and> kbd_contents s' = kbd_contents s @ accepted n s"
    by (rule irq_ends [OF loop_inv_weaken [OF inv] n, of regs]) (use r in auto)
  then show ?thesis using inv by (cases pc) (auto simp: loop_inv_def)
qed

lemma own_step:
  fixes s :: "'a ktimer_scheme"
  assumes inv: "loop_inv pc s" and st: "loop_step pc s = Some (pc', s')"
  shows "loop_inv pc' s'" "in_hand pc @ kbd_contents s = (case pc of At_putchar c \<Rightarrow> [c] | _ \<Rightarrow> []) @ in_hand pc' @ kbd_contents s'"
    "term_abs (io s') = fold term_put (case pc of At_putchar c \<Rightarrow> [c] | _ \<Rightarrow> []) (term_abs (io s))"
proof -
  have "loop_inv pc' s' \<and> in_hand pc @ kbd_contents s = (case pc of At_putchar c \<Rightarrow> [c] | _ \<Rightarrow> []) @ in_hand pc' @ kbd_contents s' \<and>
    term_abs (io s') = fold term_put (case pc of At_putchar c \<Rightarrow> [c] | _ \<Rightarrow> []) (term_abs (io s))"
  proof (cases pc)
    case At_test
    then show ?thesis using inv st kbd_has_input_iff [of s] by (auto simp: loop_inv_def)
  next
    case At_getchar
    then obtain x xs where c: "kbd_contents s = x # xs" using inv by (cases "kbd_contents s") (auto simp: loop_inv_def)
    have "keyboard_getchar s = (x, snd (keyboard_getchar s))" "kbd_contents (snd (keyboard_getchar s)) = xs" "kbd_ok (snd (keyboard_getchar s))"
      using getchar_contents [OF _ c] getchar_ok [of s] inv by (auto simp: loop_inv_def prod_eq_iff)
    moreover have "io (snd (keyboard_getchar s)) = io s" "sched_inv (snd (keyboard_getchar s))"
      using inv by (simp add: keyboard_getchar_def Let_def) (use inv in \<open>simp add: loop_inv_def\<close>)
    ultimately show ?thesis using inv st At_getchar c by (auto simp: loop_inv_def split_beta simp del: sched_inv_kbd)
  next
    case (At_putchar c)
    then have s': "pc' = At_hlt" "s' = kputchar c s" using st by simp_all
    show ?thesis using inv console_sim.step_abs console_sim.step_inv unfolding At_putchar s'
      by (auto simp: loop_inv_def kputchar_def)
  next
    case At_hlt
    then show ?thesis using st by simp
  qed
  then show "loop_inv pc' s'" "in_hand pc @ kbd_contents s = (case pc of At_putchar c \<Rightarrow> [c] | _ \<Rightarrow> []) @ in_hand pc' @ kbd_contents s'"
    "term_abs (io s') = fold term_put (case pc of At_putchar c \<Rightarrow> [c] | _ \<Rightarrow> []) (term_abs (io s))" by simp_all
qed

lemma main_run_echoes:
  fixes s0 :: "'a ktimer_scheme"
  assumes "main_run regs x typed y" "x = (At_test, s0)" "loop_inv At_test s0"
  shows "loop_inv (fst y) (snd y) \<and> (\<exists>shown. term_abs (io (snd y)) = fold term_put shown (term_abs (io s0)) \<and>
    kbd_contents s0 @ typed = shown @ in_hand (fst y) @ kbd_contents (snd y))"
  using assms
proof (induction rule: main_run.induct)
  case start
  then show ?case by (intro conjI exI [of _ "[]"]) simp_all
next
  case (go_on cs y c z)
  then obtain shown where I: "loop_inv (fst y) (snd y)" "term_abs (io (snd y)) = fold term_put shown (term_abs (io s0))"
    "kbd_contents s0 @ cs = shown @ in_hand (fst y) @ kbd_contents (snd y)" by blast
  from go_on.hyps(2) show ?case
  proof cases
    case (own pc s pc' s')
    let ?put = "case pc of At_putchar c \<Rightarrow> [c] | _ \<Rightarrow> []"
    have "loop_inv pc s" using I(1) own(1) by simp
    note st = own_step [OF this own(4)]
    have "term_abs (io s') = fold term_put (shown @ ?put) (term_abs (io s0))" using st(3) I(2) own(1) by simp
    moreover have "kbd_contents s0 @ cs @ c = (shown @ ?put) @ in_hand pc' @ kbd_contents s'" using st(2) I(3) own(1,2) by simp
    ultimately show ?thesis using st(1) own(3) by auto
  next
    case (irq n s s' pc)
    have "loop_inv pc s" using I(1) irq(1) by simp
    note st = irq_returns [OF this irq(4-6)]
    have "in_hand (after_irq pc) = in_hand pc" by (cases pc) simp_all
    then show ?thesis using st I(2,3) irq(1-3) by (intro conjI exI [of _ shown]) auto
  qed
qed

lemma own_progress: "pc \<noteq> At_hlt \<Longrightarrow> \<exists>pc' s'. loop_step pc s = Some (pc', s')"
  by (cases pc) (simp_all add: split_beta)

section \<open>Waking up\<close>

text \<open>Runs with the number of times the loop has been woken up from \<open>hlt\<close>.\<close>

inductive wake_run :: "registers \<Rightarrow> loop_pc \<times> 'a ktimer_scheme \<Rightarrow> nat \<Rightarrow> char list \<Rightarrow> loop_pc \<times> 'a ktimer_scheme \<Rightarrow> bool" for regs x where
  start: "wake_run regs x 0 [] x"
| go_on: "wake_run regs x k cs y \<Longrightarrow> main_step regs y c z \<Longrightarrow> wake_run regs x (if fst y = At_hlt then Suc k else k) (cs @ c) z"

lemma wake_run_main_run: "wake_run regs x k cs y \<Longrightarrow> main_run regs x cs y"
  by (induction rule: wake_run.induct) (auto intro: main_run.intros)

text \<open>
  Every round of the loop shows a character or finds the buffer empty; so the number of characters shown keeps up with the
  number of rounds, as far as there were characters at the start.
\<close>

definition rounds :: "nat \<Rightarrow> loop_pc \<Rightarrow> nat" where
  "rounds k pc = (if pc = At_hlt then Suc k else k)"

lemma wake_run_shows:
  fixes s0 :: "'a ktimer_scheme"
  assumes "wake_run regs x k typed y" "x = (At_test, s0)" "loop_inv At_test s0"
  shows "\<exists>shown. term_abs (io (snd y)) = fold term_put shown (term_abs (io s0)) \<and>
    kbd_contents s0 @ typed = shown @ in_hand (fst y) @ kbd_contents (snd y) \<and>
    min (length (kbd_contents s0)) (rounds k (fst y)) \<le> length shown"
  using assms
proof (induction rule: wake_run.induct)
  case start
  then show ?case by (intro exI [of _ "[]"]) (simp add: rounds_def)
next
  case (go_on k cs y c z)
  then obtain shown where I: "term_abs (io (snd y)) = fold term_put shown (term_abs (io s0))"
    "kbd_contents s0 @ cs = shown @ in_hand (fst y) @ kbd_contents (snd y)" "min (length (kbd_contents s0)) (rounds k (fst y)) \<le> length shown" by blast
  have inv: "loop_inv (fst y) (snd y)"
    using main_run_echoes [OF wake_run_main_run [OF go_on.hyps(1)] go_on.prems] by simp
  from go_on.hyps(2) show ?case
  proof cases
    case (own pc s pc' s')
    let ?put = "case pc of At_putchar c \<Rightarrow> [c] | _ \<Rightarrow> []"
    have "loop_inv pc s" using inv own(1) by simp
    note st = own_step [OF this own(4)]
    have t: "term_abs (io s') = fold term_put (shown @ ?put) (term_abs (io s0))" using st(3) I(1) own(1) by simp
    have q: "kbd_contents s0 @ cs @ c = (shown @ ?put) @ in_hand pc' @ kbd_contents s'" using st(2) I(2) own(1,2) by simp
    have "min (length (kbd_contents s0)) (rounds k pc') \<le> length (shown @ ?put)"
    proof (cases "pc = At_test \<and> pc' = At_hlt")
      case True
      then have "kbd_contents s = []" using own(4) kbd_has_input_iff [of s] inv own(1) by (auto simp: loop_inv_def split: if_splits)
      then have "length shown = length (kbd_contents s0 @ cs)" using I(2) own(1) True by simp
      then show ?thesis using True by simp
    next
      case False
      then show ?thesis using I(3) own(1,4) by (cases pc) (auto simp: rounds_def split_beta)
    qed
    then show ?thesis using t q own by (intro exI [of _ "shown @ ?put"]) (cases pc, auto)
  next
    case (irq n s s' pc)
    have "loop_inv pc s" using inv irq(1) by simp
    note st = irq_returns [OF this irq(4-6)]
    have "in_hand (after_irq pc) = in_hand pc" "rounds (if pc = At_hlt then Suc k else k) (after_irq pc) = rounds k pc"
      by (cases pc; simp add: rounds_def)+
    then show ?thesis using st I irq(1-3) by (intro exI [of _ shown]) auto
  qed
qed

text \<open>The loop can always be continued to its next \<open>hlt\<close>, without any interrupt.\<close>

lemma run_to_hlt:
  fixes s :: "'a ktimer_scheme"
  assumes "wake_run regs x k cs (At_test, s)"
  shows "\<exists>s'. wake_run regs x k cs (At_hlt, s')"
proof (cases "keyboard_has_input s")
  case True
  obtain c s1 where g: "keyboard_getchar s = (c, s1)" by force
  have "main_step regs (At_test, s) [] (At_getchar, s)" "main_step regs (At_getchar, s) [] (At_putchar c, s1)"
    "main_step regs (At_putchar c, s1) [] (At_hlt, kputchar c s1)"
    using True g by (auto intro!: main_step.own)
  from wake_run.go_on [OF wake_run.go_on [OF wake_run.go_on [OF assms this(1)] this(2)] this(3)] show ?thesis by auto
next
  case False
  then have "main_step regs (At_test, s) [] (At_hlt, s)" by (auto intro!: main_step.own)
  from wake_run.go_on [OF assms this] show ?thesis by auto
qed

lemma wake_runs_exist:
  fixes s0 :: "'a ktimer_scheme"
  assumes "loop_inv At_test s0"
  shows "\<exists>s. wake_run regs (At_test, s0) k [] (At_hlt, s)"
proof (induction k)
  case 0
  show ?case by (rule run_to_hlt [OF wake_run.start])
next
  case (Suc k)
  then obtain s where s: "wake_run regs (At_test, s0) k [] (At_hlt, s)" ..
  have "loop_inv At_hlt s" using main_run_echoes [OF wake_run_main_run [OF s] refl assms] by simp
  then obtain r where "run_stub 34 regs s = Some r" "r = Returned (final_state r)"
    by (rule irq_ends [OF loop_inv_weaken, of _ _ 34 regs]) simp_all
  then have "main_step regs (At_hlt, s) (accepted 34 s) (after_irq At_hlt, final_state r)" by (intro main_step.irq) simp_all
  from wake_run.go_on [OF s this] have "wake_run regs (At_test, s0) (Suc k) [] (At_test, final_state r)" by (simp add: accepted_def)
  then show ?case by (rule run_to_hlt)
qed

section \<open>Properties\<close>

text \<open>
  C20. Echo. Whatever keys are typed while the main loop runs, and whatever other external interrupts return to it, in any
  order and between any two statements: the characters accepted into the keyboard buffer appear on the terminal in the
  order in which they were typed, each once; those not shown yet are the one the loop holds and those waiting in the buffer.
\<close>

theorem main_loop_echoes_in_order:
  assumes "kbd_ok s0" "kio_ok s0" "sched_inv s0" "main_run regs (At_test, s0) typed (pc, s)"
  shows "\<exists>shown. term_abs (io s) = fold term_put shown (term_abs (io s0)) \<and>
    kbd_contents s0 @ typed = shown @ in_hand pc @ kbd_contents s"
proof -
  have "loop_inv At_test s0" using assms(1-3) by (simp add: loop_inv_def)
  from main_run_echoes [OF assms(4) refl this] show ?thesis by simp
qed

lemma sample_timer_keys: "kbd_ok sample_timer" "kio_ok sample_timer" "kbd_contents sample_timer = []" "accepted 33 sample_timer = ''h''"
proof -
  have "io sample_timer = io sample_kbd" "keyboard_buffer sample_timer = keyboard_buffer sample_kbd"
    "buffer_head sample_timer = buffer_head sample_kbd" "buffer_tail sample_timer = buffer_tail sample_kbd"
    by (simp_all add: sample_timer_def sample_sched_def sample_kmem_def kkbd.defs kmem.defs ksched.defs)
  then show k: "kbd_ok sample_timer" "kio_ok sample_timer" "kbd_contents sample_timer = []" "accepted 33 sample_timer = ''h''"
    using sample_kbd_ok sample_console_ok
    by (simp_all add: kbd_ok_def kbd_contents_def kbd_count_def accepted_def kinb_def inb_def)
      (simp_all add: sample_kbd_def con_ok_def decode_def sample_console_def scancode_to_ascii_def kbd_contents_def kbd_count_def)
qed

theorem main_loop_echoes_in_order_witness:
  "\<exists>s shown. main_run sample_regs (At_test, sample_timer) ''h'' (At_hlt, s) \<and>
    term_abs (io s) = fold term_put shown (term_abs (io sample_timer)) \<and> ''h'' = shown @ kbd_contents s"
proof -
  note k = sample_timer_keys
  let ?s1 = "keyboard_handler sample_timer"
  have inv: "loop_inv At_test sample_timer" using k sample_timer_inv by (simp add: loop_inv_def)
  have r: "run_stub 33 sample_regs sample_timer = Some (Returned ?s1)" by (simp add: run_stub_def)
  have "kbd_contents ?s1 = ''h''" "kbd_ok ?s1" using irq_returns [OF inv _ _ r] k by (simp_all add: loop_inv_def)
  then have g: "keyboard_has_input ?s1" "keyboard_getchar ?s1 = (CHR ''h'', snd (keyboard_getchar ?s1))"
    using kbd_has_input_iff [of ?s1] getchar_contents [of ?s1 "CHR ''h''" "[]"] by (simp_all add: prod_eq_iff)
  let ?s2 = "snd (keyboard_getchar ?s1)" and ?s = "kputchar (CHR ''h'') (snd (keyboard_getchar ?s1))"
  have "main_run sample_regs (At_test, sample_timer) ([] @ accepted 33 sample_timer) (after_irq At_test, ?s1)"
    by (rule main_run.go_on [OF main_run.start main_step.irq [OF _ _ r]]) simp_all
  then have 1: "main_run sample_regs (At_test, sample_timer) ''h'' (At_test, ?s1)" using k(4) by simp
  have "loop_step At_test ?s1 = Some (At_getchar, ?s1)" "loop_step At_getchar ?s1 = Some (At_putchar (CHR ''h''), ?s2)"
    "loop_step (At_putchar (CHR ''h'')) ?s2 = Some (At_hlt, ?s)"
    using g by (simp_all add: split_beta) (simp add: prod_eq_iff)
  note st = this [THEN main_step.own [where regs = sample_regs]]
  have run: "main_run sample_regs (At_test, sample_timer) ''h'' (At_hlt, ?s)"
    using main_run.go_on [OF main_run.go_on [OF main_run.go_on [OF 1 st(1)] st(2)] st(3)] by simp
  show ?thesis using main_loop_echoes_in_order [OF k(1,2) sample_timer_inv run] k(3) run by auto
qed



text \<open>
  C23. Waiting characters are shown. The loop shows one character per wake-up, so a burst of keys is not shown at once; but
  nothing waits for ever: in every run, whatever interrupts wake the loop and whatever is typed meanwhile, once the loop is back at \<open>hlt\<close> after as many
  wake-ups as there were characters waiting at the start, all of these are on the terminal, in order and before anything else. And the loop
  gets there: for every number of wake-ups there is a run that reaches \<open>hlt\<close> after it.
\<close>

theorem waiting_characters_shown:
  fixes s0 :: "'a ktimer_scheme"
  assumes "kbd_ok s0" "kio_ok s0" "sched_inv s0"
  shows "(\<forall>k. \<exists>s. wake_run regs (At_test, s0) k [] (At_hlt, s)) \<and>
    (\<forall>k typed s. wake_run regs (At_test, s0) k typed (At_hlt, s) \<and> length (kbd_contents s0) \<le> Suc k \<longrightarrow>
       (\<exists>more. term_abs (io s) = fold term_put (kbd_contents s0 @ more) (term_abs (io s0)) \<and> typed = more @ kbd_contents s))"
proof -
  have inv: "loop_inv At_test s0" using assms by (simp add: loop_inv_def)
  have "\<exists>more. term_abs (io s) = fold term_put (kbd_contents s0 @ more) (term_abs (io s0)) \<and> typed = more @ kbd_contents s"
    if w: "wake_run regs (At_test, s0) k typed (At_hlt, s)" "length (kbd_contents s0) \<le> Suc k" for k typed and s :: "'a ktimer_scheme"
  proof -
    obtain shown where sh: "term_abs (io s) = fold term_put shown (term_abs (io s0))" "kbd_contents s0 @ typed = shown @ kbd_contents s"
      "length (kbd_contents s0) \<le> length shown"
      using wake_run_shows [OF w(1) refl inv] w(2) by (auto simp: rounds_def)
    then obtain more where "shown = kbd_contents s0 @ more" "typed = more @ kbd_contents s"
      by (auto simp: append_eq_append_conv2)
    then show ?thesis using sh(1) by blast
  qed
  then show ?thesis using wake_runs_exist [OF inv] by blast
qed

theorem waiting_characters_shown_witness:
  "\<exists>s. wake_run sample_regs (At_test, keyboard_handler sample_timer) 0 [] (At_hlt, s) \<and>
    term_abs (io s) = term_put (CHR ''h'') (term_abs (io sample_timer)) \<and> kbd_contents s = []"
proof -
  note k = sample_timer_keys
  let ?s = "keyboard_handler sample_timer"
  have r: "run_stub 33 sample_regs sample_timer = Some (Returned ?s)" by (simp add: run_stub_def)
  have "loop_inv At_test sample_timer" using k sample_timer_inv by (simp add: loop_inv_def)
  note i = irq_returns [OF this _ _ r, simplified]
  then have "kbd_ok ?s" "kio_ok ?s" "sched_inv ?s" "kbd_contents ?s = ''h''" "term_abs (io ?s) = term_abs (io sample_timer)"
    using k by (simp_all add: loop_inv_def)
  note w = waiting_characters_shown [OF this(1-3), of sample_regs] this(4,5)
  obtain s where s: "wake_run sample_regs (At_test, ?s) 0 [] (At_hlt, s)" using w(1) by blast
  then show ?thesis using w by fastforce
qed

end
