(* ===== verification/Kernel_Entry.thy ===== *)
theory Kernel_Entry
  imports Kernel_Main
begin

text \<open>
  The entry point \<open>_start\<close> (\<open>kernel/kernel_entry.asm\<close>) on the bytes of memory and the registers it uses, up to the call of \<open>kernel_main\<close>, and
  the first thing \<open>kernel_main\<close> does, \<open>zero_bss\<close>.
\<close>

section \<open>Operations\<close>

record start_regs =
  g_rax :: u64
  g_rcx :: u64
  g_rdi :: u64
  g_rsi :: u64
  g_rsp :: u64
  g_if :: bool

text \<open>The stores of \<open>rep stosb\<close> for a count of \<open>n\<close>; the direction flag is clear, as the calling convention asks for.\<close>

fun rep_stosb :: "nat \<Rightarrow> u64 \<Rightarrow> u8 \<Rightarrow> mem \<Rightarrow> mem" where
  "rep_stosb 0 a v m = m"
| "rep_stosb (Suc n) a v m = rep_stosb n (a + 1) v (m(a := v))"

text \<open>
  The instructions in order. The symbols of the linker are arguments; \<open>halt\<close> is the address of the instruction
  after the call.
\<close>

definition kernel_entry :: "u64 \<Rightarrow> u64 \<Rightarrow> u64 \<Rightarrow> u64 \<Rightarrow> start_regs \<Rightarrow> mem \<Rightarrow> start_regs \<times> mem" where
  "kernel_entry bss_start bss_end stack_top halt r m =
     (let r1 = r\<lparr>g_if := False\<rparr>;
          r2 = r1\<lparr>g_rdi := bss_start, g_rcx := bss_end\<rparr>;
          r3 = r2\<lparr>g_rcx := g_rcx r2 - g_rdi r2, g_rax := 0\<rparr>;
          m1 = rep_stosb (unat (g_rcx r3)) (g_rdi r3) (ucast (g_rax r3)) m;
          r4 = r3\<lparr>g_rdi := g_rdi r3 + g_rcx r3, g_rcx := 0\<rparr>;
          r5 = r4\<lparr>g_rsp := stack_top\<rparr>;
          r6 = r5\<lparr>g_rsp := g_rsp r5 AND 0xFFFFFFFFFFFFFFF0\<rparr>;
          r7 = r6\<lparr>g_rsp := g_rsp r6 - 8\<rparr>
      in (r7, wr64 (g_rsp r7) halt m1))"

section \<open>The section and the stack\<close>

lemma rep_stosb_at:
  "unat a + n < 2 ^ 64 \<Longrightarrow> rep_stosb n a v m x = (if unat a \<le> unat x \<and> unat x < unat a + n then v else m x)"
proof (induction n arbitrary: a m)
  case (Suc n)
  then have "unat (a + 1) = unat a + 1" by (subst unat_add_small) simp_all
  moreover from this have "rep_stosb n (a + 1) v (m(a := v)) x = (if unat a + 1 \<le> unat x \<and> unat x < unat a + 1 + n then v else (m(a := v)) x)"
    using Suc.prems by (subst Suc.IH) simp_all
  moreover have "x = a \<longleftrightarrow> unat x = unat a" by (rule word_unat_eq_iff)
  ultimately show ?case by auto
qed auto

lemma align16: "unat (x AND 0xFFFFFFFFFFFFFFF0 :: u64) = 16 * (unat x div 16)"
proof -
  have "x AND 0xFFFFFFFFFFFFFFF0 = push_bit 4 (drop_bit 4 x)"
  proof -
    have "(0xFFFFFFFFFFFFFFF0 :: u64) = NOT (mask 4)" by (simp add: mask_eq_exp_minus_1)
    moreover have "x AND NOT (mask 4) = push_bit 4 (drop_bit 4 x)" by (rule bit_eqI) (auto simp: bit_simps dest: bit_imp_le_length)
    ultimately show ?thesis by (simp only:)
  qed
  moreover have "unat (drop_bit 4 x) = unat x div 16" by (simp add: drop_bit_eq_div unat_div)
  moreover have "unat (push_bit 4 y) = 16 * unat y" if "16 * unat y < 2 ^ 64" for y :: u64
    using that by (simp add: push_bit_eq_mult unat_word_ariths mult.commute)
  moreover have "16 * (unat x div 16) < 2 ^ 64" using unsigned_less [of x, where ?'a = nat] by simp
  ultimately show ?thesis by simp
qed

lemma call_slot:
  assumes "16 \<le> unat x"
  shows "unat ((x AND 0xFFFFFFFFFFFFFFF0) - 8 :: u64) = 16 * (unat x div 16) - 8"
  using assms align16 [of x] by (simp add: unat_sub_if_size)

lemma wr64_at:
  assumes "unat a + 8 \<le> 2 ^ 64" "\<not> (unat a \<le> unat x \<and> unat x < unat a + 8)"
  shows "wr64 a v m x = m x"
  unfolding wr64_def
proof (rule wr_le_outside)
  fix i :: nat assume "i < 8"
  then have "unat (a + of_nat i) = unat a + i" using assms(1) by (subst unat_add_small) (simp_all add: unat_of_nat_small)
  then show "x \<noteq> a + of_nat i" using assms(2) \<open>i < 8\<close> by auto
qed

section \<open>Properties\<close>

text \<open>
  C40. The entry point. \<open>_start\<close> masks interrupts, clears exactly the BSS section, sets the stack pointer to a boundary of 16 bytes and calls \<open>kernel_main\<close>: the
  magic number is still in \<open>rsi\<close>, its second argument, but \<open>rdi\<close>, its first, holds the end of the section and no longer the address of the boot
  information. \<open>kernel_main\<close> then clears the section again: \<open>zero_bss\<close> ends, zeroes the section in whole words of four bytes and nothing else, and with it
  the return address that the call has just stored, for the stack lies in the same section.
\<close>

theorem kernel_entry_clears_bss:
  assumes "unat bss_end + 3 < 2 ^ 64" "unat bss_start + 32 \<le> unat stack_top" "unat stack_top \<le> unat bss_end"
  shows "let (r', m') = kernel_entry bss_start bss_end stack_top halt r m; section = {x. unat bss_start \<le> unat x \<and> unat x < unat bss_end}
    in \<not> g_if r' \<and> g_rsi r' = g_rsi r \<and> g_rdi r' = bss_end \<and> unat (g_rsp r' + 8) mod 16 = 0 \<and> rd64 m' (g_rsp r') = halt \<and>
      (\<forall>x. \<not> (unat (g_rsp r') \<le> unat x \<and> unat x < unat (g_rsp r') + 8) \<longrightarrow> m' x = (if x \<in> section then 0 else m x)) \<and>
      (\<exists>m2. zero_bss bss_start bss_end m' = Some m2 \<and> rd64 m2 (g_rsp r') = 0 \<and>
        (\<forall>x. m2 x = (if unat bss_start \<le> unat x \<and> unat x < unat bss_start + 4 * ((unat bss_end - unat bss_start + 3) div 4) then 0 else m x)))"
proof -
  let ?sp = "(stack_top AND 0xFFFFFFFFFFFFFFF0) - 8" and ?n = "unat (bss_end - bss_start)"
  let ?m1 = "rep_stosb ?n bss_start 0 m"
  let ?m' = "wr64 ?sp halt ?m1"
  have sp: "unat ?sp = 16 * (unat stack_top div 16) - 8" using assms(2) by (intro call_slot) simp
  moreover have "unat stack_top = 16 * (unat stack_top div 16) + unat stack_top mod 16" "unat stack_top mod 16 < 16" by simp_all
  ultimately have slot: "unat bss_start \<le> unat ?sp" "unat ?sp + 8 \<le> unat bss_end" using assms(2,3) by linarith+
  have n: "unat bss_start + ?n = unat bss_end" using assms(2,3) by (simp add: unat_sub word_le_nat_alt)
  have inside: "?m' x = (if unat bss_start \<le> unat x \<and> unat x < unat bss_end then 0 else m x)"
    if "\<not> (unat ?sp \<le> unat x \<and> unat x < unat ?sp + 8)" for x
    using wr64_at [OF _ that, of halt ?m1] rep_stosb_at [of bss_start ?n 0 m x] n slot(2) assms(1) by simp
  obtain m2 where m2: "zero_bss bss_start bss_end ?m' = Some m2"
    "\<And>x. m2 x = (if unat bss_start \<le> unat x \<and> unat x < unat bss_start + 4 * ((unat bss_end - unat bss_start + 3) div 4) then 0 else ?m' x)"
    using zero_bss_returns [OF assms(1)] by blast
  have up: "unat bss_end \<le> unat bss_start + 4 * ((unat bss_end - unat bss_start + 3) div 4)" using assms(2,3) by linarith
  have m2': "m2 x = (if unat bss_start \<le> unat x \<and> unat x < unat bss_start + 4 * ((unat bss_end - unat bss_start + 3) div 4) then 0 else m x)" for x
    using m2(2) [of x] inside [of x] slot up by auto
  have "rd64 m2 ?sp = 0"
  proof (rule rd64_zero)
    fix i :: nat assume i: "i < 8"
    have "unat (?sp + of_nat i) = unat ?sp + i" using slot(2) i assms(1) by (subst unat_add_small) (simp_all add: unat_of_nat_small)
    then show "m2 (?sp + of_nat i) = 0" using m2' [of "?sp + of_nat i"] slot i up by simp
  qed
  moreover have "unat (?sp + 8) mod 16 = 0" using align16 [of stack_top] by simp
  ultimately show ?thesis using m2(1) m2' inside by (simp add: kernel_entry_def Let_def)
qed

theorem kernel_entry_clears_bss_witness:
  "g_rdi (fst (kernel_entry 0x110000 0x114010 0x114008 0x100030 \<lparr>g_rax = 0, g_rcx = 0, g_rdi = 0x9000, g_rsi = 0x1BADB002, g_rsp = 0x90000, g_if = True\<rparr> (\<lambda>_. 1))) = 0x114010 \<and>
   g_rsi (fst (kernel_entry 0x110000 0x114010 0x114008 0x100030 \<lparr>g_rax = 0, g_rcx = 0, g_rdi = 0x9000, g_rsi = 0x1BADB002, g_rsp = 0x90000, g_if = True\<rparr> (\<lambda>_. 1))) = 0x1BADB002"
  using kernel_entry_clears_bss [of "0x114010" "0x110000" "0x114008" "0x100030"
      "\<lparr>g_rax = 0, g_rcx = 0, g_rdi = 0x9000, g_rsi = 0x1BADB002, g_rsp = 0x90000, g_if = True\<rparr>" "\<lambda>_. 1"]
  by (simp add: split_beta Let_def del: split_paired_All)

end
