(* ===== verification/Spec2Isabelle.thy ===== *)
theory Spec2Isabelle
  imports Main_Loop Kernel_Entry
begin

text \<open>
  \<^bold>\<open>Verification of the Kaviz OS kernel\<close>

  Kaviz OS is a small 64-bit kernel in C with assembly stubs. The boot loader enters
  \<open>kernel_main\<close> (\<open>kernel/kernel_loader.c\<close>), which initialises the console, the memory
  manager, interrupts, scheduler, timer and keyboard and then echoes what is typed. The
  components call each other directly and share one address space and one set of global variables.

  \<^bold>\<open>How the model is built.\<close> The global variables are one record, extended theory by theory in the
  order in which components depend on each other: \<open>kio\<close> (console and devices), \<open>kapic\<close>, \<open>kkbd\<close>, \<open>kmem\<close>,
  \<open>ksched\<close>, \<open>ktimer\<close>, \<open>kidt\<close>, \<open>kproc\<close>, \<open>kuser\<close>, \<open>ksys\<close>, \<open>kata\<close>. An operation is a function on the first record of
  this chain that has its variables, so what it cannot touch follows from its type. Integers are
  words of their width and wrap as in C; a pointer is an address or, for an array of structures, an
  index. Port and memory-mapped device accesses are appended to a history in the state, and what a device answers
  is a function of that history which is part of the state (\<open>Port_IO\<close>). A loop
  with no structural bound is a partial function with the value \<open>None\<close> when it does not end, and
  that it ends is a theorem wherever it is used. A call that may not come back ends in \<open>Returned\<close>,
  \<open>Switched\<close> (control has left for another context) or \<open>Halted\<close> (\<open>Kernel_State\<close>); a run of the file system, the loader or the
  start of the kernel may also end in a fault, a division by zero or an access behind a buffer (type \<open>run\<close> of \<open>Fat\<close>). Addresses that the linker chooses
  are fields of the state; code that is not in the repository is a parameter.

  \<^bold>\<open>The theories.\<close>

  \<^item> \<open>Kaviz_Prelude\<close>: integer types, page arithmetic, loops as folds, and the locales \<open>invariant_steps\<close>,
    \<open>simulation\<close> and \<open>progress\<close> for arguments that several components share.

  \<^item> \<open>Port_IO\<close>, \<open>Console\<close> (\<open>drivers/port_io.h\<close>, \<open>drivers/vga.h\<close>, \<open>drivers/console.c\<close>): the text console
    implements an abstract 25 by 80 terminal and never writes outside the text page.

  \<^item> \<open>Apic\<close> (\<open>apic.c\<close>): initialisation routes IRQ 0 and 1 through the I/O APIC, described as a device
    with an index and a data window, and leaves its mask bits alone.

  \<^item> \<open>Keyboard\<close> (\<open>drivers/keyboard.c\<close>): the ring buffer is a bounded first-in first-out queue (locale
    \<open>bounded_fifo\<close>); what is typed is read back in order.

  \<^item> \<open>Paging\<close>, \<open>Memory_Init\<close> (\<open>memory.c\<close>, \<open>memory.h\<close>): four-level page tables in a physical memory, the
    bootstrap pool, the look-aside buffer. The invariant \<open>pt_ok\<close> says that the tables form a tree; every
    operation keeps it and changes exactly the translation it is asked to change (locale \<open>address_space\<close>).

  \<^item> \<open>Byte_Memory\<close>, \<open>Heap_Blocks\<close>, \<open>Kheap\<close> (\<open>memory.c\<close>): the kernel heap as a linked list of
    headers in byte memory. \<open>kmalloc\<close> and \<open>kfree\<close> terminate, keep the list a tiling of the heap
    and implement the interface \<open>region_manager\<close> of disjoint regions; the boot-time self test passes.

  \<^item> \<open>Context_Switch\<close> (\<open>context_switch.asm\<close>): saving and loading a context, quadword by quadword. The instructions that load a segment register or
    return to another code segment may raise an exception; which selectors the descriptor table of the boot loader refuses is part of the state of the
    processor (\<open>c_data_check\<close>, \<open>c_code_check\<close>), and a null selector is refused for code whatever the table holds. What was saved is loaded back
    where the processor accepts the selectors.

  \<^item> \<open>Scheduler\<close> (\<open>scheduler.c\<close>, \<open>scheduler.h\<close>): the loop that picks the next task
    equals a round-robin reference, no ready task starves (an interpretation of \<open>progress\<close>), tasks are added with their stacks, and
    the first switch to a new task ends in an exception.

  \<^item> \<open>Timer\<close> (\<open>timer.c\<close>): the timer interrupt, \<open>sleep\<close> across the wrap-around of the tick counter, and
    the programming of the devices. What happens during \<open>hlt\<close> is a parameter of \<open>sleep\<close>.

  \<^item> \<open>Interrupt\<close> (\<open>interrupt.c\<close>, \<open>interrupt.h\<close>, \<open>interrupts.asm\<close>, \<open>apic_isr_stubs.asm\<close>): descriptor table,
    legacy controllers (described as devices), exceptions, acknowledgement of external interrupts.

  \<^item> \<open>Process\<close> (\<open>process.c\<close>, \<open>process.h\<close>, \<open>registers.h\<close>): the process table; creation and exit implement the
    interface \<open>slot_manager\<close>.

  \<^item> \<open>User_Mode\<close> (\<open>user_mode.c\<close>, \<open>user_mode.asm\<close>) and \<open>Syscall\<close> (\<open>syscall.c\<close>, \<open>syscall_entry.asm\<close>): the
    user stack and the privilege level after the switch; the handler table, the handlers and the dispatcher. The function
    \<open>syscall_register\<close> is declared but not defined in the sources; it is a parameter, with the hypothesis
    \<open>registers_handlers\<close> that it stores the handler under its number.

  \<^item> \<open>Ata\<close> (\<open>drivers/ata.c\<close>): programmed I/O with a drive described by its task-file registers and sectors, which may
    be busy for any finite time. Written sectors are read back, detection works, and what happens when a drive is missing. The waiting
    loops share the locale \<open>status_poll\<close>.

  \<^item> \<open>Fat\<close>, \<open>Fat_Files\<close>, \<open>Fat_Volume\<close> (\<open>fs/fat.c\<close>, \<open>fs/fat.h\<close>): the FAT driver over the disk. \<open>Fat\<close> holds all operations,
    \<open>Fat_Files\<close> the directory look-up and the reading of files as functions on the bytes of clusters, \<open>Fat_Volume\<close> mounting,
    the cached table in the heap and the properties.

  \<^item> \<open>Elf\<close>, \<open>Elf_Load\<close> (\<open>elf.c\<close>, \<open>elf.h\<close>): the ELF loader over heap and page tables. The functions of \<open>fs/vfs.h\<close> are
    declared but not defined in the sources; they are the record \<open>vfs\<close>, with the hypothesis \<open>serves\<close> that a file can be opened, read and
    positioned as long as a condition on the state holds, which the loader keeps by leaving a given set of bytes alone, and \<open>reads_short\<close> for files that end early. \<open>Elf\<close> has the operations and one
    segment, \<open>Elf_Load\<close> a whole program: its image in memory, the permissions of its pages, that both heap buffers are given back, and
    which files it turns down, by their bytes (\<open>reject_reason\<close>).

  \<^item> \<open>Vfs\<close> (\<open>fs/vfs.h\<close>, the table in \<open>fs/fat.c\<close>): the table of operations of a file system and that of the FAT driver. With the hypothesis
    \<open>dispatches\<close>, that the undefined functions forward to the table, the FAT driver satisfies \<open>serves\<close>, and the loader brings a program from the
    sectors of the disk into memory.

  \<^item> \<open>Kernel_Main\<close> (\<open>kernel_loader.c\<close>, \<open>test.c\<close>): the order of initialisation and the self tests. \<open>kernel_setup\<close>, the part of \<open>kernel_main\<close> up to the
    test tasks, returns and establishes the invariants of the components; \<open>kernel_init\<close> adds the self tests, and does not come back without both drives. The
    relation \<open>keeps\<close> says what the operations of the start leave alone.

  \<^item> \<open>Main_Loop\<close> (the loop of \<open>kernel_main\<close>): it runs one statement at a time with interrupts between any two of them (relations \<open>main_step\<close>,
    \<open>main_run\<close> and, with the wake-ups counted, \<open>wake_run\<close>). Its states stay well formed and it never gets stuck, every handler ends, what is typed appears on the
    terminal of \<open>Console\<close> in order, and waiting characters are shown after as many wake-ups. Interrupts after which another task goes on are not followed
    further, since the switch to a task that has not run yet ends in an exception.

  \<^item> \<open>Kernel_Entry\<close> (\<open>kernel_entry.asm\<close>): the entry point on registers and bytes, with \<open>zero_bss\<close> as the first thing that \<open>kernel_main\<close> does: what is
    cleared, what \<open>kernel_main\<close> gets as arguments, and what happens to its stack.

  \<^bold>\<open>Properties that describe defects.\<close> Some theorems state what the code does where this is
    not what it is meant to do: page tables in an unaligned pool, pages below a fresh entry that user mode cannot reach,
    interrupts that stay masked, a size that wraps in \<open>kmalloc\<close>, task stacks inside the kernel heap, offsets
    in the context switch that do not match the structures, user mode entered at kernel privilege, exchanged system
    call arguments, a driver that waits for a missing drive for ever and a kernel that therefore does not start, sector addresses that wrap,
    seeks that keep the old cluster, directories that never end, a first task that is replaced by the boot thread, and a BSS section that is
    cleared with the stack in it.

  \<^bold>\<open>Bounds.\<close> There is no fuel: loops that the code bounds are folds or structural recursion, all others are partial functions.
  Bounds in hypotheses are those of the code: 64 tasks and processes, 16 page-table pages in the bootstrap pool (each new page takes at most
  three), clusters of at most 4096 bytes, files below 2 GB for the loader because \<open>vfs_seek\<close> takes a signed 32-bit offset, and programs below
  \<open>2 ^ 48\<close> and below the kernel heap.

  \<^bold>\<open>Not modelled.\<close> The three stages of the boot loader (assembly that runs before the kernel), the saving of registers in
  the interrupt stubs, the stack contents behind the stack pointers (the stack of a task that is
  switched to is taken to be mapped), the descriptor table itself, what runs after a far return to an outer ring, the programming of the system call
  registers, interrupts during initialisation, and the parts of \<open>fs/vfs.h\<close> that no code uses (directory entries, mount points, the list of file systems).
  \<open>paging_setup.asm\<close> is not part of the build. What the self tests leave is not described beyond their first step: the test tasks have replaced heap pages by then. The variables in the BSS section are fields of the
  state with given initial values, so \<open>zero_bss\<close> is a function on bytes of its own (\<open>Kernel_Entry\<close>) and not a step of \<open>kernel_setup\<close>.
\<close>

end
